(* ===== verification/Prelude.thy ===== *)
theory Prelude
  imports Main "HOL-Library.Char_ord" "HOL-Library.List_Lexorder" "HOL-Library.Product_Lexorder"
begin

section \<open>Shared vocabulary: results, sequencing, and list lemmas\<close>

text \<open>
  A Go function that returns \<open>(T, error)\<close> is a value of \<open>'e + 'a\<close> (\<open>Inl\<close> the error);
  a function that talks to Redis also threads a world \<open>'w\<close>. The combinators below are the
  early return of Go (\<open>if err != nil { return err }\<close>) and the abort of a Lua script, and
  the list lemmas are what several components need about sorted and filtered lists.
\<close>

named_theorems go_simps \<open>evaluation of sequenced Go and Lua code\<close>

type_synonym ('w, 'e, 'a) io = "'w \<Rightarrow> ('e + 'a) \<times> 'w"

definition io_ret :: "'a \<Rightarrow> ('w, 'e, 'a) io" where
  "io_ret x w = (Inr x, w)"

definition io_fail :: "'e \<Rightarrow> ('w, 'e, 'a) io" where
  "io_fail e w = (Inl e, w)"

definition io_bind :: "('w, 'e, 'a) io \<Rightarrow> ('a \<Rightarrow> ('w, 'e, 'b) io) \<Rightarrow> ('w, 'e, 'b) io" where
  "io_bind m f w = (case m w of (Inl e, w') \<Rightarrow> (Inl e, w') | (Inr x, w') \<Rightarrow> f x w')"

text \<open>A pure step that may fail, inside a sequence.\<close>

definition io_lift :: "'e + 'a \<Rightarrow> ('w, 'e, 'a) io" where
  "io_lift r w = (r, w)"

lemma io_ret_apply [simp, go_simps]: "io_ret x w = (Inr x, w)"
  by (simp add: io_ret_def)

lemma io_fail_apply [simp, go_simps]: "io_fail e w = (Inl e, w)"
  by (simp add: io_fail_def)

lemma io_lift_apply [simp, go_simps]: "io_lift r w = (r, w)"
  by (simp add: io_lift_def)

lemma io_bind_Inl: "m w = (Inl e, w') \<Longrightarrow> io_bind m f w = (Inl e, w')"
  by (simp add: io_bind_def)

lemma io_bind_Inr: "m w = (Inr x, w') \<Longrightarrow> io_bind m f w = f x w'"
  by (simp add: io_bind_def)

lemma io_bind_eq_Inr:
  "io_bind m f w = (Inr y, w'') \<longleftrightarrow> (\<exists>x w'. m w = (Inr x, w') \<and> f x w' = (Inr y, w''))"
  by (auto simp: io_bind_def split: prod.splits sum.splits)

lemma io_bind_ret [simp]: "io_bind (io_ret x) f = f x"
  by (rule ext) (simp add: io_bind_def)

lemma io_bind_fail [simp]: "io_bind (io_fail e) f = io_fail e"
  by (rule ext) (simp add: io_bind_def)

text \<open>A property of the world that every stage keeps is kept by the sequence.\<close>

lemma io_bind_world:
  assumes "\<And>x. P (snd (m w)) \<Longrightarrow> P (snd (f x (snd (m w))))" and "P (snd (m w))"
  shows "P (snd (io_bind m f w))"
  using assms by (auto simp: io_bind_def split: prod.splits sum.splits)

subsection \<open>Fallible traversal\<close>

fun res_map :: "('a \<Rightarrow> 'e + 'b) \<Rightarrow> 'a list \<Rightarrow> 'e + 'b list" where
  "res_map f [] = Inr []"
| "res_map f (x # xs) =
     (case f x of Inl e \<Rightarrow> Inl e
      | Inr y \<Rightarrow> (case res_map f xs of Inl e \<Rightarrow> Inl e | Inr ys \<Rightarrow> Inr (y # ys)))"

lemma res_map_Inr: "(\<And>x. x \<in> set xs \<Longrightarrow> f x = Inr (g x)) \<Longrightarrow> res_map f xs = Inr (map g xs)"
  by (induction xs) auto

lemma res_map_InrD: "res_map f xs = Inr ys \<Longrightarrow> list_all2 (\<lambda>x y. f x = Inr y) xs ys"
  by (induction xs arbitrary: ys) (auto split: sum.splits)

subsection \<open>Sorted lists\<close>

lemma filter_eq_self: "(\<And>x. x \<in> set xs \<Longrightarrow> P x) \<Longrightarrow> filter P xs = xs"
  by (induction xs) auto

lemma map_of_some_in: "map_of xs k = Some v \<Longrightarrow> (k, v) \<in> set xs"
  by (rule map_of_SomeD)

lemma sorted_distinct_set_eq:
  "sorted xs \<Longrightarrow> distinct xs \<Longrightarrow> sorted ys \<Longrightarrow> distinct ys \<Longrightarrow> set xs = set ys \<Longrightarrow> xs = ys"
  by (rule sorted_distinct_set_unique)

text \<open>Two association lists with the same lookups have the same pairs.\<close>

lemma map_of_eq_set_eq:
  "distinct (map fst xs) \<Longrightarrow> distinct (map fst ys) \<Longrightarrow> map_of xs = map_of ys \<Longrightarrow> set xs = set ys"
  by (metis map_of_eqI map_of_inject_set map_of_eq_None_iff map_of_inject_set domIff set_map
      dom_map_of_conv_image_fst)

subsection \<open>Slices\<close>

text \<open>Go's \<open>xs[a:b]\<close> for bounds already checked to lie in the list.\<close>

definition slice :: "nat \<Rightarrow> nat \<Rightarrow> 'a list \<Rightarrow> 'a list" where
  "slice a b xs = drop a (take b xs)"

lemma length_slice [simp]: "length (slice a b xs) = min (length xs) b - a"
  by (simp add: slice_def)

lemma nth_slice: "a + i < b \<Longrightarrow> a + i < length xs \<Longrightarrow> slice a b xs ! i = xs ! (a + i)"
  by (simp add: slice_def)

lemma slice_map: "slice a b (map f xs) = map f (slice a b xs)"
  by (simp add: slice_def take_map drop_map)

lemma slice_clip: "slice a (min b (length xs)) xs = slice a b xs"
  by (simp add: slice_def min_def)

end
