(* ===== verification/GoText.thy ===== *)
theory GoText
  imports Prelude
begin

section \<open>Go strings and numerals\<close>

text \<open>
  The parts of Go's \<open>strings\<close> and \<open>strconv\<close> packages the program uses, on byte strings:
  \<open>strings.Cut\<close> with a one-byte separator, decimal printing of an \<open>int64\<close>
  (\<open>strconv.FormatInt(_, 10)\<close>, also what go-redis sends for an integer argument), and
  \<open>ParseInt\<close>/\<open>ParseUint\<close> in base 10 with their 64-bit range checks. Go's \<open>int64\<close>
  values are \<open>int\<close> here; where the code can overflow, the sum goes through \<open>wrap64\<close>.
\<close>

definition wrap64 :: "int \<Rightarrow> int" where
  "wrap64 x = (x + 2 ^ 63) mod 2 ^ 64 - 2 ^ 63"

definition is_int64 :: "int \<Rightarrow> bool" where
  "is_int64 x \<longleftrightarrow> - (2 ^ 63) \<le> x \<and> x < 2 ^ 63"

lemma wrap64_id [simp]: "is_int64 x \<Longrightarrow> wrap64 x = x"
  by (simp add: wrap64_def is_int64_def)

lemma wrap64_range: "is_int64 (wrap64 x)"
proof -
  have "0 \<le> (x + 2 ^ 63) mod 2 ^ 64" "(x + 2 ^ 63) mod 2 ^ 64 < 2 ^ 64"
    by simp_all
  then show ?thesis by (simp add: wrap64_def is_int64_def)
qed

subsection \<open>strings.Cut\<close>

fun cut_at :: "char \<Rightarrow> string \<Rightarrow> (string \<times> string) option" where
  "cut_at c [] = None"
| "cut_at c (x # xs) =
     (if x = c then Some ([], xs)
      else (case cut_at c xs of None \<Rightarrow> None | Some (a, b) \<Rightarrow> Some (x # a, b)))"

lemma cut_at_append [simp]: "c \<notin> set a \<Longrightarrow> cut_at c (a @ c # b) = Some (a, b)"
  by (induction a) auto

lemma cut_at_None [simp]: "cut_at c s = None \<longleftrightarrow> c \<notin> set s"
  by (induction s) (auto split: option.splits)

lemma cut_at_Some: "cut_at c s = Some (a, b) \<longleftrightarrow> s = a @ c # b \<and> c \<notin> set a"
proof
  assume "cut_at c s = Some (a, b)"
  then show "s = a @ c # b \<and> c \<notin> set a"
    by (induction s arbitrary: a) (auto split: option.splits if_splits)
qed auto

text \<open>Two strings joined by a separator the first half does not hold come apart again.\<close>

lemma sep_inject:
  fixes c :: char
  assumes "a @ c # b = a' @ c # b'" "c \<notin> set a" "c \<notin> set a'"
  shows "a = a' \<and> b = b'"
proof -
  have "Some (a, b) = cut_at c (a @ c # b)" using assms(2) by simp
  also have "\<dots> = cut_at c (a' @ c # b')" by (simp only: assms(1))
  also have "\<dots> = Some (a', b')" using assms(3) by simp
  finally show ?thesis by simp
qed

subsection \<open>Decimal digits\<close>

definition digit_char :: "nat \<Rightarrow> char" where
  "digit_char d = char_of (48 + d)"

definition digit_val :: "char \<Rightarrow> nat option" where
  "digit_val c = (let k = (of_char c :: nat) in if 48 \<le> k \<and> k \<le> 57 then Some (k - 48) else None)"

fun digits_val :: "nat \<Rightarrow> string \<Rightarrow> nat option" where
  "digits_val acc [] = Some acc"
| "digits_val acc (c # cs) =
     (case digit_val c of None \<Rightarrow> None | Some d \<Rightarrow> digits_val (10 * acc + d) cs)"

definition parse_nat :: "string \<Rightarrow> nat option" where
  "parse_nat s = (if s = [] then None else digits_val 0 s)"

fun show_nat :: "nat \<Rightarrow> string" where
  "show_nat n = (if n < 10 then [digit_char n] else show_nat (n div 10) @ [digit_char (n mod 10)])"

declare show_nat.simps [simp del]

lemma digit_val_char [simp]: "d < 10 \<Longrightarrow> digit_val (digit_char d) = Some d"
  by (simp add: digit_val_def digit_char_def of_char_of Let_def)

lemma digits_val_append:
  "digits_val a (xs @ ys) = (case digits_val a xs of None \<Rightarrow> None | Some b \<Rightarrow> digits_val b ys)"
  by (induction xs arbitrary: a) (auto split: option.splits)

lemma digits_val_show [simp]: "digits_val 0 (show_nat n) = Some n"
proof (induction n rule: show_nat.induct)
  case (1 n)
  then show ?case
    by (subst show_nat.simps) (auto simp: digits_val_append)
qed

lemma show_nat_nonempty [simp]: "show_nat n \<noteq> []"
  by (subst show_nat.simps) simp

lemma digit_char_0: "digit_char 0 = CHR ''0''"
  unfolding digit_char_def by code_simp

lemma show_nat_0: "show_nat 0 = ''0''"
  by (subst show_nat.simps) (simp add: digit_char_0)

lemma parse_show_nat [simp]: "parse_nat (show_nat n) = Some n"
  by (simp add: parse_nat_def)

lemma digits_val_digits: "digits_val a s = Some n \<Longrightarrow> c \<in> set s \<Longrightarrow> digit_val c \<noteq> None"
  by (induction s arbitrary: a) (auto split: option.splits)

lemma show_nat_digits: "c \<in> set (show_nat n) \<Longrightarrow> digit_val c \<noteq> None"
  using digits_val_digits [OF digits_val_show] by blast

lemma show_nat_no_sep [simp]:
  "CHR ''-'' \<notin> set (show_nat n)" "CHR ''+'' \<notin> set (show_nat n)" "CHR ''|'' \<notin> set (show_nat n)"
  "CHR '':'' \<notin> set (show_nat n)" "CHR ''.'' \<notin> set (show_nat n)" "CHR ''e'' \<notin> set (show_nat n)"
  "CHR ''E'' \<notin> set (show_nat n)" "CHR ''('' \<notin> set (show_nat n)"
  using show_nat_digits by (force simp: digit_val_def)+

lemma show_nat_inject [simp]: "show_nat m = show_nat n \<longleftrightarrow> m = n"
  by (metis option.inject parse_show_nat)

lemma hd_show_nat: "show_nat n = c # cs \<Longrightarrow> c \<noteq> CHR ''-'' \<and> c \<noteq> CHR ''+'' \<and> c \<noteq> CHR ''(''"
  by (metis list.set_intros(1) show_nat_no_sep(1,2,8))

subsection \<open>strconv\<close>

definition format_int :: "int \<Rightarrow> string" where
  "format_int n = (if n < 0 then CHR ''-'' # show_nat (nat (- n)) else show_nat (nat n))"

text \<open>\<open>ParseUint(s, 10, 64)\<close>: digits only, below \<open>2^64\<close>.\<close>

definition parse_uint64 :: "string \<Rightarrow> nat option" where
  "parse_uint64 s =
     (case parse_nat s of None \<Rightarrow> None | Some n \<Rightarrow> if n < 2 ^ 64 then Some n else None)"

text \<open>\<open>ParseInt(s, 10, 64)\<close>: an optional sign, then \<open>ParseUint\<close> and the signed range check.\<close>

definition parse_int64 :: "string \<Rightarrow> int option" where
  "parse_int64 s =
     (let neg = (s \<noteq> [] \<and> hd s = CHR ''-'');
          body = (if s \<noteq> [] \<and> (hd s = CHR ''-'' \<or> hd s = CHR ''+'') then tl s else s)
      in case parse_uint64 body of
           None \<Rightarrow> None
         | Some n \<Rightarrow> if neg then (if n \<le> 2 ^ 63 then Some (- int n) else None)
                     else (if n < 2 ^ 63 then Some (int n) else None))"

lemma parse_uint64_show [simp]: "n < 2 ^ 64 \<Longrightarrow> parse_uint64 (show_nat n) = Some n"
  by (simp add: parse_uint64_def)

lemma parse_int64_show [simp]:
  assumes "n < 2 ^ 63" shows "parse_int64 (show_nat n) = Some (int n)"
proof -
  have *: "parse_uint64 (show_nat n) = Some n" using assms by simp
  obtain c cs where s: "show_nat n = c # cs" by (metis neq_Nil_conv show_nat_nonempty)
  show ?thesis using hd_show_nat [OF s] assms * by (simp add: parse_int64_def s Let_def)
qed

lemma parse_format_int: "is_int64 n \<Longrightarrow> parse_int64 (format_int n) = Some n"
proof (cases "n < 0")
  case True
  assume "is_int64 n"
  with True have "nat (- n) \<le> 2 ^ 63" by (simp add: is_int64_def)
  then have "parse_uint64 (show_nat (nat (- n))) = Some (nat (- n))" by simp
  with True \<open>nat (- n) \<le> 2 ^ 63\<close> show ?thesis
    by (simp add: format_int_def parse_int64_def Let_def)
next
  case False
  assume "is_int64 n"
  with False show ?thesis by (simp add: format_int_def is_int64_def nat_less_iff)
qed

lemma format_int_nonempty [simp]: "format_int n \<noteq> []"
  by (simp add: format_int_def)

lemma format_int_inject [simp]: "format_int m = format_int n \<longleftrightarrow> m = n"
proof
  assume eq: "format_int m = format_int n"
  have hd: "hd (show_nat k) \<noteq> CHR ''-''" for k
    by (metis hd_in_set show_nat_no_sep(1) show_nat_nonempty)
  show "m = n"
  proof (cases "m < 0"; cases "n < 0")
    assume "m < 0" "n < 0"
    with eq show ?thesis by (simp add: format_int_def)
  next
    assume "m < 0" "\<not> n < 0"
    with eq hd [of "nat n"] show ?thesis by (metis format_int_def list.sel(1))
  next
    assume "\<not> m < 0" "n < 0"
    with eq hd [of "nat m"] show ?thesis by (metis format_int_def list.sel(1))
  next
    assume "\<not> m < 0" "\<not> n < 0"
    with eq show ?thesis by (simp add: format_int_def)
  qed
qed simp

end
