(* ===== verification/Float64.thy ===== *)
theory Float64
  imports GoText Complex_Main "HOL-Library.Log_Nat"
begin

section \<open>IEEE 754 doubles\<close>

text \<open>
  Go's \<open>float64\<close> and Lua's numbers. A finite double is the rational number it denotes (the two
  zeros, which no code here tells apart, coincide); \<open>f64_round\<close> is the IEEE rounding of an exact
  result (53 significant bits, half to even, gradual underflow, overflow to infinity), and
  arithmetic is the exact operation followed by it. Comparisons follow Go: every comparison with
  a NaN is false. The \<open>linorder\<close> instance is a separate total order (NaN least), which is the
  order of sorted sets, where a NaN cannot occur.
\<close>

datatype f64 = NaN | Inf bool \<comment> \<open>\<open>True\<close>: negative\<close> | Fin rat

definition pow2 :: "int \<Rightarrow> rat" where
  "pow2 k = (if 0 \<le> k then 2 ^ nat k else 1 / 2 ^ nat (- k))"

definition round_half_even :: "rat \<Rightarrow> int" where
  "round_half_even r =
     (let f = \<lfloor>r\<rfloor>; d = r - of_int f
      in if d < 1 / 2 then f else if 1 / 2 < d then f + 1 else if even f then f else f + 1)"

text \<open>The exponent of the leading bit of a positive rational.\<close>

definition log2_rat :: "rat \<Rightarrow> int" where
  "log2_rat q =
     (let (n, d) = quotient_of q; k = int (floorlog 2 (nat n)) - int (floorlog 2 (nat d))
      in if pow2 k \<le> q then k else k - 1)"

definition f64_round :: "rat \<Rightarrow> f64" where
  "f64_round q =
     (if q = 0 then Fin 0
      else let k = max (log2_rat \<bar>q\<bar> - 52) (- 1074);
               m = of_int (round_half_even (\<bar>q\<bar> / pow2 k)) * pow2 k
           in if 2 ^ 1024 \<le> m then Inf (q < 0) else Fin (if q < 0 then - m else m))"

definition f64_of_int :: "int \<Rightarrow> f64" where
  "f64_of_int n = f64_round (of_int n)"

fun f64_add :: "f64 \<Rightarrow> f64 \<Rightarrow> f64" where
  "f64_add NaN _ = NaN"
| "f64_add _ NaN = NaN"
| "f64_add (Inf a) (Inf b) = (if a = b then Inf a else NaN)"
| "f64_add (Inf a) (Fin _) = Inf a"
| "f64_add (Fin _) (Inf b) = Inf b"
| "f64_add (Fin p) (Fin q) = f64_round (p + q)"

fun f64_neg :: "f64 \<Rightarrow> f64" where
  "f64_neg NaN = NaN"
| "f64_neg (Inf a) = Inf (\<not> a)"
| "f64_neg (Fin q) = Fin (- q)"

fun f64_lt :: "f64 \<Rightarrow> f64 \<Rightarrow> bool" where
  "f64_lt NaN _ = False"
| "f64_lt _ NaN = False"
| "f64_lt (Inf a) (Inf b) = (a \<and> \<not> b)"
| "f64_lt (Inf a) (Fin _) = a"
| "f64_lt (Fin _) (Inf b) = (\<not> b)"
| "f64_lt (Fin p) (Fin q) = (p < q)"

definition f64_eq :: "f64 \<Rightarrow> f64 \<Rightarrow> bool" where
  "f64_eq x y \<longleftrightarrow> x \<noteq> NaN \<and> x = y"

definition trunc_rat :: "rat \<Rightarrow> int" where
  "trunc_rat q = (if q < 0 then \<lceil>q\<rceil> else \<lfloor>q\<rfloor>)"

text \<open>\<open>math.Round\<close>: half away from zero; NaN and the infinities are unchanged.\<close>

definition round_rat :: "rat \<Rightarrow> int" where
  "round_rat q = (if q < 0 then - \<lfloor>- q + 1 / 2\<rfloor> else \<lfloor>q + 1 / 2\<rfloor>)"

fun math_trunc :: "f64 \<Rightarrow> f64" where
  "math_trunc (Fin q) = Fin (of_int (trunc_rat q))"
| "math_trunc x = x"

fun math_round :: "f64 \<Rightarrow> f64" where
  "math_round (Fin q) = Fin (of_int (round_rat q))"
| "math_round x = x"

subsection \<open>The order of sorted sets\<close>

instantiation f64 :: linorder
begin

fun less_eq_f64 :: "f64 \<Rightarrow> f64 \<Rightarrow> bool" where
  "less_eq_f64 NaN _ = True"
| "less_eq_f64 (Inf a) NaN = False"
| "less_eq_f64 (Inf a) (Inf b) = (b \<longrightarrow> a)"
| "less_eq_f64 (Inf a) (Fin _) = a"
| "less_eq_f64 (Fin _) NaN = False"
| "less_eq_f64 (Fin _) (Inf b) = (\<not> b)"
| "less_eq_f64 (Fin p) (Fin q) = (p \<le> q)"

definition less_f64 :: "f64 \<Rightarrow> f64 \<Rightarrow> bool" where
  "less_f64 x y \<longleftrightarrow> x \<le> y \<and> \<not> y \<le> (x :: f64)"

instance
proof
  fix x y z :: f64
  show "x < y \<longleftrightarrow> x \<le> y \<and> \<not> y \<le> x" by (simp add: less_f64_def)
  show "x \<le> x" by (cases x) auto
  show "x \<le> z" if "x \<le> y" "y \<le> z" using that by (cases x; cases y; cases z) auto
  show "x = y" if "x \<le> y" "y \<le> x" using that by (cases x; cases y) auto
  show "x \<le> y \<or> y \<le> x" by (cases x; cases y) auto
qed

end

lemma Fin_less [simp]: "Fin p < Fin q \<longleftrightarrow> p < q"
  by (auto simp: less_f64_def)

lemma f64_lt_less: "x \<noteq> NaN \<Longrightarrow> y \<noteq> NaN \<Longrightarrow> f64_lt x y \<longleftrightarrow> x < y"
  by (cases x; cases y) (auto simp: less_f64_def)

subsection \<open>Integers up to \<open>2^53\<close> are exact\<close>

lemma round_half_even_int [simp]: "round_half_even (of_int n) = n"
  by (simp add: round_half_even_def)

lemma pow2_pos [simp]: "0 < pow2 k"
  by (simp add: pow2_def)

lemma pow2_neg_int: "k \<le> 0 \<Longrightarrow> q / pow2 k = q * 2 ^ nat (- k)"
  by (auto simp: pow2_def)

lemma floorlog_le: "0 < n \<Longrightarrow> n < 2 ^ k \<Longrightarrow> floorlog 2 n \<le> k"
  using floorlog_leI [of n 2 k] by simp

lemma floorlog_1 [simp]: "floorlog 2 (Suc 0) = 1"
  by (simp add: floorlog_def)

lemma log2_rat_int:
  assumes "0 < n" "n < 2 ^ 53" shows "log2_rat (of_int n) \<le> 52"
proof -
  have "nat n < 2 ^ 53" using assms by (simp add: nat_less_iff)
  then have k: "floorlog 2 (nat n) \<le> 53" using assms by (intro floorlog_le) auto
  have q: "quotient_of (of_int n) = (n, 1)" by (simp add: quotient_of_int)
  from k show ?thesis by (simp add: log2_rat_def q Let_def)
qed

lemma log2_rat_2_53: "log2_rat (2 ^ 53) = 53"
proof -
  have f: "floorlog 2 (2 ^ 53) = 54" using floorlog_power [of 1 2 53] by (simp del: floorlog_power)
  have "quotient_of (2 ^ 53) = (2 ^ 53, 1)" using quotient_of_int [of "2 ^ 53"] by simp
  then show ?thesis using f by (simp add: log2_rat_def Let_def pow2_def)
qed

lemma f64_round_scaled:
  assumes "q \<noteq> 0" "k = max (log2_rat \<bar>q\<bar> - 52) (- 1074)" "\<bar>q\<bar> = of_int m * pow2 k" "\<bar>q\<bar> < 2 ^ 1024"
  shows "f64_round q = Fin q"
proof -
  have "\<bar>q\<bar> / pow2 k = of_int m" using assms(3) pow2_pos [of k] by (simp add: order_less_imp_not_eq2)
  then have "round_half_even (\<bar>q\<bar> / pow2 k) = m" by simp
  then have "of_int (round_half_even (\<bar>q\<bar> / pow2 k)) * pow2 k = \<bar>q\<bar>" using assms(3) by simp
  then show ?thesis using assms(1,4) by (auto simp: f64_round_def assms(2) [symmetric] Let_def)
qed

lemma f64_round_int:
  assumes "\<bar>n\<bar> \<le> 2 ^ 53" shows "f64_round (of_int n) = Fin (of_int n)"
proof (cases "n = 0")
  case True
  then show ?thesis by (simp add: f64_round_def)
next
  case False
  have big: "\<bar>rat_of_int n\<bar> < 2 ^ 1024"
  proof -
    have "\<bar>n\<bar> < 2 ^ 1024" using assms by simp
    then show ?thesis by (metis of_int_abs of_int_less_numeral_power_cancel_iff)
  qed
  let ?k = "max (log2_rat \<bar>rat_of_int n\<bar> - 52) (- 1074)"
  show ?thesis
  proof (cases "\<bar>n\<bar> = 2 ^ 53")
    case True
    then have abs: "\<bar>rat_of_int n\<bar> = 2 ^ 53" by (metis of_int_abs of_int_numeral of_int_power)
    show ?thesis
      by (rule f64_round_scaled [where k = ?k and m = "2 ^ 52"])
        (use False big log2_rat_2_53 in \<open>simp_all add: abs pow2_def\<close>)
  next
    case neq: False
    have "log2_rat (of_int \<bar>n\<bar>) \<le> 52"
      by (rule log2_rat_int) (use False neq assms in auto)
    then have k: "?k \<le> 0" by simp
    have "\<bar>rat_of_int n\<bar> = of_int (\<bar>n\<bar> * 2 ^ nat (- ?k)) * pow2 ?k"
      using k by (auto simp: pow2_def)
    from f64_round_scaled [OF _ refl this big] False show ?thesis by simp
  qed
qed

lemma f64_of_int_exact [simp]: "\<bar>n\<bar> \<le> 2 ^ 53 \<Longrightarrow> f64_of_int n = Fin (of_int n)"
  by (simp add: f64_of_int_def f64_round_int)

lemma f64_add_int [simp]:
  assumes "\<bar>m + n\<bar> \<le> 2 ^ 53"
  shows "f64_add (Fin (of_int m)) (Fin (of_int n)) = Fin (of_int (m + n))"
  using f64_round_int [OF assms] by simp

lemma f64_round_not_NaN [simp]: "f64_round q \<noteq> NaN"
  by (simp add: f64_round_def Let_def)

lemma f64_of_int_not_NaN [simp]: "f64_of_int n \<noteq> NaN"
  by (simp add: f64_of_int_def)

subsection \<open>Decimal literals\<close>

text \<open>
  What \<open>strconv.ParseFloat\<close> and Lua's \<open>tonumber\<close> make of a decimal literal: an optional sign,
  digits with at most one point, an optional exponent. \<open>ParseFloat\<close> also knows the words
  \<open>inf\<close>, \<open>infinity\<close> and \<open>nan\<close> in any case and reports an error when a literal overflows.
  Hexadecimal literals and digit separators, which nothing that writes the ledger produces, are
  not literals here.
\<close>

definition parse_mant :: "string \<Rightarrow> rat option" where
  "parse_mant m =
     (let ip = takeWhile (\<lambda>c. c \<noteq> CHR ''.'') m; fp = drop 1 (dropWhile (\<lambda>c. c \<noteq> CHR ''.'') m)
      in case parse_nat (ip @ fp) of None \<Rightarrow> None | Some n \<Rightarrow> Some (of_nat n / 10 ^ length fp))"

definition is_exp_char :: "char \<Rightarrow> bool" where
  "is_exp_char c \<longleftrightarrow> c = CHR ''e'' \<or> c = CHR ''E''"

fun split_sign :: "string \<Rightarrow> bool \<times> string" where
  "split_sign [] = (False, [])"
| "split_sign (c # cs) =
     (if c = CHR ''-'' then (True, cs) else if c = CHR ''+'' then (False, cs) else (False, c # cs))"

definition parse_decimal :: "string \<Rightarrow> rat option" where
  "parse_decimal s =
     (let (neg, body) = split_sign s;
          m = takeWhile (\<lambda>c. \<not> is_exp_char c) body; r = dropWhile (\<lambda>c. \<not> is_exp_char c) body
      in case parse_mant m of
           None \<Rightarrow> None
         | Some q \<Rightarrow>
             (let sq = (if neg then - q else q)
              in if r = [] then Some sq
                 else let (eneg, ds) = split_sign (tl r)
                      in case parse_nat ds of
                           None \<Rightarrow> None
                         | Some k \<Rightarrow> Some (if eneg then sq / 10 ^ k else sq * 10 ^ k)))"

definition ascii_lower :: "char \<Rightarrow> char" where
  "ascii_lower c = (let k = (of_char c :: nat) in if 65 \<le> k \<and> k \<le> 90 then char_of (k + 32) else c)"

definition parse_float :: "string \<Rightarrow> f64 option" where
  "parse_float s =
     (let (neg, body) = split_sign s; word = map ascii_lower body
      in if word = ''inf'' \<or> word = ''infinity'' then Some (Inf neg)
         else if map ascii_lower s = ''nan'' then Some NaN
         else case parse_decimal s of
                None \<Rightarrow> None
              | Some q \<Rightarrow> (case f64_round q of Fin r \<Rightarrow> Some (Fin r) | _ \<Rightarrow> None))"

definition lua_tonumber :: "string \<Rightarrow> f64 option" where
  "lua_tonumber s = map_option f64_round (parse_decimal s)"

lemma split_sign_show [simp]: "split_sign (show_nat n) = (False, show_nat n)"
proof -
  obtain c cs where s: "show_nat n = c # cs" by (metis neq_Nil_conv show_nat_nonempty)
  show ?thesis using hd_show_nat [OF s] by (simp add: s)
qed

lemma split_sign_format: "split_sign (format_int n) = (n < 0, show_nat (nat \<bar>n\<bar>))"
  by (simp add: format_int_def)

lemma takeWhile_all: "(\<And>x. x \<in> set xs \<Longrightarrow> P x) \<Longrightarrow> takeWhile P xs = xs"
  by (simp add: takeWhile_eq_all_conv)

lemma dropWhile_all: "(\<And>x. x \<in> set xs \<Longrightarrow> P x) \<Longrightarrow> dropWhile P xs = []"
  by simp

lemma show_nat_not_exp: "c \<in> set (show_nat n) \<Longrightarrow> \<not> is_exp_char c"
  using show_nat_no_sep by (auto simp: is_exp_char_def)

lemma parse_mant_show [simp]: "parse_mant (show_nat n) = Some (of_nat n)"
proof -
  have tw: "takeWhile (\<lambda>c. c \<noteq> CHR ''.'') (show_nat n) = show_nat n"
    by (rule takeWhile_all) (use show_nat_no_sep in auto)
  have dw: "dropWhile (\<lambda>c. c \<noteq> CHR ''.'') (show_nat n) = []"
    by (rule dropWhile_all) (use show_nat_no_sep in auto)
  show ?thesis unfolding parse_mant_def tw dw by simp
qed

lemma parse_decimal_format [simp]: "parse_decimal (format_int n) = Some (of_int n)"
  by (auto simp: parse_decimal_def split_sign_format takeWhile_all dropWhile_all show_nat_not_exp Let_def)

lemma lua_tonumber_format: "lua_tonumber (format_int n) = Some (f64_of_int n)"
  by (simp add: lua_tonumber_def f64_of_int_def)

end
