(* ===== verification/Domain.thy ===== *)
theory Domain
  imports Float64
begin

section \<open>Scores, events, boards and players\<close>

text \<open>
  The packages \<open>score\<close>, \<open>ledger\<close>, \<open>board\<close> and \<open>player\<close>. The validators of \<open>strvalid\<close> (a
  third-party package) and \<open>uuid.Parse\<close> are the parameter \<open>ext\<close>: the code only relies on each
  deciding a fixed set of strings. Instants (\<open>time.Time\<close>) are unix nanoseconds in UTC; the zero
  time is January 1 of year 1.
\<close>

subsection \<open>score\<close>

definition score_max :: int where "score_max = 10000000000000"
definition score_min :: int where "score_min = - score_max"

definition score_validate :: "int \<Rightarrow> bool" where
  "score_validate v \<longleftrightarrow> \<not> (v < score_min \<or> score_max < v)"

lemma score_validate_abs: "score_validate v \<longleftrightarrow> \<bar>v\<bar> \<le> score_max"
  by (auto simp: score_validate_def score_min_def)

text \<open>The bound's purpose: a valid score, and the sum of two, is an exact double.\<close>

lemma score_exact [simp]: "score_validate v \<Longrightarrow> f64_of_int v = Fin (of_int v)"
  by (simp add: score_validate_abs score_max_def)

lemma score_sum_exact:
  "score_validate v \<Longrightarrow> score_validate w \<Longrightarrow>
    f64_add (f64_of_int v) (f64_of_int w) = Fin (of_int (v + w))"
  using f64_add_int [of v w] by (simp add: score_validate_abs score_max_def)

lemma score_int64: "score_validate v \<Longrightarrow> is_int64 v"
  by (simp add: score_validate_abs score_max_def is_int64_def abs_le_iff)

subsection \<open>ledger\<close>

type_synonym time = int

definition zero_time :: time where "zero_time = - 62135596800 * 10 ^ 9"
definition unix_milli :: "time \<Rightarrow> int" where "unix_milli t = t div 10 ^ 6"
definition from_unix_milli :: "int \<Rightarrow> time" where "from_unix_milli ms = ms * 10 ^ 6"
definition unix_sec :: "time \<Rightarrow> int" where "unix_sec t = t div 10 ^ 9"

lemma unix_milli_from [simp]: "unix_milli (from_unix_milli ms) = ms"
  by (simp add: unix_milli_def from_unix_milli_def)

definition event_set :: string where "event_set = ''set''"
definition event_increment :: string where "event_increment = ''increment''"

lemma event_types_distinct [simp]:
  "event_set \<noteq> event_increment" "event_increment \<noteq> event_set" "event_set \<noteq> []" "event_increment \<noteq> []" "[] \<noteq> event_set" "[] \<noteq> event_increment"
  "CHR ''|'' \<notin> set event_set" "CHR ''|'' \<notin> set event_increment"
  by (simp_all add: event_set_def event_increment_def)

record event =
  ev_id :: string
  ev_type :: string
  ev_player :: string
  ev_board :: string
  ev_amount :: int
  ev_request :: string
  ev_created :: time

subsection \<open>External validators\<close>

datatype sep_rule = SepNone | SepInner

record ascii_config =
  cfg_subject :: string
  cfg_min_len :: int
  cfg_max_len :: int
  cfg_upper :: bool
  cfg_digits :: bool
  cfg_space :: bool
  cfg_underscore :: sep_rule
  cfg_dash :: sep_rule
  cfg_allow_repeat_sep :: bool
  cfg_leading_letter :: bool
  cfg_echo_value :: bool

record unicode_config =
  ucfg_subject :: string
  ucfg_min_runes :: int
  ucfg_max_runes :: int
  ucfg_echo_value :: bool

record normalize_config =
  ncfg_trim_spaces :: bool
  ncfg_lowercase :: bool

record ext =
  uuid_parse_ok :: "string \<Rightarrow> bool"
  strvalid_ok :: "ascii_config \<Rightarrow> string \<Rightarrow> bool"
  strvalid_unicode_ok :: "unicode_config \<Rightarrow> string \<Rightarrow> bool"
  strvalid_normalize :: "normalize_config \<Rightarrow> string \<Rightarrow> string"

datatype verr = BadBoardId | BadBoardName | BadBoardState string | BadPlayerId | BadPlayerName

subsection \<open>board\<close>

definition board_id_config :: ascii_config where
  "board_id_config = \<lparr>cfg_subject = ''board id'', cfg_min_len = 3, cfg_max_len = 32,
     cfg_upper = False, cfg_digits = True, cfg_space = False, cfg_underscore = SepNone,
     cfg_dash = SepInner, cfg_allow_repeat_sep = False, cfg_leading_letter = False,
     cfg_echo_value = True\<rparr>"

definition board_name_config :: unicode_config where
  "board_name_config = \<lparr>ucfg_subject = ''board name'', ucfg_min_runes = 3, ucfg_max_runes = 32,
     ucfg_echo_value = True\<rparr>"

definition board_active :: string where "board_active = ''active''"
definition board_closed :: string where "board_closed = ''closed''"

record board =
  bd_id :: string
  bd_name :: string
  bd_state :: string
  bd_created :: time

definition board_id_validate :: "ext \<Rightarrow> string \<Rightarrow> bool" where
  "board_id_validate X i = strvalid_ok X board_id_config i"

definition board_state_validate :: "string \<Rightarrow> bool" where
  "board_state_validate st \<longleftrightarrow> st = board_active \<or> st = board_closed"

definition board_normalize_name :: "ext \<Rightarrow> string \<Rightarrow> string" where
  "board_normalize_name X name =
     strvalid_normalize X \<lparr>ncfg_trim_spaces = True, ncfg_lowercase = False\<rparr> name"

definition board_validate_name :: "ext \<Rightarrow> string \<Rightarrow> bool" where
  "board_validate_name X name = strvalid_unicode_ok X board_name_config name"

text \<open>\<open>NewBoard\<close>; \<open>now\<close> is what \<open>apextime.Now()\<close> returns.\<close>

definition new_board :: "ext \<Rightarrow> time \<Rightarrow> string \<Rightarrow> string \<Rightarrow> string \<Rightarrow> verr + board" where
  "new_board X now bid name st =
     (if \<not> board_id_validate X bid then Inl BadBoardId
      else let name' = board_normalize_name X name
        in if \<not> board_validate_name X name' then Inl BadBoardName
           else let st' = (if st = [] then board_active else st)
             in if \<not> board_state_validate st' then Inl (BadBoardState st')
                else Inr \<lparr>bd_id = bid, bd_name = name', bd_state = st', bd_created = now\<rparr>)"

subsection \<open>player\<close>

definition player_name_config :: ascii_config where
  "player_name_config = \<lparr>cfg_subject = ''player name'', cfg_min_len = 3, cfg_max_len = 32,
     cfg_upper = True, cfg_digits = True, cfg_space = True, cfg_underscore = SepInner,
     cfg_dash = SepInner, cfg_allow_repeat_sep = True, cfg_leading_letter = True,
     cfg_echo_value = True\<rparr>"

record profile =
  pf_id :: string
  pf_name :: string
  pf_created :: time

definition player_id_validate :: "ext \<Rightarrow> string \<Rightarrow> bool" where
  "player_id_validate X i = uuid_parse_ok X i"

definition player_normalize_name :: "ext \<Rightarrow> string \<Rightarrow> string" where
  "player_normalize_name X name =
     strvalid_normalize X \<lparr>ncfg_trim_spaces = True, ncfg_lowercase = False\<rparr> name"

definition player_validate_name :: "ext \<Rightarrow> string \<Rightarrow> bool" where
  "player_validate_name X name = strvalid_ok X player_name_config name"

text \<open>\<open>NewProfile\<close>; \<open>uid\<close> is the id \<open>GenerateID\<close> returns.\<close>

definition new_profile :: "ext \<Rightarrow> string \<Rightarrow> time \<Rightarrow> string \<Rightarrow> verr + profile" where
  "new_profile X uid now name =
     (let name' = player_normalize_name X name
      in if \<not> player_validate_name X name' then Inl BadPlayerName
         else Inr \<lparr>pf_id = uid, pf_name = name', pf_created = now\<rparr>)"

lemma new_board_Inr:
  "new_board X now bid name st = Inr b \<Longrightarrow>
    bd_id b = bid \<and> board_id_validate X (bd_id b) \<and> board_validate_name X (bd_name b) \<and>
    board_state_validate (bd_state b) \<and> bd_created b = now"
  by (auto simp: new_board_def Let_def split: if_splits)

lemma new_profile_Inr:
  "new_profile X uid now name = Inr p \<Longrightarrow> pf_id p = uid \<and> player_validate_name X (pf_name p)"
  by (auto simp: new_profile_def Let_def split: if_splits)

end
