(* ===== verification/ApexTime.thy ===== *)
theory ApexTime
  imports Domain
begin

section \<open>Instants as text (\<open>apextime\<close>)\<close>

text \<open>
  The formats of \<open>apextime\<close>: RFC 3339 with milliseconds and a trailing \<open>Z\<close> out, any RFC 3339 in,
  dates as \<open>2006-01-02\<close>. An instant is nanoseconds since 1970, UTC. The calendar is the proleptic
  Gregorian one of Go's \<open>time\<close> package: \<open>locate\<close> finds a day number in a list of year or month
  lengths, and 400 years are one cycle. Parsing follows \<open>time.Parse\<close>: a one-digit hour is
  accepted, a fraction may follow the seconds, and an offset is subtracted. \<open>InZone\<close> is used
  nowhere and needs the zone database; it is not modelled.
\<close>

subsection \<open>The calendar\<close>

definition is_leap :: "int \<Rightarrow> bool" where
  "is_leap y \<longleftrightarrow> y mod 4 = 0 \<and> (y mod 100 \<noteq> 0 \<or> y mod 400 = 0)"

definition year_len :: "int \<Rightarrow> int" where
  "year_len y = (if is_leap y then 366 else 365)"

definition month_lens :: "int \<Rightarrow> int list" where
  "month_lens y = [31, if is_leap y then 29 else 28, 31, 30, 31, 30, 31, 31, 30, 31, 30, 31]"

definition cycle_lens :: "int list" where
  "cycle_lens = map (\<lambda>k. year_len (int k)) [0..<400]"

fun locate :: "int list \<Rightarrow> int \<Rightarrow> nat \<times> int" where
  "locate [] r = (0, r)"
| "locate (n # ns) r = (if r < n then (0, r) else (case locate ns (r - n) of (i, r') \<Rightarrow> (Suc i, r')))"

text \<open>Days since 1970-01-01; the cycles are counted from the year 2000, day 10957.\<close>

definition days_of :: "int \<times> int \<times> int \<Rightarrow> int" where
  "days_of ymd = (case ymd of (y, m, d) \<Rightarrow>
     10957 + 146097 * ((y - 2000) div 400) + sum_list (take (nat (y mod 400)) cycle_lens) +
     sum_list (take (nat (m - 1)) (month_lens y)) + (d - 1))"

definition civil_of :: "int \<Rightarrow> int \<times> int \<times> int" where
  "civil_of days =
     (let n = days - 10957; (yi, doy) = locate cycle_lens (n mod 146097);
          y = 2000 + 400 * (n div 146097) + int yi; (mi, d) = locate (month_lens y) doy
      in (y, int mi + 1, d + 1))"

definition date_ok :: "int \<times> int \<times> int \<Rightarrow> bool" where
  "date_ok ymd = (case ymd of (y, m, d) \<Rightarrow>
     1 \<le> m \<and> m \<le> 12 \<and> 1 \<le> d \<and> d \<le> month_lens y ! nat (m - 1))"

lemma locate_sum:
  assumes "i < length ns" "0 \<le> r" "r < ns ! i" "\<forall>n \<in> set ns. 0 < n"
  shows "locate ns (sum_list (take i ns) + r) = (i, r)"
  using assms
proof (induction ns arbitrary: i)
  case (Cons n ns)
  show ?case
  proof (cases i)
    case (Suc j)
    have "0 \<le> sum_list (take j ns)"
      using Cons.prems(4) by (intro sum_list_nonneg) (auto dest!: in_set_takeD intro: less_imp_le)
    with Cons Suc show ?thesis by (simp add: algebra_simps)
  qed (use Cons in simp)
qed simp

lemma locate_inverse:
  assumes "locate ns r = (i, r')" "0 \<le> r" "r < sum_list ns"
  shows "i < length ns \<and> 0 \<le> r' \<and> r' < ns ! i \<and> r = sum_list (take i ns) + r'"
  using assms
proof (induction ns arbitrary: r i)
  case (Cons n ns)
  show ?case
  proof (cases "r < n")
    case False
    obtain j s where j: "locate ns (r - n) = (j, s)" by (cases "locate ns (r - n)")
    with Cons.prems(1) False have "i = Suc j" "s = r'" by simp_all
    with Cons.prems False Cons.IH [of "r - n" j] j show ?thesis by simp
  qed (use Cons.prems in auto)
qed simp

lemma cycle_total: "sum_list cycle_lens = 146097"
  unfolding cycle_lens_def year_len_def is_leap_def by code_simp

lemma length_cycle_lens [simp]: "length cycle_lens = 400"
  by (simp add: cycle_lens_def)

lemma length_month_lens [simp]: "length (month_lens y) = 12"
  by (simp add: month_lens_def)

lemma cycle_lens_nth: "k < 400 \<Longrightarrow> cycle_lens ! k = year_len (int k)"
  by (simp add: cycle_lens_def)

lemma month_total: "sum_list (month_lens y) = year_len y"
  by (simp add: month_lens_def year_len_def)

lemma month_lens_pos: "\<forall>n \<in> set (month_lens y). 0 < n"
  by (simp add: month_lens_def)

lemma cycle_lens_pos: "\<forall>n \<in> set cycle_lens. 0 < n"
  by (auto simp: cycle_lens_def year_len_def)

lemma year_len_mod: "year_len (y mod 400) = year_len y"
proof -
  have "y mod 400 mod 4 = y mod 4" "y mod 400 mod 100 = y mod 100"
    by (rule mod_mod_cancel; simp)+
  then show ?thesis by (simp add: year_len_def is_leap_def)
qed

lemma sum_take_nonneg: "\<forall>n \<in> set ns. (0::int) < n \<Longrightarrow> 0 \<le> sum_list (take k ns)"
  by (intro sum_list_nonneg) (auto dest!: in_set_takeD intro: less_imp_le)

lemma sum_take_le: "\<forall>n \<in> set ns. (0::int) < n \<Longrightarrow> k < length ns \<Longrightarrow>
    sum_list (take k ns) + ns ! k \<le> sum_list ns"
proof (induction ns arbitrary: k)
  case (Cons n ns)
  have "0 \<le> sum_list ns" using Cons.prems(1) sum_take_nonneg [of ns "length ns"] by simp
  with Cons show ?case by (cases k) auto
qed simp

text \<open>Printing a date and reading it back, in both directions.\<close>

lemma civil_of_days_of:
  assumes "date_ok (y, m, d)"
  shows "civil_of (days_of (y, m, d)) = (y, m, d)"
proof -
  let ?k = "nat (y mod 400)" and ?ms = "sum_list (take (nat (m - 1)) (month_lens y)) + (d - 1)"
  from assms have m: "1 \<le> m" "m \<le> 12" "1 \<le> d" "d \<le> month_lens y ! nat (m - 1)"
    by (simp_all add: date_ok_def)
  then have mi: "nat (m - 1) < length (month_lens y)" by simp
  have loc_m: "locate (month_lens y) ?ms = (nat (m - 1), d - 1)"
    using m mi month_lens_pos by (intro locate_sum) auto
  have ms: "0 \<le> ?ms" "?ms < year_len y"
    using sum_take_nonneg [OF month_lens_pos, of "nat (m - 1)" y] m
      sum_take_le [OF month_lens_pos mi] by (simp_all add: month_total)
  have k: "?k < 400" by (simp add: nat_less_iff)
  have len: "cycle_lens ! ?k = year_len y" using k by (simp add: cycle_lens_nth year_len_mod)
  have loc_y: "locate cycle_lens (sum_list (take ?k cycle_lens) + ?ms) = (?k, ?ms)"
    using ms k len cycle_lens_pos by (intro locate_sum) auto
  have r: "0 \<le> sum_list (take ?k cycle_lens) + ?ms" "sum_list (take ?k cycle_lens) + ?ms < 146097"
    using ms sum_take_nonneg [OF cycle_lens_pos, of ?k] sum_take_le [OF cycle_lens_pos, of ?k] k len
    by (simp_all add: cycle_total)
  have n: "days_of (y, m, d) - 10957 =
      146097 * ((y - 2000) div 400) + (sum_list (take ?k cycle_lens) + ?ms)"
    by (simp add: days_of_def)
  have "(days_of (y, m, d) - 10957) mod 146097 = sum_list (take ?k cycle_lens) + ?ms"
    using r unfolding n by (simp only: mod_mult_self4 mod_pos_pos_trivial)
  moreover have "(days_of (y, m, d) - 10957) div 146097 = (y - 2000) div 400"
    using r unfolding n by (simp only: div_mult_self4 div_pos_pos_trivial)
  moreover have "2000 + 400 * ((y - 2000) div 400) + y mod 400 = y"
    using mod_mult_self2 [of "y - 2000" 400 5] div_mult_mod_eq [of "y - 2000" 400] by simp
  ultimately show ?thesis
    using m by (simp add: civil_of_def Let_def loc_y loc_m)
qed

lemma days_of_civil_of: "days_of (civil_of n) = n \<and> date_ok (civil_of n)"
proof -
  define q where "q = (n - 10957) div 146097"
  obtain yi doy where y: "locate cycle_lens ((n - 10957) mod 146097) = (yi, doy)" by fastforce
  define y' where "y' = 2000 + 400 * q + int yi"
  obtain mi d where m: "locate (month_lens y') doy = (mi, d)" by fastforce
  have 1: "yi < 400" "0 \<le> doy" "doy < cycle_lens ! yi"
    "(n - 10957) mod 146097 = sum_list (take yi cycle_lens) + doy"
    using locate_inverse [OF y] by (simp_all add: cycle_total)
  have "y' = int yi + 400 * (5 + q)" by (simp add: y'_def)
  then have yi: "y' mod 400 = int yi" "(y' - 2000) div 400 = q"
    using 1(1) by (simp_all only: mod_mult_self2) (simp_all add: algebra_simps)
  have "doy < year_len y'"
    using 1 yi year_len_mod [of y'] by (simp add: cycle_lens_nth)
  then have 2: "mi < 12" "0 \<le> d" "d < month_lens y' ! mi" "doy = sum_list (take mi (month_lens y')) + d"
    using locate_inverse [OF m 1(2)] by (simp_all add: month_total)
  have c: "civil_of n = (y', int mi + 1, d + 1)"
    by (simp add: civil_of_def Let_def y m q_def [symmetric] y'_def [symmetric])
  have "146097 * q + (n - 10957) mod 146097 = n - 10957" by (simp add: q_def)
  with 1 2 yi show ?thesis by (simp add: c days_of_def date_ok_def)
qed

subsection \<open>Printing\<close>

definition day_ns :: int where "day_ns = 86400 * 10 ^ 9"

text \<open>Go's \<open>appendInt(b, x, width)\<close>.\<close>

definition append_int :: "nat \<Rightarrow> int \<Rightarrow> string" where
  "append_int width x =
     (let ds = show_nat (nat \<bar>x\<bar>)
      in (if x < 0 then [CHR ''-''] else []) @ replicate (width - length ds) (CHR ''0'') @ ds)"

definition format_date :: "time \<Rightarrow> string" where
  "format_date t =
     (case civil_of (t div day_ns) of (y, m, d) \<Rightarrow>
        append_int 4 y @ ''-'' @ append_int 2 m @ ''-'' @ append_int 2 d)"

definition format_time :: "time \<Rightarrow> string" where
  "format_time t =
     (let ns = t mod day_ns; sec = ns div 10 ^ 9
      in format_date t @ ''T'' @ append_int 2 (sec div 3600) @ '':'' @ append_int 2 (sec div 60 mod 60)
           @ '':'' @ append_int 2 (sec mod 60) @ ''.'' @ append_int 3 (ns mod 10 ^ 9 div 10 ^ 6) @ ''Z'')"

subsection \<open>Parsing\<close>

type_synonym 'a parser = "string \<Rightarrow> ('a \<times> string) option"

definition p_bind :: "'a parser \<Rightarrow> ('a \<Rightarrow> 'b parser) \<Rightarrow> 'b parser" where
  "p_bind p f s = (case p s of None \<Rightarrow> None | Some (x, s') \<Rightarrow> f x s')"

definition p_ret :: "'a \<Rightarrow> 'a parser" where
  "p_ret x s = Some (x, s)"

definition p_when :: "bool \<Rightarrow> 'a parser \<Rightarrow> 'a parser" where
  "p_when c p s = (if c then p s else None)"

fun skip :: "char \<Rightarrow> unit parser" where
  "skip c (d # s) = (if c = d then Some ((), s) else None)"
| "skip c [] = None"

text \<open>\<open>getnum\<close>: two digits, or one when a single digit is allowed.\<close>

fun getnum :: "bool \<Rightarrow> int parser" where
  "getnum fixed [] = None"
| "getnum fixed (c # s) =
     (case digit_val c of
        None \<Rightarrow> None
      | Some a \<Rightarrow>
          (case s of
             c' # s' \<Rightarrow>
               (case digit_val c' of
                  Some b \<Rightarrow> Some (int (10 * a + b), s')
                | None \<Rightarrow> if fixed then None else Some (int a, s))
           | [] \<Rightarrow> if fixed then None else Some (int a, s)))"

text \<open>The year: four characters that \<open>atoi\<close> reads, the first a digit.\<close>

definition get_year :: "int parser" where
  "get_year s =
     (if length s < 4 \<or> digit_val (hd s) = None then None
      else map_option (\<lambda>n. (int n, drop 4 s)) (parse_nat (take 4 s)))"

text \<open>An optional fraction after the seconds, cut after nine digits.\<close>

definition get_fraction :: "int parser" where
  "get_fraction s =
     (case s of
        c # d # s' \<Rightarrow>
          if (c = CHR ''.'' \<or> c = CHR '','') \<and> digit_val d \<noteq> None
          then (let ds = takeWhile (\<lambda>x. digit_val x \<noteq> None) (d # s'); used = take 9 ds
                in map_option (\<lambda>n. (int n * 10 ^ (9 - length used), drop (length ds) (d # s')))
                     (parse_nat used))
          else Some (0, s)
      | _ \<Rightarrow> Some (0, s))"

text \<open>The zone: \<open>Z\<close>, or a signed \<open>hh:mm\<close> offset, in seconds.\<close>

definition get_zone :: "int parser" where
  "get_zone s =
     (if s \<noteq> [] \<and> hd s = CHR ''Z'' then Some (0, tl s)
      else if length s < 6 \<or> s ! 3 \<noteq> CHR '':'' then None
      else (case (getnum True (take 2 (drop 1 s)), getnum True (take 2 (drop 4 s))) of
              (Some (hr, _), Some (mm, _)) \<Rightarrow>
                if 24 < hr \<or> 60 < mm then None
                else (let off = (hr * 60 + mm) * 60
                      in if hd s = CHR ''+'' then Some (off, drop 6 s)
                         else if hd s = CHR ''-'' then Some (- off, drop 6 s)
                         else None)
            | _ \<Rightarrow> None))"

definition get_date :: "(int \<times> int \<times> int) parser" where
  "get_date =
     p_bind get_year (\<lambda>y. p_bind (skip (CHR ''-'')) (\<lambda>_.
     p_bind (getnum True) (\<lambda>m. p_when (1 \<le> m \<and> m \<le> 12) (p_bind (skip (CHR ''-'')) (\<lambda>_.
     p_bind (getnum True) (\<lambda>d. p_ret (y, m, d)))))))"

definition get_clock :: "int parser" where
  "get_clock =
     p_bind (getnum False) (\<lambda>h. p_when (h < 24) (p_bind (skip (CHR '':'')) (\<lambda>_.
     p_bind (getnum True) (\<lambda>m. p_when (m < 60) (p_bind (skip (CHR '':'')) (\<lambda>_.
     p_bind (getnum True) (\<lambda>s. p_when (s < 60) (p_bind get_fraction (\<lambda>f.
       p_ret ((h * 3600 + m * 60 + s) * 10 ^ 9 + f))))))))))"

definition parse_time :: "string \<Rightarrow> time option" where
  "parse_time s =
     (case p_bind get_date (\<lambda>ymd. p_bind (skip (CHR ''T'')) (\<lambda>_. p_bind get_clock (\<lambda>ns.
        p_bind get_zone (\<lambda>off. p_ret (ymd, ns, off))))) s of
        Some ((ymd, ns, off), []) \<Rightarrow>
          if date_ok ymd then Some (days_of ymd * day_ns + ns - off * 10 ^ 9) else None
      | _ \<Rightarrow> None)"

definition parse_date :: "string \<Rightarrow> time option" where
  "parse_date s =
     (case get_date s of
        Some (ymd, []) \<Rightarrow> if date_ok ymd then Some (days_of ymd * day_ns) else None
      | _ \<Rightarrow> None)"

subsection \<open>Round trip\<close>

lemma append_int_2:
  assumes "0 \<le> x" "x < 100"
  shows "append_int 2 x = [digit_char (nat x div 10), digit_char (nat x mod 10)]"
proof -
  have "nat x < 100" using assms by auto
  show ?thesis
  proof (cases "nat x < 10")
    case True
    then have "show_nat (nat x) = [digit_char (nat x)]" by (subst show_nat.simps) simp
    with True assms digit_char_0 show ?thesis by (simp add: append_int_def Let_def)
  next
    case False
    have "show_nat (nat x div 10) = [digit_char (nat x div 10)]"
      using \<open>nat x < 100\<close> by (subst show_nat.simps) simp
    then have "show_nat (nat x) = [digit_char (nat x div 10), digit_char (nat x mod 10)]"
      using False by (subst show_nat.simps) simp
    with False assms show ?thesis by (simp add: append_int_def Let_def)
  qed
qed

lemma getnum_append [simp]:
  "0 \<le> x \<Longrightarrow> x < 100 \<Longrightarrow> getnum fixed (append_int 2 x @ s) = Some (x, s)"
proof -
  assume x: "0 \<le> x" "x < 100"
  then have "nat x div 10 < 10" by (auto simp: nat_less_iff)
  moreover have "int (10 * (nat x div 10) + nat x mod 10) = x" using x by (simp del: of_nat_add)
  ultimately show ?thesis using x by (simp add: append_int_2)
qed

lemma digits_val_zeros: "digits_val 0 (replicate k (CHR ''0'') @ s) = digits_val 0 s"
  by (induction k) (simp_all add: digit_val_def)

lemma parse_append_int: "0 \<le> x \<Longrightarrow> 0 < w \<Longrightarrow> parse_nat (append_int w x) = Some (nat x)"
  by (simp add: parse_nat_def append_int_def Let_def digits_val_zeros)

lemma length_show_nat: "n < 10 ^ k \<Longrightarrow> 0 < k \<Longrightarrow> length (show_nat n) \<le> k"
proof (induction k arbitrary: n)
  case (Suc k)
  show ?case
  proof (cases "n < 10")
    case False
    with Suc.prems have "n div 10 < 10 ^ k" "0 < k" by (auto intro: gr0I)
    from Suc.IH [OF this] False show ?thesis by (subst show_nat.simps) simp
  qed (subst show_nat.simps, simp)
qed simp

lemma length_append_int: "0 \<le> x \<Longrightarrow> x < 10 ^ w \<Longrightarrow> 0 < w \<Longrightarrow> length (append_int w x) = w"
  using length_show_nat [of "nat x" w] by (simp add: append_int_def Let_def nat_less_iff)

lemma append_int_digits: "0 \<le> x \<Longrightarrow> c \<in> set (append_int w x) \<Longrightarrow> digit_val c \<noteq> None"
proof -
  assume "0 \<le> x" "c \<in> set (append_int w x)"
  then have "c = CHR ''0'' \<or> c \<in> set (show_nat (nat x))"
    by (auto simp: append_int_def Let_def split: if_splits)
  moreover have "digit_val (CHR ''0'') \<noteq> None" by (simp add: digit_val_def)
  ultimately show ?thesis using show_nat_digits by blast
qed

lemma get_year_append [simp]:
  assumes "0 \<le> y" "y < 10000" shows "get_year (append_int 4 y @ s) = Some (y, s)"
proof -
  have len: "length (append_int 4 y) = 4" using assms by (intro length_append_int) auto
  then have "hd (append_int 4 y @ s) \<in> set (append_int 4 y)" by (cases "append_int 4 y") auto
  with len assms append_int_digits show ?thesis
    by (auto simp: get_year_def parse_append_int)
qed

lemma get_fraction_append [simp]:
  assumes "0 \<le> x" "x < 1000" and "s = [] \<or> digit_val (hd s) = None"
  shows "get_fraction (CHR ''.'' # append_int 3 x @ s) = Some (x * 10 ^ 6, s)"
proof -
  have len: "length (append_int 3 x) = 3" using assms by (intro length_append_int) auto
  then obtain a b c where abc: "append_int 3 x = [a, b, c]"
    by (auto simp: length_Suc_conv numeral_3_eq_3)
  have d: "digit_val a \<noteq> None" "digit_val b \<noteq> None" "digit_val c \<noteq> None"
    using append_int_digits [OF assms(1), of _ 3] by (simp_all add: abc)
  have tw: "takeWhile (\<lambda>x. digit_val x \<noteq> None) s = []" using assms(3) by (cases s) auto
  have "parse_nat [a, b, c] = Some (nat x)" using parse_append_int [of x 3] assms by (simp add: abc)
  with d tw assms(1) show ?thesis by (simp add: get_fraction_def abc Let_def)
qed

lemma get_date_append [simp]:
  assumes "date_ok (y, m, d)" "0 \<le> y" "y < 10000"
  shows "get_date (append_int 4 y @ CHR ''-'' # append_int 2 m @ CHR ''-'' # append_int 2 d @ s) =
    Some ((y, m, d), s)"
proof -
  from assms(1) have m: "1 \<le> m" "m \<le> 12" "1 \<le> d" "d \<le> month_lens y ! nat (m - 1)"
    by (simp_all add: date_ok_def)
  have "month_lens y ! nat (m - 1) \<in> set (month_lens y)" using m by (intro nth_mem) simp
  then have "d < 100" using m by (auto simp: month_lens_def split: if_splits)
  with m assms show ?thesis by (simp add: get_date_def p_bind_def p_when_def p_ret_def)
qed

definition in_years :: "time \<Rightarrow> bool" where
  "in_years t \<longleftrightarrow> (case civil_of (t div day_ns) of (y, _) \<Rightarrow> 0 \<le> y \<and> y < 10000)"

lemma format_date_get:
  assumes "in_years t"
  shows "get_date (format_date t @ s) = Some (civil_of (t div day_ns), s)"
proof -
  obtain y m d where c: "civil_of (t div day_ns) = (y, m, d)" by (metis prod_cases3)
  have "date_ok (y, m, d)" using days_of_civil_of [of "t div day_ns"] by (simp add: c)
  with assms show ?thesis by (simp add: format_date_def c in_years_def)
qed

lemma parse_format_date: "in_years t \<Longrightarrow> parse_date (format_date t) = Some (t - t mod day_ns)"
  using format_date_get [of t "[]"] days_of_civil_of [of "t div day_ns"]
  by (simp add: parse_date_def minus_mod_eq_div_mult split: prod.splits)

lemma get_clock_parts:
  assumes "0 \<le> h" "h < 24" "0 \<le> m" "m < 60" "0 \<le> s" "s < 60" "0 \<le> ms" "ms < 1000"
    "r = [] \<or> digit_val (hd r) = None"
  shows "get_clock (append_int 2 h @ CHR '':'' # append_int 2 m @ CHR '':'' # append_int 2 s @
    CHR ''.'' # append_int 3 ms @ r) = Some ((h * 3600 + m * 60 + s) * 10 ^ 9 + ms * 10 ^ 6, r)"
  using assms by (simp add: get_clock_def p_bind_def p_when_def p_ret_def)

lemma get_clock_append:
  assumes "0 \<le> ns" "ns < day_ns" "s = [] \<or> digit_val (hd s) = None"
  shows "get_clock (append_int 2 (ns div 10 ^ 9 div 3600) @ CHR '':'' # append_int 2 (ns div 10 ^ 9 div 60 mod 60)
    @ CHR '':'' # append_int 2 (ns div 10 ^ 9 mod 60) @ CHR ''.'' # append_int 3 (ns mod 10 ^ 9 div 10 ^ 6) @ s) =
    Some (ns - ns mod 10 ^ 6, s)"
proof -
  define sec where "sec = ns div 10 ^ 9"
  define f where "f = ns mod 10 ^ 9"
  have sec: "0 \<le> sec" "sec < 86400" using assms by (simp_all add: sec_def day_ns_def)
  have f: "0 \<le> f" "f < 10 ^ 9" by (simp_all add: f_def)
  have ranges: "0 \<le> sec div 3600" "sec div 3600 < 24" "0 \<le> f div 10 ^ 6" "f div 10 ^ 6 < 1000"
    using sec f by simp_all
  have "sec div 60 div 60 = sec div 3600" by (simp add: zdiv_zmult2_eq [symmetric])
  then have hms: "sec div 3600 * 3600 + sec div 60 mod 60 * 60 + sec mod 60 = sec"
    using div_mult_mod_eq [of "sec div 60" 60] div_mult_mod_eq [of sec 60] by linarith
  have "f div 10 ^ 6 * 10 ^ 6 = f - ns mod 10 ^ 6"
    using mod_mod_cancel [of "10 ^ 6" "10 ^ 9" ns] by (simp add: f_def minus_mod_eq_div_mult [symmetric])
  moreover have "sec * 10 ^ 9 + f = ns" by (simp add: sec_def f_def)
  ultimately have sum: "sec * 10 ^ 9 + f div 10 ^ 6 * 10 ^ 6 = ns - ns mod 10 ^ 6" by simp
  show ?thesis
    unfolding sec_def [symmetric] f_def [symmetric] using ranges assms(3)
    by (subst get_clock_parts) (unfold hms sum, simp_all del: power_numeral)
qed

lemma parse_format_time_lemma:
  assumes "in_years t" shows "parse_time (format_time t) = Some (t - t mod 10 ^ 6)"
proof -
  let ?ns = "t mod day_ns"
  have "digit_val (CHR ''Z'') = None" by (simp add: digit_val_def)
  then have clock: "get_clock (append_int 2 (?ns div 10 ^ 9 div 3600) @ CHR '':'' #
      append_int 2 (?ns div 10 ^ 9 div 60 mod 60) @ CHR '':'' # append_int 2 (?ns div 10 ^ 9 mod 60) @
      CHR ''.'' # append_int 3 (?ns mod 10 ^ 9 div 10 ^ 6) @ ''Z'') = Some (?ns - ?ns mod 10 ^ 6, ''Z'')"
    by (intro get_clock_append) (simp_all add: day_ns_def)
  have "?ns mod 10 ^ 6 = t mod 10 ^ 6" by (rule mod_mod_cancel) (simp add: day_ns_def)
  moreover have "t div day_ns * day_ns + ?ns = t" by simp
  ultimately show ?thesis
    using clock days_of_civil_of [of "t div day_ns"]
    by (simp add: parse_time_def format_time_def Let_def format_date_get [OF assms] p_bind_def p_ret_def
        get_zone_def algebra_simps split: prod.splits)
qed

subsection \<open>JSON and display\<close>

definition json_quote :: char where "json_quote = CHR 0x22"

definition marshal_json :: "time \<Rightarrow> string" where
  "marshal_json t = [json_quote] @ format_time t @ [json_quote]"

text \<open>\<open>strings.Trim\<close> with a cutset of one character.\<close>

definition trim_char :: "char \<Rightarrow> string \<Rightarrow> string" where
  "trim_char c s = rev (dropWhile (\<lambda>x. x = c) (rev (dropWhile (\<lambda>x. x = c) s)))"

definition unmarshal_json :: "string \<Rightarrow> time option" where
  "unmarshal_json raw = parse_time (trim_char json_quote raw)"

text \<open>\<open>Z07:00\<close> of the layout for an offset in seconds: \<open>Z\<close> for zero, else whole minutes.\<close>

definition format_zone :: "int \<Rightarrow> string" where
  "format_zone off =
     (if off = 0 then ''Z''
      else let zone = (if off < 0 then - (- off div 60) else off div 60); m = \<bar>zone\<bar>
        in (if zone < 0 then ''-'' else ''+'') @ append_int 2 (m div 60) @ '':'' @ append_int 2 (m mod 60))"

text \<open>\<open>load\<close> is the zone database: the offset of a zone at an instant.\<close>

definition in_zone :: "(string \<Rightarrow> (time \<Rightarrow> int) option) \<Rightarrow> time \<Rightarrow> string \<Rightarrow> string option" where
  "in_zone load t zone =
     (case load zone of
        None \<Rightarrow> None
      | Some offset \<Rightarrow> Some (butlast (format_time (t + offset t * 10 ^ 9)) @ format_zone (offset t)))"

lemma parse_time_head:
  assumes "parse_time s = Some t" shows "s \<noteq> [] \<and> digit_val (hd s) \<noteq> None"
proof -
  have "get_year s \<noteq> None" using assms by (auto simp: parse_time_def p_bind_def get_date_def split: option.splits)
  then show ?thesis by (cases s) (auto simp: get_year_def split: if_splits)
qed

lemma last_format_time: "format_time t \<noteq> [] \<and> last (format_time t) = CHR ''Z''"
  by (simp add: format_time_def Let_def)

lemma json_round_trip:
  assumes "in_years t" shows "unmarshal_json (marshal_json t) = Some (t - t mod 10 ^ 6)"
proof -
  let ?s = "format_time t"
  have parse: "parse_time ?s = Some (t - t mod 10 ^ 6)" by (rule parse_format_time_lemma [OF assms])
  have "digit_val json_quote = None" by (simp add: json_quote_def digit_val_def)
  with parse_time_head [OF parse] have hd: "?s \<noteq> []" "hd ?s \<noteq> json_quote" by auto
  have la: "last ?s \<noteq> json_quote" using last_format_time [of t] by (simp add: json_quote_def)
  have "dropWhile (\<lambda>x. x = json_quote) ([json_quote] @ ?s @ [json_quote]) = ?s @ [json_quote]"
    using hd by (cases ?s) auto
  moreover have "dropWhile (\<lambda>x. x = json_quote) (rev (?s @ [json_quote])) = rev ?s"
    using hd(1) la by (cases ?s rule: rev_cases) auto
  ultimately show ?thesis using parse by (simp add: unmarshal_json_def marshal_json_def trim_char_def)
qed

end
