(* ===== verification/Redis.thy ===== *)
theory Redis
  imports Float64 "HOL-Library.AList"
begin

section \<open>The Redis service and the client's calls to it\<close>

text \<open>
  Redis is not part of the repository: it is the parameter \<open>R\<close> of every definition that talks to
  it, a record with one field per command the Go code and the Lua scripts issue. What they rely on
  is the documented effect of those commands on the documented data types, stated over an
  observation \<open>view\<close> of the server's state; the locale \<open>redis_server\<close> collects it, and
  \<open>RedisMem\<close> holds an in-memory server that satisfies it.

  A command either replies with an error of the server (\<open>Inl\<close>) or with a value.
\<close>

subsection \<open>The documented data types\<close>

type_synonym sid = "nat \<times> nat"
type_synonym fields = "(string \<times> string) list"

datatype rval =
    Str string
  | Hash fields
  | ZSet "(f64 \<times> string) list"
  | Stream "(sid \<times> fields) list"

type_synonym keyspace = "string \<rightharpoonup> rval"

datatype rerr = WrongType | BadStreamId | NotANumber | ScriptError | ServerError

text \<open>A stream entry as go-redis returns it (\<open>redis.XMessage\<close>).\<close>

record xmsg =
  msg_id :: string
  msg_values :: fields

type_synonym ('s, 'a) cmd = "('s, rerr, 'a) io"

record 's redis =
  exists_c :: "string \<Rightarrow> ('s, int) cmd"
  del_c :: "string \<Rightarrow> ('s, int) cmd"
  get_c :: "string \<Rightarrow> ('s, string option) cmd"
  set_c :: "string \<Rightarrow> string \<Rightarrow> ('s, unit) cmd"
  hget_c :: "string \<Rightarrow> string \<Rightarrow> ('s, string option) cmd"
  hset_c :: "string \<Rightarrow> fields \<Rightarrow> ('s, unit) cmd"
  hgetall_c :: "string \<Rightarrow> ('s, fields) cmd"
  hexpire_c :: "string \<Rightarrow> int \<Rightarrow> string \<Rightarrow> ('s, unit) cmd"
  expire_c :: "string \<Rightarrow> int \<Rightarrow> ('s, unit) cmd"
  zadd_c :: "string \<Rightarrow> f64 \<Rightarrow> string \<Rightarrow> ('s, unit) cmd"
  zincrby_c :: "string \<Rightarrow> f64 \<Rightarrow> string \<Rightarrow> ('s, f64) cmd"
  zscore_c :: "string \<Rightarrow> string \<Rightarrow> ('s, f64 option) cmd"
  zcard_c :: "string \<Rightarrow> ('s, int) cmd"
  zrevrank_c :: "string \<Rightarrow> string \<Rightarrow> ('s, (int \<times> f64) option) cmd"
  zrange_c :: "string \<Rightarrow> int \<Rightarrow> int \<Rightarrow> bool \<Rightarrow> ('s, (f64 \<times> string) list) cmd"
  xadd_c :: "string \<Rightarrow> fields \<Rightarrow> ('s, string) cmd"
  xrange_c :: "string \<Rightarrow> string \<Rightarrow> string \<Rightarrow> int option \<Rightarrow> ('s, xmsg list) cmd"
  xread_c :: "string \<Rightarrow> string \<Rightarrow> int \<Rightarrow> ('s, xmsg list option) cmd"

text \<open>A key that does not exist reads as the empty value of the type the command works on.\<close>

fun as_hash :: "rval option \<Rightarrow> fields option" where
  "as_hash None = Some []"
| "as_hash (Some (Hash h)) = Some h"
| "as_hash _ = None"

fun as_zset :: "rval option \<Rightarrow> (f64 \<times> string) list option" where
  "as_zset None = Some []"
| "as_zset (Some (ZSet z)) = Some z"
| "as_zset _ = None"

fun as_stream :: "rval option \<Rightarrow> (sid \<times> fields) list option" where
  "as_stream None = Some []"
| "as_stream (Some (Stream es)) = Some es"
| "as_stream _ = None"

subsection \<open>Sorted sets\<close>

text \<open>Entries ascend by score, then by member; a member occurs once.\<close>

definition z_ok :: "(f64 \<times> string) list \<Rightarrow> bool" where
  "z_ok z \<longleftrightarrow> sorted z \<and> distinct (map snd z)"

definition z_add :: "f64 \<Rightarrow> string \<Rightarrow> (f64 \<times> string) list \<Rightarrow> (f64 \<times> string) list" where
  "z_add d m z = insort (d, m) (filter (\<lambda>e. snd e \<noteq> m) z)"

definition z_map :: "(f64 \<times> string) list \<Rightarrow> string \<rightharpoonup> f64" where
  "z_map z = map_of (map prod.swap z)"

fun z_rank :: "string \<Rightarrow> (f64 \<times> string) list \<Rightarrow> nat option" where
  "z_rank m [] = None"
| "z_rank m (e # z) = (if snd e = m then Some 0 else map_option Suc (z_rank m z))"

text \<open>ZRANGE's index rules: negative indices count from the end, both ends are inclusive.\<close>

definition z_slice :: "int \<Rightarrow> int \<Rightarrow> 'a list \<Rightarrow> 'a list" where
  "z_slice start stop xs =
     (let n = int (length xs);
          a = max 0 (if start < 0 then start + n else start);
          b = min (n - 1) (if stop < 0 then stop + n else stop)
      in if b < a then [] else slice (nat a) (nat b + 1) xs)"

lemma z_map_Nil [simp]: "z_map [] = Map.empty"
  by (simp add: z_map_def)

lemma dom_z_map: "dom (z_map z) = snd ` set z"
  by (force simp: z_map_def dom_map_of_conv_image_fst)

lemma z_map_in: "z_map z m = Some d \<Longrightarrow> (d, m) \<in> set z"
  unfolding z_map_def by (drule map_of_SomeD) auto

lemma z_map_mem: "distinct (map snd z) \<Longrightarrow> (d, m) \<in> set z \<Longrightarrow> z_map z m = Some d"
  by (simp add: z_map_def map_of_eq_Some_iff comp_def)

lemma distinct_insort_snd:
  "distinct (map snd z) \<Longrightarrow> snd x \<notin> snd ` set z \<Longrightarrow> distinct (map snd (insort x z))"
  by (induction z) (auto simp: set_insort_key)

lemma z_add_ok [intro]: assumes "z_ok z" shows "z_ok (z_add d m z)"
proof -
  have "distinct (map snd (filter (\<lambda>e. snd e \<noteq> m) z))"
    using assms by (simp add: z_ok_def distinct_map_filter)
  then show ?thesis
    using assms by (auto simp: z_ok_def z_add_def sorted_insort sorted_wrt_filter intro!: distinct_insort_snd)
qed

lemma set_z_add: "set (z_add d m z) = insert (d, m) {e \<in> set z. snd e \<noteq> m}"
  by (simp add: z_add_def set_insort_key)

lemma z_map_add [simp]: assumes "z_ok z" shows "z_map (z_add d m z) = (z_map z)(m \<mapsto> d)"
proof
  fix x
  from z_add_ok [OF assms] have dist: "distinct (map snd (z_add d m z))" by (simp add: z_ok_def)
  show "z_map (z_add d m z) x = ((z_map z)(m \<mapsto> d)) x"
  proof (cases "x = m")
    case True
    with z_map_mem [OF dist, of d m] show ?thesis by (simp add: set_z_add)
  next
    case False
    show ?thesis
    proof (cases "z_map z x")
      case None
      then have "x \<notin> snd ` set z" using dom_z_map [of z] by blast
      then have "x \<notin> dom (z_map (z_add d m z))"
        using False by (auto simp: dom_z_map set_z_add)
      with None False show ?thesis by (auto simp: domIff)
    next
      case (Some c)
      then have "(c, x) \<in> set (z_add d m z)" using False z_map_in by (fastforce simp: set_z_add)
      with z_map_mem [OF dist] Some False show ?thesis by auto
    qed
  qed
qed

text \<open>A sorted set is determined by its scores.\<close>

lemma z_map_inject:
  assumes "z_ok y" "z_ok z" "z_map y = z_map z" shows "y = z"
proof -
  have sub: "set y' \<subseteq> set z'" if ok: "z_ok y'" "z_map y' = z_map z'" for y' z'
  proof
    fix e assume "e \<in> set y'"
    then have "z_map y' (snd e) = Some (fst e)"
      using ok by (intro z_map_mem) (auto simp: z_ok_def)
    with ok z_map_in [of z' "snd e" "fst e"] show "e \<in> set z'" by simp
  qed
  have "set y = set z" using sub [of y z] sub [of z y] assms by auto
  moreover have "distinct y" "distinct z" using assms by (auto simp: z_ok_def distinct_map)
  ultimately show ?thesis using assms sorted_distinct_set_eq by (auto simp: z_ok_def)
qed

subsection \<open>Streams\<close>

definition sid_max :: sid where
  "sid_max = (2 ^ 64 - 1, 2 ^ 64 - 1)"

definition sid_ok :: "sid \<Rightarrow> bool" where
  "sid_ok i \<longleftrightarrow> fst i < 2 ^ 64 \<and> snd i < 2 ^ 64"

definition show_sid :: "sid \<Rightarrow> string" where
  "show_sid i = show_nat (fst i) @ CHR ''-'' # show_nat (snd i)"

definition parse_sid :: "string \<Rightarrow> sid option" where
  "parse_sid s =
     (case cut_at (CHR ''-'') s of
        None \<Rightarrow> None
      | Some (a, b) \<Rightarrow> (case (parse_uint64 a, parse_uint64 b) of
                          (Some m, Some n) \<Rightarrow> Some (m, n) | _ \<Rightarrow> None))"

definition last_sid :: "(sid \<times> fields) list \<Rightarrow> sid" where
  "last_sid es = (if es = [] then (0, 0) else fst (last es))"

definition stream_ok :: "(sid \<times> fields) list \<Rightarrow> bool" where
  "stream_ok es \<longleftrightarrow> sorted_wrt (<) (map fst es) \<and> (\<forall>e \<in> set es. sid_ok (fst e) \<and> (0, 0) < fst e)"

definition to_msg :: "sid \<times> fields \<Rightarrow> xmsg" where
  "to_msg e = \<lparr>msg_id = show_sid (fst e), msg_values = snd e\<rparr>"

text \<open>
  An interval end of XRANGE: the least or greatest id, or an id, exclusive after \<open>(\<close>. A bound
  whose millisecond part is not a 64-bit unsigned number is not an id, and the server also refuses an
  exclusive end with no id on its inner side.
\<close>

definition xbound :: "string \<Rightarrow> (bool \<times> sid) option" where
  "xbound s =
     (if s = ''-'' then Some (False, (0, 0))
      else if s = ''+'' then Some (False, sid_max)
      else if s \<noteq> [] \<and> hd s = CHR ''('' then map_option (Pair True) (parse_sid (tl s))
      else map_option (Pair False) (parse_sid s))"

definition bad_bound :: "string \<Rightarrow> bool" where
  "bad_bound s \<longleftrightarrow>
     (let b = (if s \<noteq> [] \<and> hd s = CHR ''('' then tl s else s)
      in b \<noteq> ''-'' \<and> b \<noteq> ''+'' \<and> parse_uint64 (takeWhile (\<lambda>c. c \<noteq> CHR ''-'') b) = None)"

definition above :: "bool \<times> sid \<Rightarrow> sid \<Rightarrow> bool" where
  "above lo i \<longleftrightarrow> (if fst lo then snd lo < i else snd lo \<le> i)"

definition below :: "bool \<times> sid \<Rightarrow> sid \<Rightarrow> bool" where
  "below hi i \<longleftrightarrow> (if fst hi then i < snd hi else i \<le> snd hi)"

definition limit_count :: "int option \<Rightarrow> 'a list \<Rightarrow> 'a list" where
  "limit_count c xs = (case c of None \<Rightarrow> xs | Some n \<Rightarrow> take (nat n) xs)"

definition in_interval :: "bool \<times> sid \<Rightarrow> bool \<times> sid \<Rightarrow> (sid \<times> fields) list \<Rightarrow> (sid \<times> fields) list" where
  "in_interval lo hi es = filter (\<lambda>e. above lo (fst e) \<and> below hi (fst e)) es"

lemma parse_show_sid [simp]: "sid_ok i \<Longrightarrow> parse_sid (show_sid i) = Some i"
  by (simp add: parse_sid_def show_sid_def sid_ok_def)

lemma show_sid_inject [simp]: "show_sid i = show_sid j \<longleftrightarrow> i = j"
  using sep_inject [of "show_nat (fst i)" "CHR ''-''" "show_nat (snd i)" "show_nat (fst j)" "show_nat (snd j)"]
  by (auto simp: show_sid_def prod_eq_iff)

lemma show_sid_nonempty [simp]: "show_sid i \<noteq> []"
  by (simp add: show_sid_def)

lemma show_sid_no_bar [simp]: "CHR ''|'' \<notin> set (show_sid i)"
  by (simp add: show_sid_def)

lemma hd_show_sid: "hd (show_sid i) \<noteq> CHR ''('' \<and> hd (show_sid i) \<noteq> CHR ''-'' \<and> hd (show_sid i) \<noteq> CHR ''+''"
proof -
  obtain c cs where s: "show_nat (fst i) = c # cs" by (metis neq_Nil_conv show_nat_nonempty)
  with hd_show_nat [OF s] show ?thesis by (simp add: show_sid_def)
qed

lemma xbound_sid [simp]: assumes "sid_ok i" shows "xbound (show_sid i) = Some (False, i)"
proof -
  have "show_sid i \<noteq> ''-''" "show_sid i \<noteq> ''+''" using hd_show_sid [of i] by auto
  then show ?thesis using hd_show_sid [of i] assms by (simp add: xbound_def)
qed

lemma xbound_excl [simp]: "xbound (CHR ''('' # s) = map_option (Pair True) (parse_sid s)"
  by (simp add: xbound_def)

lemma xbound_ends [simp]: "xbound ''-'' = Some (False, (0, 0))" "xbound ''+'' = Some (False, sid_max)"
  by (simp_all add: xbound_def)

lemma sid_le_max: "sid_ok i \<Longrightarrow> i \<le> sid_max"
  by (cases i) (auto simp: sid_ok_def sid_max_def)

lemma in_interval_all [simp]: "stream_ok es \<Longrightarrow> in_interval (False, (0, 0)) (False, sid_max) es = es"
  unfolding in_interval_def
  by (rule filter_eq_self) (auto simp: stream_ok_def above_def below_def intro: sid_le_max)

lemma stream_ok_append:
  assumes "stream_ok es" "last_sid es < i" "sid_ok i" shows "stream_ok (es @ [(i, fs)])"
proof -
  have "fst e < i" if e: "e \<in> set es" for e
  proof -
    have "fst e \<le> last_sid es"
      using assms(1) e by (induction es) (auto simp: stream_ok_def last_sid_def less_imp_le)
    with assms(2) show ?thesis by simp
  qed
  moreover have "(0, 0) < i"
  proof (cases "es = []")
    case True with assms(2) show ?thesis by (simp add: last_sid_def)
  next
    case False
    then have "last es \<in> set es" by simp
    with assms False show ?thesis
      by (auto simp: stream_ok_def last_sid_def simp del: less_prod_simp intro: less_trans)
  qed
  ultimately show ?thesis using assms by (auto simp: stream_ok_def sorted_wrt_append)
qed

lemma stream_ok_distinct: "stream_ok es \<Longrightarrow> distinct (map fst es)"
  by (simp add: stream_ok_def strict_sorted_iff)

subsection \<open>The documented commands\<close>

text \<open>
  \<open>doc_redis i\<close> is the server over the data types themselves, a reference for the commands'
  effects; \<open>i\<close> is the id its next XADD assigns, which no client can predict.
\<close>

definition on_hash :: "string \<Rightarrow> (fields \<Rightarrow> 'a) \<Rightarrow> (keyspace, 'a) cmd" where
  "on_hash k f ks = (case as_hash (ks k) of None \<Rightarrow> (Inl WrongType, ks) | Some h \<Rightarrow> (Inr (f h), ks))"

definition on_zset :: "string \<Rightarrow> ((f64 \<times> string) list \<Rightarrow> 'a) \<Rightarrow> (keyspace, 'a) cmd" where
  "on_zset k f ks = (case as_zset (ks k) of None \<Rightarrow> (Inl WrongType, ks) | Some z \<Rightarrow> (Inr (f z), ks))"

definition on_stream :: "string \<Rightarrow> ((sid \<times> fields) list \<Rightarrow> 'a) \<Rightarrow> (keyspace, 'a) cmd" where
  "on_stream k f ks =
     (case as_stream (ks k) of None \<Rightarrow> (Inl WrongType, ks) | Some es \<Rightarrow> (Inr (f es), ks))"

definition doc_get :: "string \<Rightarrow> (keyspace, string option) cmd" where
  "doc_get k ks =
     (case ks k of None \<Rightarrow> (Inr None, ks) | Some (Str v) \<Rightarrow> (Inr (Some v), ks) | _ \<Rightarrow> (Inl WrongType, ks))"

definition doc_hset :: "string \<Rightarrow> fields \<Rightarrow> (keyspace, unit) cmd" where
  "doc_hset k fs ks =
     (case as_hash (ks k) of
        None \<Rightarrow> (Inl WrongType, ks)
      | Some h \<Rightarrow> (Inr (), ks(k \<mapsto> Hash (fold (\<lambda>(f, v). AList.update f v) fs h))))"

definition doc_zadd :: "string \<Rightarrow> f64 \<Rightarrow> string \<Rightarrow> (keyspace, unit) cmd" where
  "doc_zadd k d m ks =
     (case as_zset (ks k) of
        None \<Rightarrow> (Inl WrongType, ks)
      | Some z \<Rightarrow> if d = NaN then (Inl NotANumber, ks) else (Inr (), ks(k \<mapsto> ZSet (z_add d m z))))"

definition doc_zincrby :: "string \<Rightarrow> f64 \<Rightarrow> string \<Rightarrow> (keyspace, f64) cmd" where
  "doc_zincrby k d m ks =
     (case as_zset (ks k) of
        None \<Rightarrow> (Inl WrongType, ks)
      | Some z \<Rightarrow>
          let d' = (case z_map z m of None \<Rightarrow> d | Some c \<Rightarrow> f64_add c d)
          in if d' = NaN then (Inl NotANumber, ks) else (Inr d', ks(k \<mapsto> ZSet (z_add d' m z))))"

definition doc_zrevrank :: "string \<Rightarrow> (f64 \<times> string) list \<Rightarrow> (int \<times> f64) option" where
  "doc_zrevrank m z =
     (case (z_rank m (rev z), z_map z m) of (Some r, Some d) \<Rightarrow> Some (int r, d) | _ \<Rightarrow> None)"

definition doc_xadd :: "sid \<Rightarrow> string \<Rightarrow> fields \<Rightarrow> (keyspace, string) cmd" where
  "doc_xadd i k fs ks =
     (case as_stream (ks k) of
        None \<Rightarrow> (Inl WrongType, ks)
      | Some es \<Rightarrow> (Inr (show_sid i), ks(k \<mapsto> Stream (es @ [(i, fs)]))))"

definition doc_xrange :: "string \<Rightarrow> string \<Rightarrow> string \<Rightarrow> int option \<Rightarrow> (keyspace, xmsg list) cmd" where
  "doc_xrange k a b c ks =
     (case (xbound a, xbound b) of
        (Some lo, Some hi) \<Rightarrow>
          if lo = (True, sid_max) \<or> hi = (True, (0, 0)) then (Inl BadStreamId, ks)
          else on_stream k (\<lambda>es. map to_msg (limit_count c (in_interval lo hi es))) ks
      | _ \<Rightarrow> (Inl BadStreamId, ks))"

definition doc_xread :: "string \<Rightarrow> string \<Rightarrow> int \<Rightarrow> (keyspace, xmsg list option) cmd" where
  "doc_xread k a n ks =
     (case parse_sid a of
        None \<Rightarrow> (Inl BadStreamId, ks)
      | Some i \<Rightarrow> on_stream k (\<lambda>es. let ms = take (nat n) (filter (\<lambda>e. i < fst e) es)
                                   in if ms = [] then None else Some (map to_msg ms)) ks)"

definition doc_redis :: "sid \<Rightarrow> keyspace redis" where
  "doc_redis i = \<lparr>
     exists_c = (\<lambda>k ks. (Inr (if ks k = None then 0 else 1), ks)),
     del_c = (\<lambda>k ks. (Inr (if ks k = None then 0 else 1), ks(k := None))),
     get_c = doc_get,
     set_c = (\<lambda>k v ks. (Inr (), ks(k \<mapsto> Str v))),
     hget_c = (\<lambda>k f. on_hash k (\<lambda>h. map_of h f)),
     hset_c = doc_hset,
     hgetall_c = (\<lambda>k. on_hash k id),
     hexpire_c = (\<lambda>k t f. on_hash k (\<lambda>_. ())),
     expire_c = (\<lambda>k t ks. (Inr (), ks)),
     zadd_c = doc_zadd,
     zincrby_c = doc_zincrby,
     zscore_c = (\<lambda>k m. on_zset k (\<lambda>z. z_map z m)),
     zcard_c = (\<lambda>k. on_zset k (\<lambda>z. int (length z))),
     zrevrank_c = (\<lambda>k m. on_zset k (doc_zrevrank m)),
     zrange_c = (\<lambda>k a b r. on_zset k (\<lambda>z. z_slice a b (if r then rev z else z))),
     xadd_c = doc_xadd i,
     xrange_c = doc_xrange,
     xread_c = doc_xread\<rparr>"

lemmas doc_cmds = doc_redis_def doc_get_def doc_hset_def doc_zadd_def doc_zincrby_def doc_xadd_def
  doc_xrange_def doc_xread_def on_hash_def on_zset_def on_stream_def

end
