(* ===== verification/RedisServer.thy ===== *)
theory RedisServer
  imports Redis
begin

section \<open>What the code relies on: the contract of a Redis server\<close>

text \<open>
  A server is a record of commands \<open>R\<close> with an observation \<open>view\<close> of its state as a keyspace.
  Each law says that a command replies and changes the keyspace as documented, that is, as
  \<open>doc_redis\<close> does. XADD with \<open>*\<close> is the one command whose reply the keyspace does not
  determine: it assigns some id greater than the stream's last one. XRANGE replies an error to a
  bound that is not an id; the two exclusive bounds beyond which no id exists are left open.
\<close>

definition obs :: "('s \<Rightarrow> 'k) \<Rightarrow> 'r \<times> 's \<Rightarrow> 'r \<times> 'k" where
  "obs v p = (fst p, v (snd p))"

lemma obs_pair [simp]: "obs v (r, s) = (r, v s)"
  by (simp add: obs_def)

lemma obs_eq_iff: "obs v p = (r, k) \<longleftrightarrow> fst p = r \<and> v (snd p) = k"
  by (cases p) (simp add: obs_def)

locale redis_server =
  fixes R :: "'s redis" and view :: "'s \<Rightarrow> keyspace"
  assumes law_exists: "obs view (exists_c R k s) = exists_c (doc_redis i) k (view s)"
    and law_del: "obs view (del_c R k s) = del_c (doc_redis i) k (view s)"
    and law_get: "obs view (get_c R k s) = get_c (doc_redis i) k (view s)"
    and law_set: "obs view (set_c R k v s) = set_c (doc_redis i) k v (view s)"
    and law_hget: "obs view (hget_c R k f s) = hget_c (doc_redis i) k f (view s)"
    and law_hset: "obs view (hset_c R k fs s) = hset_c (doc_redis i) k fs (view s)"
    and law_hgetall: "obs view (hgetall_c R k s) = hgetall_c (doc_redis i) k (view s)"
    and law_hexpire: "obs view (hexpire_c R k t f s) = hexpire_c (doc_redis i) k t f (view s)"
    and law_expire: "0 < t \<Longrightarrow> obs view (expire_c R k t s) = expire_c (doc_redis i) k t (view s)"
    and law_zadd: "obs view (zadd_c R k d m s) = zadd_c (doc_redis i) k d m (view s)"
    and law_zincrby: "obs view (zincrby_c R k d m s) = zincrby_c (doc_redis i) k d m (view s)"
    and law_zscore: "obs view (zscore_c R k m s) = zscore_c (doc_redis i) k m (view s)"
    and law_zcard: "obs view (zcard_c R k s) = zcard_c (doc_redis i) k (view s)"
    and law_zrevrank: "obs view (zrevrank_c R k m s) = zrevrank_c (doc_redis i) k m (view s)"
    and law_zrange: "obs view (zrange_c R k p q r s) = zrange_c (doc_redis i) k p q r (view s)"
    and law_xadd: "as_stream (view s k) = Some es \<Longrightarrow> last_sid es < sid_max \<Longrightarrow>
      \<exists>i. sid_ok i \<and> last_sid es < i \<and> obs view (xadd_c R k fs s) = xadd_c (doc_redis i) k fs (view s)"
    and law_xadd_type: "as_stream (view s k) = None \<Longrightarrow>
      obs view (xadd_c R k fs s) = (Inl WrongType, view s)"
    and law_xrange: "xbound a = Some lo \<Longrightarrow> xbound b = Some hi \<Longrightarrow> lo \<noteq> (True, sid_max) \<Longrightarrow>
      hi \<noteq> (True, (0, 0)) \<Longrightarrow> c = None \<or> (\<exists>n. c = Some n \<and> 0 < n) \<Longrightarrow>
      obs view (xrange_c R k a b c s) = xrange_c (doc_redis i) k a b c (view s)"
    and law_xrange_bad: "bad_bound a \<or> bad_bound b \<or> xbound b = Some (True, (0, 0)) \<Longrightarrow>
      obs view (xrange_c R k a b c s) = (Inl BadStreamId, view s)"
    and law_xread: "parse_sid a = Some j \<Longrightarrow> 0 < n \<Longrightarrow>
      obs view (xread_c R k a n s) = xread_c (doc_redis i) k a n (view s)"
begin

lemmas plain_laws = law_exists law_del law_get law_set law_hget law_hset law_hgetall law_hexpire
  law_zadd law_zincrby law_zscore law_zcard law_zrevrank law_zrange

end

text \<open>Two programs that agree stage by stage agree.\<close>

lemma obs_ret [simp]: "obs v (io_ret x s) = io_ret x (v s)"
  by simp

lemma obs_fail [simp]: "obs v (io_fail e s) = io_fail e (v s)"
  by simp

lemma obs_bind:
  assumes "obs v (m s) = m' (v s)" and "\<And>x s'. obs v (f x s') = f' x (v s')"
  shows "obs v (io_bind m f s) = io_bind m' f' (v s)"
proof -
  obtain r s' where m: "m s = (r, s')" by (cases "m s")
  with assms(1) have m': "m' (v s) = (r, v s')" by (metis obs_pair)
  show ?thesis
    using assms(2) by (cases r) (simp_all add: io_bind_def m m')
qed

subsection \<open>An in-memory server\<close>

text \<open>
  The keyspace with a clock, each command as documented and XADD assigning
  \<open>(clock, 0)\<close>, or the successor of the last id when the clock has not passed it. It satisfies
  the contract, so the contract can be met; concrete runs of the model use it.
\<close>

record mem =
  m_keys :: keyspace
  m_clock :: nat

definition mem_run :: "(keyspace, 'a) cmd \<Rightarrow> (mem, 'a) cmd" where
  "mem_run c s = (case c (m_keys s) of (r, ks) \<Rightarrow> (r, s\<lparr>m_keys := ks\<rparr>))"

definition mem_next_sid :: "nat \<Rightarrow> (sid \<times> fields) list \<Rightarrow> sid" where
  "mem_next_sid t es =
     (let (ms, n) = last_sid es
      in if ms < t \<and> t < 2 ^ 64 then (t, 0) else if n + 1 < 2 ^ 64 then (ms, n + 1) else (ms + 1, 0))"

definition mem_xadd :: "string \<Rightarrow> fields \<Rightarrow> (mem, string) cmd" where
  "mem_xadd k fs s =
     (case as_stream (m_keys s k) of
        None \<Rightarrow> (Inl WrongType, s)
      | Some es \<Rightarrow> mem_run (doc_xadd (mem_next_sid (m_clock s) es) k fs) (s\<lparr>m_clock := m_clock s + 1\<rparr>))"

definition mem_redis :: "mem redis" where
  "mem_redis = (let d = doc_redis (0, 1) in \<lparr>
     exists_c = (\<lambda>k. mem_run (exists_c d k)),
     del_c = (\<lambda>k. mem_run (del_c d k)),
     get_c = (\<lambda>k. mem_run (get_c d k)),
     set_c = (\<lambda>k v. mem_run (set_c d k v)),
     hget_c = (\<lambda>k f. mem_run (hget_c d k f)),
     hset_c = (\<lambda>k fs. mem_run (hset_c d k fs)),
     hgetall_c = (\<lambda>k. mem_run (hgetall_c d k)),
     hexpire_c = (\<lambda>k t f. mem_run (hexpire_c d k t f)),
     expire_c = (\<lambda>k t. mem_run (expire_c d k t)),
     zadd_c = (\<lambda>k x m. mem_run (zadd_c d k x m)),
     zincrby_c = (\<lambda>k x m. mem_run (zincrby_c d k x m)),
     zscore_c = (\<lambda>k m. mem_run (zscore_c d k m)),
     zcard_c = (\<lambda>k. mem_run (zcard_c d k)),
     zrevrank_c = (\<lambda>k m. mem_run (zrevrank_c d k m)),
     zrange_c = (\<lambda>k a b r. mem_run (zrange_c d k a b r)),
     xadd_c = mem_xadd,
     xrange_c = (\<lambda>k a b c. mem_run (xrange_c d k a b c)),
     xread_c = (\<lambda>k a n. mem_run (xread_c d k a n))\<rparr>)"

lemma obs_mem_run [simp]: "obs m_keys (mem_run c s) = c (m_keys s)"
  by (simp add: mem_run_def split: prod.splits)

lemma mem_next_sid_ok:
  assumes "last_sid es < sid_max"
  shows "sid_ok (mem_next_sid t es) \<and> last_sid es < mem_next_sid t es"
  using assms by (cases "last_sid es") (auto simp: mem_next_sid_def sid_ok_def sid_max_def)

lemma bad_bound_xbound:
  assumes "bad_bound a" shows "xbound a = None"
proof -
  have cut: "takeWhile (\<lambda>c. c \<noteq> CHR ''-'') s = u" if "cut_at (CHR ''-'') s = Some (u, w)" for s u w
    using that by (auto simp: cut_at_Some takeWhile_append)
  have "parse_sid s = None" if "parse_uint64 (takeWhile (\<lambda>c. c \<noteq> CHR ''-'') s) = None" for s
    using that cut [of s] by (auto simp: parse_sid_def split: option.splits)
  with assms show ?thesis
    by (auto simp: bad_bound_def xbound_def Let_def split: if_splits)
qed

interpretation mem: redis_server mem_redis m_keys
proof
  fix s :: mem and k fs es
  show "\<exists>i. sid_ok i \<and> last_sid es < i \<and>
      obs m_keys (xadd_c mem_redis k fs s) = xadd_c (doc_redis i) k fs (m_keys s)"
    if "as_stream (m_keys s k) = Some es" "last_sid es < sid_max"
    using that mem_next_sid_ok [OF that(2), of "m_clock s"]
    by (intro exI [of _ "mem_next_sid (m_clock s) es"])
      (simp add: mem_redis_def Let_def mem_xadd_def doc_redis_def)
  show "obs m_keys (xadd_c mem_redis k fs s) = (Inl WrongType, m_keys s)"
    if "as_stream (m_keys s k) = None"
    using that by (simp add: mem_redis_def Let_def mem_xadd_def)
next
  fix s :: mem and a b c k
  show "obs m_keys (xrange_c mem_redis k a b c s) = (Inl BadStreamId, m_keys s)"
    if "bad_bound a \<or> bad_bound b \<or> xbound b = Some (True, (0, 0))"
    using that by (auto simp: mem_redis_def Let_def doc_redis_def doc_xrange_def bad_bound_xbound
        split: option.splits)
qed (simp_all add: mem_redis_def Let_def doc_redis_def)

lemma mem_server: "redis_server mem_redis m_keys"
  by (rule mem.redis_server_axioms)

end
