(* ===== verification/Network.thy ===== *)
theory Network
  imports RedisServer
begin

section \<open>Exchanges with the server, errors and the other clients\<close>

text \<open>
  A Go operation is a sequence of exchanges with the server: one command, one script, or one
  pipeline of commands each. Between the commands of an exchange, and between exchanges, other
  clients may change the server, and an exchange may get no reply after the server executed any
  number of its commands. A \<open>world\<close> is the server's state with the list of what happens to the
  coming exchanges (\<open>Xch\<close>: what the other clients do before each command, and, when no reply
  arrives, how many commands were executed); past the end of the list the network is quiet.
\<close>

text \<open>
  The errors of package \<open>storage\<close>, one constructor per sentinel, \<open>StorageOther\<close> for errors that
  wrap only \<open>ErrStorage\<close>, and the errors of the client: no reply, an error reply, a reply of an
  unexpected shape. \<open>Panic\<close> stands for a Go run-time panic.
\<close>

datatype serr =
    ErrNotFound | ErrInconsistent | ErrPlayerExists | ErrBoardExists | ErrBoardNotFound
  | ErrBoardClosed | ErrIdempotencyConflict | ErrScoreOutOfRange | StorageOther
  | NoReply | ServerReply rerr | BadReply | Panic

datatype 's xch = Xch (xch_others: "('s \<Rightarrow> 's) list") (xch_lost: "nat option")

record 's world =
  srv :: 's
  net :: "'s xch list"

type_synonym ('s, 'a) go = "('s world, serr, 'a) io"

fun run_cmds :: "('s \<Rightarrow> 'r \<times> 's) list \<Rightarrow> ('s \<Rightarrow> 's) list \<Rightarrow> 's \<Rightarrow> 'r list \<times> 's" where
  "run_cmds [] os s = ([], s)"
| "run_cmds (c # cs) os s =
     (let (r, s1) = c (case os of [] \<Rightarrow> s | f # _ \<Rightarrow> f s); (rs, s2) = run_cmds cs (tl os) s1
      in (r # rs, s2))"

definition exchange :: "('s \<Rightarrow> 'r \<times> 's) list \<Rightarrow> 's world \<Rightarrow> 'r list option \<times> 's world" where
  "exchange cs w =
     (case net w of
        [] \<Rightarrow> (let (rs, s) = run_cmds cs [] (srv w) in (Some rs, w\<lparr>srv := s\<rparr>))
      | x # xs \<Rightarrow>
          (case xch_lost x of
             None \<Rightarrow> (let (rs, s) = run_cmds cs (xch_others x) (srv w)
                      in (Some rs, w\<lparr>srv := s, net := xs\<rparr>))
           | Some n \<Rightarrow> (let (rs, s) = run_cmds (take n cs) (xch_others x) (srv w)
                        in (None, w\<lparr>srv := s, net := xs\<rparr>))))"

fun from_reply :: "rerr + 'a \<Rightarrow> serr + 'a" where
  "from_reply (Inl e) = Inl (ServerReply e)"
| "from_reply (Inr x) = Inr x"

text \<open>One command (or one script, which the server runs as one command).\<close>

definition call :: "('s, 'a) cmd \<Rightarrow> ('s, 'a) go" where
  "call c w =
     (case exchange [c] w of
        (Some (r # _), w') \<Rightarrow> (from_reply r, w')
      | (_, w') \<Rightarrow> (Inl NoReply, w'))"

text \<open>
  A pipeline: \<open>Exec\<close> returns the first error reply; with nothing queued it sends nothing.
\<close>

definition pipeline :: "('s, 'a) cmd list \<Rightarrow> ('s, 'a list) go" where
  "pipeline cs w =
     (if cs = [] then (Inr [], w)
      else case exchange cs w of
             (None, w') \<Rightarrow> (Inl NoReply, w')
           | (Some rs, w') \<Rightarrow> (res_map from_reply rs, w'))"

definition quiet :: "'s \<Rightarrow> 's world" where
  "quiet s = \<lparr>srv = s, net = []\<rparr>"

lemma quiet_sel [simp]: "srv (quiet s) = s" "net (quiet s) = []" "(quiet s)\<lparr>srv := t\<rparr> = quiet t"
  by (simp_all add: quiet_def)

lemma quiet_inject [simp]: "quiet s = quiet t \<longleftrightarrow> s = t"
  by (simp add: quiet_def)

lemma call_quiet: "call c (quiet s) = (from_reply (fst (c s)), quiet (snd (c s)))"
  by (simp add: call_def exchange_def split: prod.splits)

lemma call_quiet_Inr: "c s = (Inr x, s') \<Longrightarrow> call c (quiet s) = (Inr x, quiet s')"
  by (simp add: call_quiet)

lemma res_map_from_reply [simp]: "res_map from_reply (map Inr vs) = Inr vs"
  by (induction vs) simp_all

lemma pipeline_quiet:
  "run_cmds cs [] s = (map Inr vs, s') \<Longrightarrow> pipeline cs (quiet s) = (Inr vs, quiet s')"
  by (cases "cs = []") (simp_all add: pipeline_def exchange_def)

text \<open>A pipeline of reads.\<close>

lemma run_cmds_reads:
  "list_all2 (\<lambda>c v. c s = (v, s)) cs vs \<Longrightarrow> run_cmds cs [] s = (vs, s)"
  by (induction rule: list_all2_induct) simp_all

lemma pipeline_reads:
  assumes "list_all2 (\<lambda>c v. c s = (Inr v, s)) cs vs"
  shows "pipeline cs (quiet s) = (Inr vs, quiet s)"
  using assms by (intro pipeline_quiet run_cmds_reads) (simp add: list_all2_map2)

lemma length_run_cmds [simp]: "length (fst (run_cmds cs os s)) = length cs"
  by (induction cs os s rule: run_cmds.induct) (auto simp: Let_def split: prod.splits)

text \<open>
  Whatever the network does, one exchange of one command leaves the server as it was, or as the
  other clients left it, with the command executed at most once; a reply means it was executed.
\<close>

lemma call_cases:
  fixes c :: "('s, 'a) cmd"
  assumes "call c w = (r, w')"
  obtains (executed) s where "srv w' = snd (c s)" "r = from_reply (fst (c s)) \<or> r = Inl NoReply"
  | (not_executed) "srv w' = srv w" "r = Inl NoReply"
proof (cases "net w")
  case Nil
  with assms show ?thesis
    by (intro executed [of "srv w"]) (auto simp: call_def exchange_def split: prod.splits)
next
  case (Cons x xs)
  define s where "s = (case xch_others x of [] \<Rightarrow> srv w | f # _ \<Rightarrow> f (srv w))"
  show ?thesis
  proof (cases "xch_lost x")
    case None
    with assms Cons show ?thesis
      by (intro executed [of s]) (auto simp: call_def exchange_def s_def split: prod.splits)
  next
    case (Some n)
    with assms Cons show ?thesis
      using executed [of s] not_executed
      by (cases n) (auto simp: call_def exchange_def s_def split: prod.splits)
  qed
qed

subsection \<open>Quiet runs follow the documented server\<close>

text \<open>
  The observation of a quiet run: its result with the keyspace it ends in. A program over any
  server \<open>R\<close> then has the observation of the same program over \<open>doc_redis\<close>.
\<close>

definition qsim :: "('s \<Rightarrow> 'k) \<Rightarrow> ('s, 'a) go \<Rightarrow> ('k, 'a) go \<Rightarrow> bool" where
  "qsim v m m' \<longleftrightarrow> (\<forall>s. \<exists>r s'. m (quiet s) = (r, quiet s') \<and> m' (quiet (v s)) = (r, quiet (v s')))"

lemma qsimI:
  "(\<And>s. \<exists>r s'. m (quiet s) = (r, quiet s') \<and> m' (quiet (v s)) = (r, quiet (v s'))) \<Longrightarrow> qsim v m m'"
  by (simp add: qsim_def)

lemma qsim_ret [intro!, simp]: "qsim v (io_ret x) (io_ret x)"
  by (simp add: qsim_def)

lemma qsim_fail [intro!, simp]: "qsim v (io_fail e) (io_fail e)"
  by (simp add: qsim_def)

lemma qsim_lift [intro!, simp]: "qsim v (io_lift e) (io_lift e)"
  by (simp add: qsim_def)

lemma qsim_bind [intro]:
  assumes "qsim v m m'" and "\<And>x. qsim v (f x) (f' x)"
  shows "qsim v (io_bind m f) (io_bind m' f')"
  unfolding qsim_def
proof
  fix s
  obtain r s' where m: "m (quiet s) = (r, quiet s')" "m' (quiet (v s)) = (r, quiet (v s'))"
    using assms(1) unfolding qsim_def by blast
  show "\<exists>r s'. io_bind m f (quiet s) = (r, quiet s') \<and> io_bind m' f' (quiet (v s)) = (r, quiet (v s'))"
  proof (cases r)
    case (Inl e)
    with m show ?thesis by (simp add: io_bind_def)
  next
    case (Inr x)
    with m assms(2) [of x] show ?thesis by (simp add: io_bind_def qsim_def)
  qed
qed

lemma qsim_call:
  assumes "\<And>s. obs v (c s) = c' (v s)" shows "qsim v (call c) (call c')"
proof (rule qsimI)
  fix s
  have "c' (v s) = (fst (c s), v (snd (c s)))" using assms [of s] by (simp add: obs_def)
  then show "\<exists>r s'. call c (quiet s) = (r, quiet s') \<and> call c' (quiet (v s)) = (r, quiet (v s'))"
    by (simp add: call_quiet)
qed

lemma run_cmds_obs:
  assumes "list_all2 (\<lambda>c c'. \<forall>s. obs v (c s) = c' (v s)) cs cs'"
  shows "run_cmds cs' [] (v s) = (fst (run_cmds cs [] s), v (snd (run_cmds cs [] s)))"
  using assms
proof (induction cs cs' arbitrary: s rule: list_all2_induct)
  case (Cons c cs c' cs')
  then have "c' (v s) = (fst (c s), v (snd (c s)))" by (metis obs_def)
  with Cons.IH show ?case by (simp add: case_prod_beta Let_def)
qed simp

lemma qsim_pipeline:
  assumes "list_all2 (\<lambda>c c'. \<forall>s. obs v (c s) = c' (v s)) cs cs'"
  shows "qsim v (pipeline cs) (pipeline cs')"
proof (rule qsimI)
  fix s
  have "cs = [] \<longleftrightarrow> cs' = []" using assms by (auto dest: list_all2_lengthD)
  then show "\<exists>r s'. pipeline cs (quiet s) = (r, quiet s') \<and> pipeline cs' (quiet (v s)) = (r, quiet (v s'))"
    using run_cmds_obs [OF assms, of s]
    by (auto simp: pipeline_def exchange_def case_prod_beta Let_def)
qed

lemma qsimD:
  assumes "qsim v m m'" "m' (quiet (v s)) = (r, quiet k)"
  obtains s' where "m (quiet s) = (r, quiet s')" "v s' = k"
proof -
  obtain r' s' where "m (quiet s) = (r', quiet s')" "m' (quiet (v s)) = (r', quiet (v s'))"
    using assms(1) unfolding qsim_def by blast
  with assms(2) that show ?thesis by auto
qed

lemma qsim_result:
  assumes "qsim v m m'" "m' (quiet (v s)) = (r, quiet k)"
  shows "\<exists>s'. m (quiet s) = (r, quiet s') \<and> v s' = k"
  by (rule qsimD [OF assms]) blast

text \<open>The continuation need only agree on the value the first program returns there.\<close>

lemma qsim_result_bind:
  assumes "qsim v m m'" "m' (quiet (v s)) = (Inr x, quiet k)" "qsim v (f x) (f' x)"
    "io_bind m' f' (quiet (v s)) = (r, quiet k')"
  shows "\<exists>s'. io_bind m f (quiet s) = (r, quiet s') \<and> v s' = k'"
proof -
  obtain s1 where s1: "m (quiet s) = (Inr x, quiet s1)" "v s1 = k" by (rule qsimD [OF assms(1,2)])
  with assms(2,4) have "f' x (quiet (v s1)) = (r, quiet k')" by (simp add: io_bind_def)
  from qsim_result [OF assms(3) this] s1 show ?thesis by (simp add: io_bind_def)
qed

subsection \<open>Reasoning with other clients at work\<close>

text \<open>
  A triple for a program that shares the server: \<open>G\<close> is what the other clients may do between its
  commands, \<open>Q\<close> holds when it returns a value and \<open>E\<close> when it returns an error, lost replies
  included. The conditions in between have to survive \<open>G\<close>.
\<close>

definition others_do :: "('s \<Rightarrow> 's \<Rightarrow> bool) \<Rightarrow> 's world \<Rightarrow> bool" where
  "others_do G w \<longleftrightarrow> (\<forall>x \<in> set (net w). \<forall>f \<in> set (xch_others x). \<forall>s. G s (f s))"

definition stable :: "('s \<Rightarrow> 's \<Rightarrow> bool) \<Rightarrow> ('s \<Rightarrow> bool) \<Rightarrow> bool" where
  "stable G P \<longleftrightarrow> (\<forall>s s'. P s \<longrightarrow> G s s' \<longrightarrow> P s')"

definition triple :: "('s \<Rightarrow> 's \<Rightarrow> bool) \<Rightarrow> ('s \<Rightarrow> bool) \<Rightarrow> ('s, 'a) go \<Rightarrow> ('a \<Rightarrow> 's \<Rightarrow> bool) \<Rightarrow> ('s \<Rightarrow> bool) \<Rightarrow> bool" where
  "triple G P m Q E \<longleftrightarrow> (\<forall>w r w'. others_do G w \<longrightarrow> P (srv w) \<longrightarrow> m w = (r, w') \<longrightarrow>
     others_do G w' \<and> (case r of Inl _ \<Rightarrow> E (srv w') | Inr x \<Rightarrow> Q x (srv w')))"

lemma tripleD:
  assumes "triple G P m Q E" "others_do G w" "P (srv w)" "m w = (r, w')"
  shows "others_do G w'" "\<And>x. r = Inr x \<Longrightarrow> Q x (srv w')" "\<And>e. r = Inl e \<Longrightarrow> E (srv w')"
  using assms unfolding triple_def by (fastforce split: sum.splits)+

lemma others_do_quiet [simp]: "others_do G (quiet s)"
  by (simp add: others_do_def)

lemma triple_ret: "(\<And>s. P s \<Longrightarrow> Q x s) \<Longrightarrow> triple G P (io_ret x) Q E"
  by (simp add: triple_def)

lemma triple_fail: "(\<And>s. P s \<Longrightarrow> E s) \<Longrightarrow> triple G P (io_fail e) Q E"
  by (simp add: triple_def)

lemma triple_lift:
  "(\<And>s x. P s \<Longrightarrow> r = Inr x \<Longrightarrow> Q x s) \<Longrightarrow> (\<And>s e. P s \<Longrightarrow> r = Inl e \<Longrightarrow> E s) \<Longrightarrow> triple G P (io_lift r) Q E"
  by (cases r) (simp_all add: triple_def)

lemma triple_bind:
  assumes "triple G P m Q E" "\<And>x. triple G (Q x) (f x) Q' E"
  shows "triple G P (io_bind m f) Q' E"
  unfolding triple_def
proof (intro allI impI)
  fix w r w' assume w: "others_do G w" "P (srv w)" "io_bind m f w = (r, w')"
  obtain r1 w1 where m: "m w = (r1, w1)" by fastforce
  note 1 = tripleD [OF assms(1) w(1,2) m]
  show "others_do G w' \<and> (case r of Inl _ \<Rightarrow> E (srv w') | Inr x \<Rightarrow> Q' x (srv w'))"
  proof (cases r1)
    case (Inl e)
    with m w(3) 1 show ?thesis by (auto simp: io_bind_def)
  next
    case (Inr x)
    with m w(3) have "f x w1 = (r, w')" by (simp add: io_bind_def)
    with tripleD [OF assms(2) 1(1) 1(2) [OF Inr] this] show ?thesis by (auto split: sum.split)
  qed
qed

lemma triple_weaken:
  "triple G P m Q E \<Longrightarrow> (\<And>s. P' s \<Longrightarrow> P s) \<Longrightarrow> (\<And>x s. Q x s \<Longrightarrow> Q' x s) \<Longrightarrow> (\<And>s. E s \<Longrightarrow> E' s) \<Longrightarrow>
    triple G P' m Q' E'"
  unfolding triple_def by (fastforce split: sum.splits)

lemma others_do_tl:
  assumes "others_do G w" "net w = x # xs"
  shows "others_do G (w\<lparr>srv := s, net := xs\<rparr>)" "\<forall>f \<in> set (xch_others x). \<forall>s. G s (f s)"
  using assms by (auto simp: others_do_def)

lemma exchange_cases:
  assumes "exchange cs w = (rep, w')" "others_do G w"
  obtains os n where "\<forall>f \<in> set os. \<forall>s. G s (f s)" "others_do G w'"
    "srv w' = snd (run_cmds (take n cs) os (srv w))"
    "rep = None \<or> (take n cs = cs \<and> rep = Some (fst (run_cmds cs os (srv w))))"
proof (cases "net w")
  case Nil
  with assms that [of "[]" "length cs"] show ?thesis
    by (auto simp: exchange_def others_do_def split: prod.splits)
next
  case (Cons x xs)
  note o = others_do_tl [OF assms(2) Cons]
  show ?thesis
  proof (cases "xch_lost x")
    case None
    with assms Cons o that [of "xch_others x" "length cs"] show ?thesis
      by (auto simp: exchange_def split: prod.splits)
  next
    case (Some n)
    with assms Cons o that [of "xch_others x" n] show ?thesis
      by (auto simp: exchange_def split: prod.splits)
  qed
qed

lemma triple_call:
  assumes P: "stable G P" and step: "\<And>s r s'. P s \<Longrightarrow> c s = (r, s') \<Longrightarrow> E s' \<and> (\<forall>x. r = Inr x \<longrightarrow> Q x s')"
    and E: "\<And>s. P s \<Longrightarrow> E s"
  shows "triple G P (call c) Q E"
  unfolding triple_def
proof (intro allI impI)
  fix w r w' assume w: "others_do G w" "P (srv w)" "call c w = (r, w')"
  obtain rep w1 where ex: "exchange [c] w = (rep, w1)" by fastforce
  then obtain os n where os: "\<forall>f \<in> set os. \<forall>s. G s (f s)" "others_do G w1"
    "srv w1 = snd (run_cmds (take n [c]) os (srv w))"
    "rep = None \<or> (take n [c] = [c] \<and> rep = Some (fst (run_cmds [c] os (srv w))))"
    using w(1) by (rule exchange_cases)
  define s where "s = (case os of [] \<Rightarrow> srv w | f # _ \<Rightarrow> f (srv w))"
  have s: "P s" using P w(2) os(1) by (cases os) (auto simp: s_def stable_def)
  obtain r0 s0 where c: "c s = (r0, s0)" by fastforce
  have run: "run_cmds [c] os (srv w) = ([r0], s0)" using c by (simp add: s_def)
  have w': "w' = w1" "r = (case rep of Some (r # _) \<Rightarrow> from_reply r | _ \<Rightarrow> Inl NoReply)"
    using w(3) ex by (auto simp: call_def split: option.splits list.splits)
  show "others_do G w' \<and> (case r of Inl _ \<Rightarrow> E (srv w') | Inr x \<Rightarrow> Q x (srv w'))"
  proof (cases n)
    case 0
    then have "srv w' = srv w" "r = Inl NoReply" using os w' by auto
    then show ?thesis using os(2) E w(2) w' by simp
  next
    case (Suc k)
    then have "srv w' = s0" using os(3) run w' by simp
    moreover have "r = from_reply r0 \<or> r = Inl NoReply" using os(4) run w' by auto
    ultimately show ?thesis
      using step [OF s c] os(2) w' by (cases r0) (auto split: sum.split)
  qed
qed

text \<open>A condition that counts the commands of a pipeline.\<close>

lemma run_cmds_count:
  assumes "run_cmds cs os s = (rs, s')" "J 0 s" "\<forall>f \<in> set os. \<forall>s. G s (f s)"
    and "\<And>n. n \<le> length cs \<Longrightarrow> stable G (J n)"
    and "\<And>n s. n < length cs \<Longrightarrow> J n s \<Longrightarrow> J (Suc n) (snd ((cs ! n) s))"
  shows "J (length cs) s'"
  using assms
proof (induction cs os s arbitrary: rs s' J rule: run_cmds.induct)
  case (2 c cs os s)
  let ?s = "case os of [] \<Rightarrow> s | f # _ \<Rightarrow> f s"
  obtain r s1 where c: "c ?s = (r, s1)" by fastforce
  obtain rs' s2 where run: "run_cmds cs (tl os) s1 = (rs', s2)" by fastforce
  have "J 0 ?s" using 2(3,4) 2(5) [of 0] by (cases os) (auto simp: stable_def)
  with 2(6) [of 0 ?s] c have "J 1 s1" by simp
  moreover have "\<forall>f \<in> set (tl os). \<forall>s. G s (f s)" using 2(4) by (cases os) auto
  ultimately have "J (Suc (length cs)) s2"
    using 2(5,6) by (intro 2(1) [OF c [symmetric] refl run, where J = "\<lambda>n. J (Suc n)"]) force+
  with 2(2) c run show ?case by (simp add: Let_def)
qed simp

lemma triple_pipeline_count:
  assumes st: "\<And>n. n \<le> length cs \<Longrightarrow> stable G (J n)"
    and step: "\<And>n s. n < length cs \<Longrightarrow> J n s \<Longrightarrow> J (Suc n) (snd ((cs ! n) s))"
    and E: "\<And>n s. n \<le> length cs \<Longrightarrow> J n s \<Longrightarrow> E s"
  shows "triple G (J 0) (pipeline cs) (\<lambda>_. J (length cs)) E"
  unfolding triple_def
proof (intro allI impI)
  fix w r w' assume w: "others_do G w" "J 0 (srv w)" "pipeline cs w = (r, w')"
  show "others_do G w' \<and> (case r of Inl _ \<Rightarrow> E (srv w') | Inr x \<Rightarrow> J (length cs) (srv w'))"
  proof (cases "cs = []")
    case True
    with w show ?thesis by (auto simp: pipeline_def)
  next
    case False
    obtain rep w1 where ex: "exchange cs w = (rep, w1)" by fastforce
    then obtain os n where os: "\<forall>f \<in> set os. \<forall>s. G s (f s)" "others_do G w1"
      "srv w1 = snd (run_cmds (take n cs) os (srv w))"
      "rep = None \<or> (take n cs = cs \<and> rep = Some (fst (run_cmds cs os (srv w))))"
      using w(1) by (rule exchange_cases)
    have w': "w' = w1" "r = (case rep of None \<Rightarrow> Inl NoReply | Some rs \<Rightarrow> res_map from_reply rs)"
      using w(3) ex False by (auto simp: pipeline_def split: option.splits)
    have J: "J (length (take n cs)) (srv w1)"
      by (rule run_cmds_count [of "take n cs" os "srv w" "fst (run_cmds (take n cs) os (srv w))" _ J G])
        (use w(2) os st step in \<open>simp_all add: prod_eq_iff\<close>)
    moreover have "length (take n cs) \<le> length cs" by simp
    ultimately have "E (srv w1)" using E by blast
    moreover have "J (length cs) (srv w1)" if "r = Inr x" for x
      using that J os(4) w'(2) by (cases rep) auto
    ultimately show ?thesis using os(2) w'(1) by (auto split: sum.split)
  qed
qed

lemma triple_ex: "(\<And>v. triple G (P v) m Q E) \<Longrightarrow> triple G (\<lambda>s. \<exists>v. P v s) m Q E"
  unfolding triple_def by blast

lemma triple_bind_lift:
  "r = Inr x \<Longrightarrow> triple G P (f x) Q E \<Longrightarrow> triple G P (io_bind (io_lift r) f) Q E"
  by (simp add: triple_def io_bind_def)

lemma triple_pure: "(A \<Longrightarrow> triple G P m Q E) \<Longrightarrow> triple G (\<lambda>s. A \<and> P s) m Q E"
  by (auto simp: triple_def)

lemma triple_vacuous: "(\<And>s. P s \<Longrightarrow> A) \<Longrightarrow> (A \<Longrightarrow> triple G P m Q E) \<Longrightarrow> triple G P m Q E"
  by (auto simp: triple_def)

end
