(* ===== verification/Keys.thy ===== *)
theory Keys
  imports Redis
begin

section \<open>Redis keys (\<open>storage/keys.go\<close>)\<close>

text \<open>
  Every key the program uses is built here. The lemmas say what the rest of the development needs:
  the families are pairwise disjoint and each is injective, the player history family because a
  player id holds no colon.
\<close>

named_theorems key_simps \<open>distinctness of keys\<close>

definition key_prefix :: string where "key_prefix = ''app:''"

definition player_ns :: string where "player_ns = key_prefix @ ''player:''"
definition board_ns :: string where "board_ns = key_prefix @ ''board:''"
definition view_ns :: string where "view_ns = key_prefix @ ''view:''"
definition admin_ns :: string where "admin_ns = key_prefix @ ''admin:''"
definition ledger_ns :: string where "ledger_ns = key_prefix @ ''ledger:''"
definition consumer_ns :: string where "consumer_ns = key_prefix @ ''consumer:''"

definition board_index_key :: string where "board_index_key = board_ns @ ''index''"
definition ledger_key :: string where "ledger_key = ledger_ns @ ''events''"
definition idempotency_hash_key :: string where "idempotency_hash_key = ledger_ns @ ''idempotency''"
definition player_idempotency_hash_key :: string where
  "player_idempotency_hash_key = player_ns @ ''idempotency''"
definition player_history_ns :: string where "player_history_ns = view_ns @ ''player:history:''"

definition player_profile_key :: "string \<Rightarrow> string" where
  "player_profile_key i = player_ns @ ''profile:'' @ i"

definition board_profile_key :: "string \<Rightarrow> string" where
  "board_profile_key i = board_ns @ ''profile:'' @ i"

definition leaderboard_key :: "string \<Rightarrow> string" where
  "leaderboard_key i = view_ns @ ''leaderboard:'' @ i"

definition board_verify_key :: "string \<Rightarrow> string" where
  "board_verify_key i = admin_ns @ ''temp:verify:'' @ i"

definition player_history_key :: "string \<Rightarrow> string \<Rightarrow> string" where
  "player_history_key p b = player_history_ns @ p @ '':'' @ b"

definition activity_daily_key :: "string \<Rightarrow> string" where
  "activity_daily_key date = view_ns @ ''activity:daily:'' @ date"

definition consumer_cursor_key :: "string \<Rightarrow> string" where
  "consumer_cursor_key name = consumer_ns @ name @ '':cursor''"

lemmas key_defs = key_prefix_def player_ns_def board_ns_def view_ns_def admin_ns_def ledger_ns_def
  consumer_ns_def board_index_key_def ledger_key_def idempotency_hash_key_def
  player_idempotency_hash_key_def player_history_ns_def player_profile_key_def
  board_profile_key_def leaderboard_key_def board_verify_key_def player_history_key_def
  activity_daily_key_def consumer_cursor_key_def

text \<open>
  The families as a datatype, so that disjointness is one statement: the key determines the family
  and its arguments.
\<close>

datatype key =
    KBoardIndex | KLedger | KIdempotency | KPlayerIdempotency
  | KPlayer string | KBoard string | KLeaderboard string | KVerify string
  | KHistory string string | KActivity string | KCursor string

fun key_name :: "key \<Rightarrow> string" where
  "key_name KBoardIndex = board_index_key"
| "key_name KLedger = ledger_key"
| "key_name KIdempotency = idempotency_hash_key"
| "key_name KPlayerIdempotency = player_idempotency_hash_key"
| "key_name (KPlayer p) = player_profile_key p"
| "key_name (KBoard b) = board_profile_key b"
| "key_name (KLeaderboard b) = leaderboard_key b"
| "key_name (KVerify b) = board_verify_key b"
| "key_name (KHistory p b) = player_history_key p b"
| "key_name (KActivity d) = activity_daily_key d"
| "key_name (KCursor n) = consumer_cursor_key n"

text \<open>Only a history key is ambiguous, and only when a player id holds a colon.\<close>

fun key_wf :: "key \<Rightarrow> bool" where
  "key_wf (KHistory p b) = (CHR '':'' \<notin> set p)"
| "key_wf _ = True"

lemma history_inject:
  "CHR '':'' \<notin> set p \<Longrightarrow> CHR '':'' \<notin> set q \<Longrightarrow>
    player_history_key p b = player_history_key q c \<longleftrightarrow> p = q \<and> b = c"
  using sep_inject [of p "CHR '':''" b q c] by (auto simp: player_history_key_def)

lemma key_inject_lemma: "key_wf k \<Longrightarrow> key_wf l \<Longrightarrow> key_name k = key_name l \<Longrightarrow> k = l"
  by (cases k; cases l) (auto simp: key_defs dest: sep_inject)

lemma key_neq [key_simps, simp]:
  "leaderboard_key b \<noteq> ledger_key" "ledger_key \<noteq> leaderboard_key b"
  "leaderboard_key b \<noteq> idempotency_hash_key" "idempotency_hash_key \<noteq> leaderboard_key b"
  "leaderboard_key b \<noteq> player_profile_key p" "player_profile_key p \<noteq> leaderboard_key b"
  "leaderboard_key b \<noteq> board_profile_key c" "board_profile_key c \<noteq> leaderboard_key b"
  "leaderboard_key b \<noteq> board_verify_key c" "board_verify_key c \<noteq> leaderboard_key b"
  "leaderboard_key b \<noteq> board_index_key" "board_index_key \<noteq> leaderboard_key b"
  "leaderboard_key b \<noteq> player_idempotency_hash_key" "player_idempotency_hash_key \<noteq> leaderboard_key b"
  "leaderboard_key b \<noteq> player_history_key p c" "player_history_key p c \<noteq> leaderboard_key b"
  "leaderboard_key b \<noteq> activity_daily_key d" "activity_daily_key d \<noteq> leaderboard_key b"
  "leaderboard_key b \<noteq> consumer_cursor_key n" "consumer_cursor_key n \<noteq> leaderboard_key b"
  by (simp_all add: key_defs)

lemma key_neq_ledger [key_simps, simp]:
  "ledger_key \<noteq> idempotency_hash_key" "idempotency_hash_key \<noteq> ledger_key"
  "ledger_key \<noteq> player_profile_key p" "player_profile_key p \<noteq> ledger_key"
  "ledger_key \<noteq> board_profile_key c" "board_profile_key c \<noteq> ledger_key"
  "ledger_key \<noteq> board_verify_key c" "board_verify_key c \<noteq> ledger_key"
  "ledger_key \<noteq> board_index_key" "board_index_key \<noteq> ledger_key"
  "ledger_key \<noteq> player_idempotency_hash_key" "player_idempotency_hash_key \<noteq> ledger_key"
  "ledger_key \<noteq> player_history_key p c" "player_history_key p c \<noteq> ledger_key"
  "ledger_key \<noteq> activity_daily_key d" "activity_daily_key d \<noteq> ledger_key"
  "ledger_key \<noteq> consumer_cursor_key n" "consumer_cursor_key n \<noteq> ledger_key"
  by (simp_all add: key_defs)

lemma key_neq_hashes [key_simps, simp]:
  "idempotency_hash_key \<noteq> player_profile_key p" "player_profile_key p \<noteq> idempotency_hash_key"
  "idempotency_hash_key \<noteq> board_profile_key c" "board_profile_key c \<noteq> idempotency_hash_key"
  "idempotency_hash_key \<noteq> board_verify_key c" "board_verify_key c \<noteq> idempotency_hash_key"
  "idempotency_hash_key \<noteq> board_index_key" "board_index_key \<noteq> idempotency_hash_key"
  "idempotency_hash_key \<noteq> player_idempotency_hash_key"
  "player_idempotency_hash_key \<noteq> idempotency_hash_key"
  "idempotency_hash_key \<noteq> player_history_key p c" "player_history_key p c \<noteq> idempotency_hash_key"
  "idempotency_hash_key \<noteq> activity_daily_key d" "activity_daily_key d \<noteq> idempotency_hash_key"
  "idempotency_hash_key \<noteq> consumer_cursor_key n" "consumer_cursor_key n \<noteq> idempotency_hash_key"
  "player_idempotency_hash_key \<noteq> player_profile_key p"
  "player_profile_key p \<noteq> player_idempotency_hash_key"
  "player_idempotency_hash_key \<noteq> board_profile_key c" "board_profile_key c \<noteq> player_idempotency_hash_key"
  "player_idempotency_hash_key \<noteq> board_verify_key c" "board_verify_key c \<noteq> player_idempotency_hash_key"
  "player_idempotency_hash_key \<noteq> board_index_key" "board_index_key \<noteq> player_idempotency_hash_key"
  "player_idempotency_hash_key \<noteq> player_history_key p c"
  "player_history_key p c \<noteq> player_idempotency_hash_key"
  "player_idempotency_hash_key \<noteq> activity_daily_key d" "activity_daily_key d \<noteq> player_idempotency_hash_key"
  "player_idempotency_hash_key \<noteq> consumer_cursor_key n"
  "consumer_cursor_key n \<noteq> player_idempotency_hash_key"
  by (simp_all add: key_defs)

lemma key_neq_rest [key_simps, simp]:
  "player_profile_key p \<noteq> board_profile_key c" "board_profile_key c \<noteq> player_profile_key p"
  "player_profile_key p \<noteq> board_verify_key c" "board_verify_key c \<noteq> player_profile_key p"
  "player_profile_key p \<noteq> board_index_key" "board_index_key \<noteq> player_profile_key p"
  "player_profile_key p \<noteq> player_history_key q c" "player_history_key q c \<noteq> player_profile_key p"
  "player_profile_key p \<noteq> activity_daily_key d" "activity_daily_key d \<noteq> player_profile_key p"
  "player_profile_key p \<noteq> consumer_cursor_key n" "consumer_cursor_key n \<noteq> player_profile_key p"
  "board_profile_key b \<noteq> board_verify_key c" "board_verify_key c \<noteq> board_profile_key b"
  "board_profile_key b \<noteq> board_index_key" "board_index_key \<noteq> board_profile_key b"
  "board_profile_key b \<noteq> player_history_key q c" "player_history_key q c \<noteq> board_profile_key b"
  "board_profile_key b \<noteq> activity_daily_key d" "activity_daily_key d \<noteq> board_profile_key b"
  "board_profile_key b \<noteq> consumer_cursor_key n" "consumer_cursor_key n \<noteq> board_profile_key b"
  "board_verify_key b \<noteq> board_index_key" "board_index_key \<noteq> board_verify_key b"
  "board_verify_key b \<noteq> player_history_key q c" "player_history_key q c \<noteq> board_verify_key b"
  "board_verify_key b \<noteq> activity_daily_key d" "activity_daily_key d \<noteq> board_verify_key b"
  "board_verify_key b \<noteq> consumer_cursor_key n" "consumer_cursor_key n \<noteq> board_verify_key b"
  "board_index_key \<noteq> player_history_key q c" "player_history_key q c \<noteq> board_index_key"
  "board_index_key \<noteq> activity_daily_key d" "activity_daily_key d \<noteq> board_index_key"
  "board_index_key \<noteq> consumer_cursor_key n" "consumer_cursor_key n \<noteq> board_index_key"
  "player_history_key q c \<noteq> activity_daily_key d" "activity_daily_key d \<noteq> player_history_key q c"
  "player_history_key q c \<noteq> consumer_cursor_key n" "consumer_cursor_key n \<noteq> player_history_key q c"
  "activity_daily_key d \<noteq> consumer_cursor_key n" "consumer_cursor_key n \<noteq> activity_daily_key d"
  by (simp_all add: key_defs)

lemma key_inj [key_simps, simp]:
  "leaderboard_key b = leaderboard_key c \<longleftrightarrow> b = c"
  "board_verify_key b = board_verify_key c \<longleftrightarrow> b = c"
  "board_profile_key b = board_profile_key c \<longleftrightarrow> b = c"
  "player_profile_key p = player_profile_key q \<longleftrightarrow> p = q"
  "activity_daily_key d = activity_daily_key e \<longleftrightarrow> d = e"
  "consumer_cursor_key m = consumer_cursor_key n \<longleftrightarrow> m = n"
  by (simp_all add: key_defs)

end
