(* ===== verification/LedgerEntry.thy ===== *)
theory LedgerEntry
  imports Network Keys Domain
begin

section \<open>Stream entries and stored scores (\<open>storage/storage.go\<close>, \<open>apextime.FromStreamID\<close>)\<close>

text \<open>
  How the storage reads what it wrote: a ledger entry back into an event, strictly, and a sorted
  set's score back into an \<open>int64\<close>, leniently. The central lemma is the round trip: an entry with
  the fields the write script appends decodes to the event that was written.
\<close>

definition entry_field_type :: string where "entry_field_type = ''type''"
definition entry_field_player_id :: string where "entry_field_player_id = ''player_id''"
definition entry_field_board_id :: string where "entry_field_board_id = ''board_id''"
definition entry_field_amount :: string where "entry_field_amount = ''amount''"
definition entry_field_request_id :: string where "entry_field_request_id = ''request_id''"

lemmas entry_field_defs = entry_field_type_def entry_field_player_id_def entry_field_board_id_def
  entry_field_amount_def entry_field_request_id_def

definition get_stream_entry_value :: "xmsg \<Rightarrow> string \<Rightarrow> string" where
  "get_stream_entry_value entry key = (case map_of (msg_values entry) key of None \<Rightarrow> [] | Some v \<Rightarrow> v)"

definition from_stream_id :: "string \<Rightarrow> time option" where
  "from_stream_id s =
     (case cut_at (CHR ''-'') s of
        None \<Rightarrow> None
      | Some (ms, _) \<Rightarrow> map_option from_unix_milli (parse_int64 ms))"

definition event_time :: "string \<Rightarrow> time" where
  "event_time s = (case from_stream_id s of None \<Rightarrow> zero_time | Some t \<Rightarrow> t)"

text \<open>\<open>exactInt64\<close>: a double that is finite, integral and inside the \<open>int64\<close> range.\<close>

definition over_int64 :: f64 where "over_int64 = Fin (2 ^ 63)"

fun f64_to_int :: "f64 \<Rightarrow> int" where
  "f64_to_int (Fin q) = trunc_rat q"
| "f64_to_int _ = 0"

definition exact_int64 :: "f64 \<Rightarrow> int option" where
  "exact_int64 v =
     (if v = NaN \<or> \<not> f64_lt v over_int64 \<or> f64_lt v (f64_neg over_int64) then None
      else if \<not> f64_eq v (math_trunc v) then None
      else Some (f64_to_int v))"

definition z_score_to_int64 :: "f64 \<Rightarrow> int option" where
  "z_score_to_int64 raw =
     (case exact_int64 raw of
        Some v \<Rightarrow> Some v
      | None \<Rightarrow> exact_int64 (math_round raw))"

text \<open>\<open>required\<close>: an absent or empty field is an inconsistency.\<close>

definition required :: "xmsg \<Rightarrow> string \<Rightarrow> serr + string" where
  "required entry field =
     (let v = get_stream_entry_value entry field in if v = [] then Inl ErrInconsistent else Inr v)"

definition sum_bind :: "'e + 'a \<Rightarrow> ('a \<Rightarrow> 'e + 'b) \<Rightarrow> 'e + 'b" where
  "sum_bind r f = (case r of Inl e \<Rightarrow> Inl e | Inr x \<Rightarrow> f x)"

lemma sum_bind_simps [simp]: "sum_bind (Inl e) f = Inl e" "sum_bind (Inr x) f = f x"
  by (simp_all add: sum_bind_def)

definition entry_to_event :: "ext \<Rightarrow> xmsg \<Rightarrow> serr + event" where
  "entry_to_event X entry =
     sum_bind (required entry entry_field_type) (\<lambda>raw_type.
       if raw_type \<noteq> event_set \<and> raw_type \<noteq> event_increment then Inl ErrInconsistent
       else sum_bind (required entry entry_field_player_id) (\<lambda>player_id.
         if \<not> player_id_validate X player_id then Inl ErrInconsistent
         else sum_bind (required entry entry_field_board_id) (\<lambda>board_id.
           sum_bind (required entry entry_field_amount) (\<lambda>raw_amount.
             case parse_float raw_amount of
               None \<Rightarrow> Inl ErrInconsistent
             | Some d \<Rightarrow>
                 (case exact_int64 d of
                    None \<Rightarrow> Inl ErrInconsistent
                  | Some amount \<Rightarrow>
                      if \<not> score_validate amount then Inl ErrInconsistent
                      else sum_bind (required entry entry_field_request_id) (\<lambda>request_id.
                        Inr \<lparr>ev_id = msg_id entry, ev_type = raw_type, ev_player = player_id,
                             ev_board = board_id, ev_amount = amount, ev_request = request_id,
                             ev_created = event_time (msg_id entry)\<rparr>))))))"

subsection \<open>Exact conversions\<close>

lemma trunc_rat_int [simp]: "trunc_rat (of_int n) = n"
  by (simp add: trunc_rat_def)

lemma exact_int64_Fin:
  "exact_int64 (Fin q) = (if - (2 ^ 63) \<le> q \<and> q < 2 ^ 63 \<and> of_int (trunc_rat q) = q
     then Some (trunc_rat q) else None)"
  by (auto simp: exact_int64_def over_int64_def f64_eq_def)

lemma exact_int64_int [simp]: "is_int64 n \<Longrightarrow> exact_int64 (Fin (of_int n)) = Some n"
proof -
  assume "is_int64 n"
  then have "of_int (- (2 ^ 63)) \<le> (of_int n :: rat)" "(of_int n :: rat) < of_int (2 ^ 63)"
    unfolding of_int_le_iff of_int_less_iff by (auto simp: is_int64_def)
  then show ?thesis by (simp add: exact_int64_Fin)
qed

lemma exact_int64_special [simp]: "exact_int64 NaN = None" "exact_int64 (Inf b) = None"
  by (cases b; simp add: exact_int64_def over_int64_def)+

lemma exact_int64_Some: "exact_int64 v = Some n \<Longrightarrow> v = Fin (of_int n) \<and> is_int64 n"
proof (cases v)
  case (Fin q)
  assume "exact_int64 v = Some n"
  with Fin have q: "- (2 ^ 63) \<le> q" "q < 2 ^ 63" "of_int n = q"
    by (auto simp: exact_int64_Fin split: if_splits)
  then have "of_int (- (2 ^ 63)) \<le> (of_int n :: rat)" "(of_int n :: rat) < of_int (2 ^ 63)" by auto
  then have "- (2 ^ 63) \<le> n" "n < 2 ^ 63" unfolding of_int_le_iff of_int_less_iff by auto
  with Fin q show ?thesis by (simp add: is_int64_def)
qed simp_all

lemma z_score_to_int64_int [simp]: "is_int64 n \<Longrightarrow> z_score_to_int64 (Fin (of_int n)) = Some n"
  by (simp add: z_score_to_int64_def)

lemma format_int_not_word:
  "map ascii_lower (format_int n) \<noteq> ''nan''"
  "map ascii_lower (show_nat k) \<noteq> ''inf''" "map ascii_lower (show_nat k) \<noteq> ''infinity''"
proof -
  have low: "digit_val c \<noteq> None \<Longrightarrow> ascii_lower c = c" for c
    by (auto simp: digit_val_def ascii_lower_def Let_def split: if_splits)
  have digits: "map ascii_lower (show_nat k) = show_nat k" for k
    using show_nat_digits low by (intro map_idI) blast
  have no_i: "CHR ''i'' \<notin> set (show_nat k)" "CHR ''n'' \<notin> set (show_nat k)" for k
    using show_nat_digits by (force simp: digit_val_def)+
  show "map ascii_lower (show_nat k) \<noteq> ''inf''" "map ascii_lower (show_nat k) \<noteq> ''infinity''"
    using no_i [of k] by (auto simp: digits)
  show "map ascii_lower (format_int n) \<noteq> ''nan''"
    using no_i [of "nat n"] digits [of "nat n"] by (auto simp: format_int_def ascii_lower_def)
qed

lemma parse_float_format [simp]:
  "score_validate n \<Longrightarrow> parse_float (format_int n) = Some (Fin (of_int n))"
proof -
  assume "score_validate n"
  then have "f64_round (of_int n) = Fin (of_int n)" using score_exact [of n] by (simp add: f64_of_int_def)
  then show ?thesis by (simp add: parse_float_def split_sign_format format_int_not_word Let_def)
qed

subsection \<open>The round trip of a ledger entry\<close>

text \<open>The fields \<open>apply_score_event.lua\<close> appends.\<close>

definition ledger_fields :: "string \<Rightarrow> string \<Rightarrow> string \<Rightarrow> string \<Rightarrow> string \<Rightarrow> fields" where
  "ledger_fields op player_id board_id amount req_id =
     [(''type'', op), (''player_id'', player_id), (''board_id'', board_id), (''amount'', amount),
      (''request_id'', req_id)]"

definition event_of :: "sid \<Rightarrow> string \<Rightarrow> string \<Rightarrow> string \<Rightarrow> int \<Rightarrow> string \<Rightarrow> event" where
  "event_of i op p b n rq = \<lparr>ev_id = show_sid i, ev_type = op, ev_player = p, ev_board = b,
     ev_amount = n, ev_request = rq, ev_created = event_time (show_sid i)\<rparr>"

lemma event_of_sel [simp]:
  "ev_id (event_of i op p b n rq) = show_sid i" "ev_type (event_of i op p b n rq) = op"
  "ev_player (event_of i op p b n rq) = p" "ev_board (event_of i op p b n rq) = b"
  "ev_amount (event_of i op p b n rq) = n" "ev_request (event_of i op p b n rq) = rq"
  by (simp_all add: event_of_def)

definition writable :: "ext \<Rightarrow> string \<Rightarrow> string \<Rightarrow> string \<Rightarrow> int \<Rightarrow> string \<Rightarrow> bool" where
  "writable X op p b n rq \<longleftrightarrow>
     (op = event_set \<or> op = event_increment) \<and> player_id_validate X p \<and> p \<noteq> [] \<and> b \<noteq> [] \<and>
     rq \<noteq> [] \<and> score_validate n"

lemma entry_to_event_ledger:
  assumes "writable X op p b n rq"
  shows "entry_to_event X (to_msg (i, ledger_fields op p b (format_int n) rq)) =
    Inr (event_of i op p b n rq)"
  using assms score_int64 [of n]
  by (auto simp: writable_def entry_to_event_def required_def get_stream_entry_value_def to_msg_def
      ledger_fields_def entry_field_defs event_of_def Let_def)

lemma entry_to_event_Inr:
  assumes "entry_to_event X m = Inr e"
  shows "ev_id e = msg_id m \<and> (ev_type e = event_set \<or> ev_type e = event_increment) \<and>
    player_id_validate X (ev_player e) \<and> score_validate (ev_amount e) \<and>
    ev_player e \<noteq> [] \<and> ev_board e = get_stream_entry_value m entry_field_board_id"
  using assms
  by (auto simp: entry_to_event_def required_def sum_bind_def Let_def
      split: sum.splits if_splits option.splits)

lemma event_time_sid: "fst i < 2 ^ 63 \<Longrightarrow> event_time (show_sid i) = from_unix_milli (int (fst i))"
  by (simp add: event_time_def from_stream_id_def show_sid_def)

end
