(* ===== verification/Scripts.thy ===== *)
theory Scripts
  imports LedgerEntry
begin

section \<open>The Lua scripts (\<open>storage/scripts\<close>)\<close>

text \<open>
  Each script is the sequence of commands the Lua text issues, over any server \<open>R\<close>, with its
  \<open>KEYS\<close> and \<open>ARGV\<close> as arguments. The server runs a script as one command; a run-time error
  (\<open>ScriptError\<close>, or an error reply inside \<open>redis.call\<close>) ends it and keeps what was written so
  far. \<open>string.find(s, '|', 1, true)\<close> with the two \<open>string.sub\<close> is \<open>cut_at\<close>; where no
  separator is found Lua computes with \<open>nil\<close>, a run-time error.
\<close>

datatype lua_val = LInt int | LBulk string

subsection \<open>\<open>apply_score_event.lua\<close>\<close>

definition dedupe_field :: "string \<Rightarrow> string \<Rightarrow> string \<Rightarrow> string" where
  "dedupe_field board_id player_id idem_key = board_id @ '':'' @ player_id @ '':'' @ idem_key"

definition record_value :: "string \<Rightarrow> string \<Rightarrow> string \<Rightarrow> string" where
  "record_value entry_id op amount = entry_id @ ''|'' @ op @ ''|'' @ amount"

text \<open>Reading a record \<open>entry_id|op|amount\<close> back, and comparing it with the request.\<close>

definition check_record :: "string \<Rightarrow> string \<Rightarrow> string \<Rightarrow> rerr + (int \<times> string)" where
  "check_record seen op amount =
     (case cut_at (CHR ''|'') seen of
        None \<Rightarrow> Inl ScriptError
      | Some (seen_entry, rest) \<Rightarrow>
          (case cut_at (CHR ''|'') rest of
             None \<Rightarrow> Inl ScriptError
           | Some (seen_op, seen_amount) \<Rightarrow>
               if seen_op = op \<and> seen_amount = amount then Inr (0, seen_entry) else Inr (- 4, [])))"

definition lua_result :: "int \<times> string \<Rightarrow> lua_val list" where
  "lua_result r = [LInt (fst r), LBulk (snd r)]"

definition idem_lookup :: "'s redis \<Rightarrow> string \<Rightarrow> string \<Rightarrow> string \<Rightarrow> string \<Rightarrow> string \<Rightarrow> string \<Rightarrow>
    ('s, (int \<times> string) option) cmd" where
  "idem_lookup R idempotency_key board_id player_id idem_key op amount =
     (if idem_key = [] then io_ret None
      else io_bind (hget_c R idempotency_key (dedupe_field board_id player_id idem_key)) (\<lambda>seen.
        case seen of
          None \<Rightarrow> io_ret None
        | Some v \<Rightarrow> io_bind (io_lift (check_record v op amount)) (\<lambda>r. io_ret (Some r))))"

text \<open>The existence checks: a code to return, or none.\<close>

definition existence_check :: "'s redis \<Rightarrow> string \<Rightarrow> string \<Rightarrow> ('s, int option) cmd" where
  "existence_check R profile_key board_key =
     io_bind (exists_c R profile_key) (\<lambda>e.
       if e = 0 then io_ret (Some (- 1))
       else io_bind (exists_c R board_key) (\<lambda>e'.
         if e' = 0 then io_ret (Some (- 2))
         else io_bind (hget_c R board_key ''board_state'') (\<lambda>st.
           if st = Some ''closed'' then io_ret (Some (- 3)) else io_ret None)))"

definition resulting_score :: "'s redis \<Rightarrow> string \<Rightarrow> string \<Rightarrow> string \<Rightarrow> f64 \<Rightarrow> ('s, f64) cmd" where
  "resulting_score R zset_key player_id op amount =
     io_bind (if op \<noteq> ''set'' then zscore_c R zset_key player_id else io_ret None) (\<lambda>cur.
       io_ret (f64_add (case cur of None \<Rightarrow> Fin 0 | Some c \<Rightarrow> c) amount))"

definition apply_projection :: "'s redis \<Rightarrow> string \<Rightarrow> string \<Rightarrow> string \<Rightarrow> f64 \<Rightarrow> ('s, unit) cmd" where
  "apply_projection R zset_key player_id op amount =
     (if op = ''set'' then zadd_c R zset_key amount player_id
      else io_bind (zincrby_c R zset_key amount player_id) (\<lambda>_. io_ret ()))"

definition record_idempotency :: "'s redis \<Rightarrow> string \<Rightarrow> string \<Rightarrow> string \<Rightarrow> string \<Rightarrow> string \<Rightarrow> string \<Rightarrow>
    string \<Rightarrow> ('s, unit) cmd" where
  "record_idempotency R idempotency_key board_id player_id idem_key entry_id op amount =
     (if idem_key = [] then io_ret ()
      else io_bind (hset_c R idempotency_key
             [(dedupe_field board_id player_id idem_key, record_value entry_id op amount)]) (\<lambda>_.
           hexpire_c R idempotency_key 86400 (dedupe_field board_id player_id idem_key)))"

record score_keys =
  sk_zset :: string
  sk_stream :: string
  sk_idempotency :: string
  sk_profile :: string
  sk_board :: string

record score_args =
  sa_op :: string
  sa_player :: string
  sa_amount :: string
  sa_request :: string
  sa_board :: string
  sa_idem :: string
  sa_max :: string

definition append_and_record :: "'s redis \<Rightarrow> score_keys \<Rightarrow> score_args \<Rightarrow> ('s, lua_val list) cmd" where
  "append_and_record R K A =
     io_bind (xadd_c R (sk_stream K)
       (ledger_fields (sa_op A) (sa_player A) (sa_board A) (sa_amount A) (sa_request A))) (\<lambda>entry_id.
       io_bind (record_idempotency R (sk_idempotency K) (sa_board A) (sa_player A)
         (sa_idem A) entry_id (sa_op A) (sa_amount A)) (\<lambda>_.
         io_ret (lua_result (1, entry_id))))"

text \<open>The score the event leaves, its bound, and the three writes.\<close>

definition apply_checked :: "'s redis \<Rightarrow> score_keys \<Rightarrow> score_args \<Rightarrow> f64 \<Rightarrow> f64 \<Rightarrow> ('s, lua_val list) cmd" where
  "apply_checked R K A amount max_abs =
     io_bind (resulting_score R (sk_zset K) (sa_player A) (sa_op A) amount) (\<lambda>resulting.
       if f64_lt max_abs resulting \<or> f64_lt resulting (f64_neg max_abs)
       then io_ret (lua_result (- 5, []))
       else io_bind (apply_projection R (sk_zset K) (sa_player A) (sa_op A) amount) (\<lambda>_.
         append_and_record R K A))"

text \<open>A write with no record: the existence checks first.\<close>

definition apply_new :: "'s redis \<Rightarrow> score_keys \<Rightarrow> score_args \<Rightarrow> ('s, lua_val list) cmd" where
  "apply_new R K A =
     io_bind (existence_check R (sk_profile K) (sk_board K)) (\<lambda>missing. case missing of
       Some code \<Rightarrow> io_ret (lua_result (code, []))
     | None \<Rightarrow>
         (case (lua_tonumber (sa_amount A), lua_tonumber (sa_max A)) of
            (Some amount, Some max_abs) \<Rightarrow> apply_checked R K A amount max_abs
          | _ \<Rightarrow> io_fail ScriptError))"

definition apply_score_event :: "'s redis \<Rightarrow> score_keys \<Rightarrow> score_args \<Rightarrow> ('s, lua_val list) cmd" where
  "apply_score_event R K A =
     io_bind (idem_lookup R (sk_idempotency K) (sa_board A) (sa_player A) (sa_idem A) (sa_op A) (sa_amount A))
     (\<lambda>seen. case seen of Some r \<Rightarrow> io_ret (lua_result r) | None \<Rightarrow> apply_new R K A)"

subsection \<open>\<open>create_player.lua\<close>\<close>

definition create_player_script :: "'s redis \<Rightarrow> string \<Rightarrow> string \<Rightarrow> string \<Rightarrow> string \<Rightarrow> string \<Rightarrow> string \<Rightarrow>
    ('s, lua_val list) cmd" where
  "create_player_script R profile_key idemp_hash player_name created_at player_id idemp_key =
     io_bind (if idemp_key = [] then io_ret None else hget_c R idemp_hash idemp_key) (\<lambda>seen.
       case seen of
         Some v \<Rightarrow>
           (case cut_at (CHR ''|'') v of
              None \<Rightarrow> io_fail ScriptError
            | Some (seen_id, seen_name) \<Rightarrow>
                if seen_name = player_name then io_ret (lua_result (0, seen_id))
                else io_ret (lua_result (- 4, [])))
       | None \<Rightarrow>
           io_bind (exists_c R profile_key) (\<lambda>e.
             if e = 1 then io_ret (lua_result (- 1, []))
             else io_bind (hset_c R profile_key
                    [(''player_name'', player_name), (''created_at'', created_at)]) (\<lambda>_.
               io_bind (if idemp_key = [] then io_ret ()
                        else io_bind (hset_c R idemp_hash [(idemp_key, player_id @ ''|'' @ player_name)])
                          (\<lambda>_. hexpire_c R idemp_hash 86400 idemp_key)) (\<lambda>_.
                 io_ret (lua_result (1, player_id))))))"

subsection \<open>\<open>create_board.lua\<close> and \<open>set_board_state.lua\<close>\<close>

definition create_board_script :: "'s redis \<Rightarrow> string \<Rightarrow> string \<Rightarrow> string \<Rightarrow> string \<Rightarrow> string \<Rightarrow> string \<Rightarrow>
    string \<Rightarrow> ('s, int) cmd" where
  "create_board_script R board_key registry_key board_id board_name created_at created_at_unix board_state =
     io_bind (exists_c R board_key) (\<lambda>e.
       if e = 1 then io_ret 0
       else io_bind (hset_c R board_key
              [(''board_name'', board_name), (''created_at'', created_at), (''board_state'', board_state)]) (\<lambda>_.
         case lua_tonumber created_at_unix of
           None \<Rightarrow> io_fail NotANumber
         | Some d \<Rightarrow> io_bind (zadd_c R registry_key d board_id) (\<lambda>_. io_ret 1)))"

definition set_board_state_script :: "'s redis \<Rightarrow> string \<Rightarrow> string \<Rightarrow> ('s, int) cmd" where
  "set_board_state_script R board_key state =
     io_bind (exists_c R board_key) (\<lambda>e.
       if e = 0 then io_ret 0
       else io_bind (hset_c R board_key [(''board_state'', state)]) (\<lambda>_. io_ret 1))"

subsection \<open>Idempotency records\<close>

lemma check_record_value:
  assumes "CHR ''|'' \<notin> set entry_id" "CHR ''|'' \<notin> set op"
  shows "check_record (record_value entry_id op amount) op' amount' =
    Inr (if op = op' \<and> amount = amount' then (0, entry_id) else (- 4, []))"
  using assms by (simp add: check_record_def record_value_def)

lemma dedupe_field_inject:
  assumes "CHR '':'' \<notin> set b" "CHR '':'' \<notin> set b'" "CHR '':'' \<notin> set p" "CHR '':'' \<notin> set p'"
  shows "dedupe_field b p k = dedupe_field b' p' k' \<longleftrightarrow> b = b' \<and> p = p' \<and> k = k'"
  using assms sep_inject [of b "CHR '':''" "p @ CHR '':'' # k" b' "p' @ CHR '':'' # k'"]
    sep_inject [of p "CHR '':''" k p' k']
  by (auto simp: dedupe_field_def)

end
