(* ===== verification/ScoreRepo.thy ===== *)
theory ScoreRepo
  imports Scripts
begin

section \<open>Score reads and writes (\<open>storage/score_repo.go\<close>, \<open>storage/event_repo.go\<close>)\<close>

text \<open>
  One definition per method of \<open>redisStorage\<close>, over any server \<open>R\<close>. The two writes run the write
  script and decode its reply; the reads are pipelines over the projection, an XRANGE over the
  ledger folded in memory (\<open>ListStandingsAsOf\<close>), or an index page followed by one XRANGE per id
  (\<open>PlayerHistory\<close>).
\<close>

record standing =
  st_player :: string
  st_score :: int
  st_rank :: int

subsection \<open>Writes\<close>

definition apply_code_applied :: int where "apply_code_applied = 1"
definition apply_code_deduped :: int where "apply_code_deduped = 0"
definition apply_code_player_not_found :: int where "apply_code_player_not_found = - 1"
definition apply_code_board_not_found :: int where "apply_code_board_not_found = - 2"
definition apply_code_board_closed :: int where "apply_code_board_closed = - 3"
definition apply_code_idempotency_conflict :: int where "apply_code_idempotency_conflict = - 4"
definition apply_code_score_out_of_range :: int where "apply_code_score_out_of_range = - 5"

lemmas apply_code_defs = apply_code_applied_def apply_code_deduped_def apply_code_player_not_found_def
  apply_code_board_not_found_def apply_code_board_closed_def apply_code_idempotency_conflict_def
  apply_code_score_out_of_range_def

definition score_keys_for :: "string \<Rightarrow> string \<Rightarrow> score_keys" where
  "score_keys_for player_id board_id = \<lparr>sk_zset = leaderboard_key board_id, sk_stream = ledger_key,
     sk_idempotency = idempotency_hash_key, sk_profile = player_profile_key player_id,
     sk_board = board_profile_key board_id\<rparr>"

definition score_args_for :: "string \<Rightarrow> string \<Rightarrow> string \<Rightarrow> int \<Rightarrow> string \<Rightarrow> string \<Rightarrow> score_args" where
  "score_args_for etype player_id board_id amount req_id idemp_key = \<lparr>sa_op = etype,
     sa_player = player_id, sa_amount = format_int amount, sa_request = req_id,
     sa_board = board_id, sa_idem = idemp_key, sa_max = format_int score_max\<rparr>"

definition decode_apply :: "lua_val list \<Rightarrow> serr + unit" where
  "decode_apply result =
     (case result of
        [] \<Rightarrow> Inl BadReply
      | LBulk _ # _ \<Rightarrow> Inl BadReply
      | LInt code # _ \<Rightarrow>
          if code = apply_code_applied \<or> code = apply_code_deduped then Inr ()
          else if code = apply_code_player_not_found then Inl ErrNotFound
          else if code = apply_code_board_not_found then Inl ErrBoardNotFound
          else if code = apply_code_board_closed then Inl ErrBoardClosed
          else if code = apply_code_idempotency_conflict then Inl ErrIdempotencyConflict
          else if code = apply_code_score_out_of_range then Inl ErrScoreOutOfRange
          else Inl BadReply)"

definition apply_event :: "'s redis \<Rightarrow> string \<Rightarrow> string \<Rightarrow> string \<Rightarrow> int \<Rightarrow> string \<Rightarrow> string \<Rightarrow> ('s, unit) go" where
  "apply_event R etype player_id board_id amount req_id idemp_key =
     io_bind (call (apply_score_event R (score_keys_for player_id board_id)
       (score_args_for etype player_id board_id amount req_id idemp_key)))
     (\<lambda>result. io_lift (decode_apply result))"

definition set_score :: "'s redis \<Rightarrow> string \<Rightarrow> string \<Rightarrow> int \<Rightarrow> string \<Rightarrow> string \<Rightarrow> ('s, unit) go" where
  "set_score R player_id board_id score req_id idemp_key =
     apply_event R event_set player_id board_id score req_id idemp_key"

definition increment_score :: "'s redis \<Rightarrow> string \<Rightarrow> string \<Rightarrow> int \<Rightarrow> string \<Rightarrow> string \<Rightarrow> ('s, unit) go" where
  "increment_score R player_id board_id amount req_id idemp_key =
     apply_event R event_increment player_id board_id amount req_id idemp_key"

subsection \<open>Reads of the projection\<close>

datatype pipe_val = PRank "(int \<times> f64) option" | PCard int | PRange "(f64 \<times> string) list"

definition map_cmd :: "('a \<Rightarrow> 'b) \<Rightarrow> ('s, 'a) cmd \<Rightarrow> ('s, 'b) cmd" where
  "map_cmd f c = io_bind c (\<lambda>x. io_ret (f x))"

definition get_standing :: "'s redis \<Rightarrow> string \<Rightarrow> string \<Rightarrow> ('s, standing \<times> int) go" where
  "get_standing R player_id board_id =
     io_bind (pipeline [map_cmd PRank (zrevrank_c R (leaderboard_key board_id) player_id),
                        map_cmd PCard (zcard_c R (leaderboard_key board_id))]) (\<lambda>replies.
       case replies of
         [PRank None, _] \<Rightarrow> io_fail ErrNotFound
       | [PRank (Some (rank, raw)), PCard tot] \<Rightarrow>
           (case z_score_to_int64 raw of
              None \<Rightarrow> io_fail ErrInconsistent
            | Some score \<Rightarrow>
                io_ret (\<lparr>st_player = player_id, st_score = score, st_rank = rank + 1\<rparr>, tot))
       | _ \<Rightarrow> io_fail BadReply)"

text \<open>The rows of one page; an unusable score is skipped and ranks stay positional.\<close>

fun standing_rows :: "int \<Rightarrow> (f64 \<times> string) list \<Rightarrow> standing list" where
  "standing_rows rank [] = []"
| "standing_rows rank ((raw, member) # zs) =
     (case z_score_to_int64 raw of
        None \<Rightarrow> standing_rows (rank + 1) zs
      | Some score \<Rightarrow>
          \<lparr>st_player = member, st_score = score, st_rank = rank\<rparr> # standing_rows (rank + 1) zs)"

definition list_standings :: "'s redis \<Rightarrow> string \<Rightarrow> int \<Rightarrow> int \<Rightarrow> ('s, standing list \<times> int) go" where
  "list_standings R board_id limit offset =
     (if limit \<le> 0
      then io_bind (call (zcard_c R (leaderboard_key board_id))) (\<lambda>tot. io_ret ([], tot))
      else io_bind (pipeline [map_cmd PCard (zcard_c R (leaderboard_key board_id)),
             map_cmd PRange (zrange_c R (leaderboard_key board_id) offset
               (wrap64 (offset + limit - 1)) True)]) (\<lambda>replies.
             case replies of
               [PCard tot, PRange zs] \<Rightarrow> io_ret (standing_rows (offset + 1) zs, tot)
             | _ \<Rightarrow> io_fail BadReply))"

subsection \<open>Time travel\<close>

fun replay_scores :: "ext \<Rightarrow> string \<Rightarrow> xmsg list \<Rightarrow> (string \<times> int) list \<Rightarrow> serr + (string \<times> int) list" where
  "replay_scores X board_id [] scores = Inr scores"
| "replay_scores X board_id (entry # entries) scores =
     (if get_stream_entry_value entry entry_field_board_id \<noteq> board_id
      then replay_scores X board_id entries scores
      else case entry_to_event X entry of
        Inl e \<Rightarrow> Inl e
      | Inr event \<Rightarrow>
          if ev_type event = event_set
          then replay_scores X board_id entries (AList.update (ev_player event) (ev_amount event) scores)
          else if ev_type event = event_increment
          then (let current = (case map_of scores (ev_player event) of None \<Rightarrow> 0 | Some c \<Rightarrow> c);
                    sum = wrap64 (current + ev_amount event)
                in if (0 < ev_amount event \<and> sum < current) \<or> (ev_amount event < 0 \<and> current < sum)
                   then Inl ErrInconsistent
                   else replay_scores X board_id entries (AList.update (ev_player event) sum scores))
          else Inl ErrInconsistent)"

text \<open>Highest score first, ties by descending player id; the rank is the position.\<close>

fun rank_rows :: "int \<Rightarrow> (int \<times> string) list \<Rightarrow> standing list" where
  "rank_rows r [] = []"
| "rank_rows r (row # rows) =
     \<lparr>st_player = snd row, st_score = fst row, st_rank = r\<rparr> # rank_rows (r + 1) rows"

definition sorted_standings :: "(string \<times> int) list \<Rightarrow> standing list" where
  "sorted_standings scores = rank_rows 1 (rev (sort (map prod.swap scores)))"

definition standings_page :: "standing list \<Rightarrow> int \<Rightarrow> int \<Rightarrow> serr + (standing list \<times> int)" where
  "standings_page standings limit offset =
     (let tot = int (length standings)
      in if tot \<le> offset \<or> limit \<le> 0 then Inr ([], tot)
         else let end = min (wrap64 (offset + limit)) tot
              in if offset < 0 \<or> end < offset then Inl Panic
                 else Inr (slice (nat offset) (nat end) standings, tot))"

definition as_of_end_id :: "time \<Rightarrow> string" where
  "as_of_end_id before = ''('' @ format_int (unix_milli before) @ ''-0''"

definition list_standings_as_of :: "ext \<Rightarrow> 's redis \<Rightarrow> string \<Rightarrow> time \<Rightarrow> int \<Rightarrow> int \<Rightarrow>
    ('s, standing list \<times> int) go" where
  "list_standings_as_of X R board_id before limit offset =
     io_bind (call (xrange_c R ledger_key ''-'' (as_of_end_id before) None)) (\<lambda>entries.
       io_lift (sum_bind (replay_scores X board_id entries [])
         (\<lambda>scores. standings_page (sorted_standings scores) limit offset)))"

subsection \<open>Events\<close>

fun history_events :: "ext \<Rightarrow> xmsg list list \<Rightarrow> serr + event list" where
  "history_events X [] = Inr []"
| "history_events X ([] # rs) = history_events X rs"
| "history_events X ((entry # _) # rs) =
     sum_bind (entry_to_event X entry) (\<lambda>event.
       sum_bind (history_events X rs) (\<lambda>events. Inr (event # events)))"

definition player_history :: "ext \<Rightarrow> 's redis \<Rightarrow> string \<Rightarrow> string \<Rightarrow> int \<Rightarrow> ('s, event list) go" where
  "player_history X R player_id board_id limit =
     (if limit \<le> 0 then io_ret []
      else io_bind (call (zrange_c R (player_history_key player_id board_id) 0 (limit - 1) True)) (\<lambda>page.
        let ids = map snd page
        in if ids = [] then io_ret []
           else io_bind (pipeline (map (\<lambda>i. xrange_c R ledger_key i i None) ids)) (\<lambda>replies.
             io_lift (history_events X replies))))"

definition list_events_after :: "ext \<Rightarrow> 's redis \<Rightarrow> string \<Rightarrow> int \<Rightarrow> ('s, event list) go" where
  "list_events_after X R after limit =
     (if limit \<le> 0 then io_ret []
      else io_bind (call (xrange_c R ledger_key (''('' @ after) ''+'' (Some limit))) (\<lambda>entries.
        io_lift (res_map (entry_to_event X) entries)))"

subsection \<open>Ranked lists\<close>

lemma length_rank_rows [simp]: "length (rank_rows r xs) = length xs"
  by (induction xs arbitrary: r) simp_all

lemma drop_rank_rows: "drop k (rank_rows r xs) = rank_rows (r + int k) (drop k xs)"
proof (induction xs arbitrary: k r)
  case (Cons x xs)
  then show ?case by (cases k) (simp_all add: algebra_simps)
qed simp

lemma take_rank_rows: "take k (rank_rows r xs) = rank_rows r (take k xs)"
proof (induction xs arbitrary: k r)
  case (Cons x xs)
  then show ?case by (cases k) simp_all
qed simp

lemma slice_rank_rows: "slice a b (rank_rows r xs) = rank_rows (r + int a) (slice a b xs)"
  by (simp add: slice_def drop_rank_rows take_rank_rows)

lemma standing_rows_int:
  assumes "\<And>row. row \<in> set xs \<Longrightarrow> is_int64 (fst row)"
  shows "standing_rows r (map (\<lambda>row. (Fin (of_int (fst row)), snd row)) xs) = rank_rows r xs"
  using assms
proof (induction xs arbitrary: r)
  case (Cons x xs)
  have "z_score_to_int64 (Fin (of_int (fst x))) = Some (fst x)" using Cons.prems [of x] by simp
  moreover have "standing_rows (r + 1) (map (\<lambda>row. (Fin (of_int (fst row)), snd row)) xs) = rank_rows (r + 1) xs"
    by (rule Cons.IH) (use Cons.prems in auto)
  ultimately show ?case by simp
qed simp

end
