(* ===== verification/LedgerSpec.thy ===== *)
theory LedgerSpec
  imports ScoreRepo
begin

section \<open>What the ledger means: scores by replay, and the invariant of the write script\<close>

text \<open>
  The abstract specification. A board's scores are the replay of its events: a \<open>set\<close> event
  assigns, an \<open>increment\<close> adds to the score so far (0 at first). The invariant \<open>ledger_inv X B\<close>
  says that the ledger holds well-formed entries in id order, that on the boards in \<open>B\<close> no prefix of it
  takes a score out of range and the leaderboard is exactly the replay of the board's events, and that
  the leaderboards of the others are sorted sets. The write script is then characterised on the
  documented server: a decision, and one change of the keyspace.
\<close>

subsection \<open>Replay\<close>

definition replay1 :: "(string \<rightharpoonup> int) \<Rightarrow> event \<Rightarrow> (string \<rightharpoonup> int)" where
  "replay1 m e = m(ev_player e \<mapsto>
     (if ev_type e = event_set then ev_amount e
      else (case m (ev_player e) of None \<Rightarrow> 0 | Some c \<Rightarrow> c) + ev_amount e))"

definition replay :: "event list \<Rightarrow> (string \<rightharpoonup> int)" where
  "replay evs = foldl replay1 Map.empty evs"

definition events_of :: "ext \<Rightarrow> (sid \<times> fields) list \<Rightarrow> event list" where
  "events_of X es =
     concat (map (\<lambda>e. case entry_to_event X (to_msg e) of Inl _ \<Rightarrow> [] | Inr ev \<Rightarrow> [ev]) es)"

definition board_events :: "ext \<Rightarrow> string \<Rightarrow> (sid \<times> fields) list \<Rightarrow> event list" where
  "board_events X b es = filter (\<lambda>ev. ev_board ev = b) (events_of X es)"

definition board_scores :: "ext \<Rightarrow> string \<Rightarrow> (sid \<times> fields) list \<Rightarrow> (string \<rightharpoonup> int)" where
  "board_scores X b es = replay (board_events X b es)"

lemma replay_Nil [simp]: "replay [] = Map.empty"
  by (simp add: replay_def)

lemma replay_snoc [simp]: "replay (evs @ [e]) = replay1 (replay evs) e"
  by (simp add: replay_def)

lemma events_of_append [simp]: "events_of X (xs @ ys) = events_of X xs @ events_of X ys"
  by (simp add: events_of_def)

lemma events_of_Nil [simp]: "events_of X [] = []"
  by (simp add: events_of_def)

lemma events_of_single: "entry_to_event X (to_msg e) = Inr ev \<Longrightarrow> events_of X [e] = [ev]"
  by (simp add: events_of_def)

lemma board_scores_Nil [simp]: "board_scores X b [] = Map.empty"
  by (simp add: board_scores_def board_events_def)

lemma board_scores_snoc:
  assumes "entry_to_event X (to_msg e) = Inr ev"
  shows "board_scores X b (es @ [e]) =
    (if ev_board ev = b then replay1 (board_scores X b es) ev else board_scores X b es)"
  using assms by (simp add: board_scores_def board_events_def events_of_single)

text \<open>A \<open>set\<close> is a snapshot barrier: the player's score does not depend on what came before.\<close>

lemma replay_barrier:
  assumes "ev_type e = event_set"
  shows "replay (xs @ e # ys) (ev_player e) = replay (e # ys) (ev_player e)"
proof -
  have step: "foldl replay1 m ys p = foldl replay1 m' ys p" if "m p = m' p" for m m' p
    using that
  proof (induction ys arbitrary: m m')
    case (Cons y ys)
    from Cons.prems have "replay1 m y p = replay1 m' y p"
      by (cases "p = ev_player y") (simp_all add: replay1_def)
    then have "foldl replay1 (replay1 m y) ys p = foldl replay1 (replay1 m' y) ys p" by (rule Cons.IH)
    then show ?case by simp
  qed simp
  have "replay1 (replay xs) e (ev_player e) = replay1 Map.empty e (ev_player e)"
    using assms by (simp add: replay1_def)
  then have "foldl replay1 (replay1 (replay xs) e) ys (ev_player e) =
      foldl replay1 (replay1 Map.empty e) ys (ev_player e)"
    by (rule step)
  then show ?thesis by (simp add: replay_def)
qed

subsection \<open>The invariant\<close>

definition scores_bounded :: "(string \<rightharpoonup> int) \<Rightarrow> bool" where
  "scores_bounded m \<longleftrightarrow> (\<forall>p n. m p = Some n \<longrightarrow> score_validate n)"

definition ledger_sound :: "ext \<Rightarrow> string set \<Rightarrow> (sid \<times> fields) list \<Rightarrow> bool" where
  "ledger_sound X B es \<longleftrightarrow> stream_ok es \<and> (\<forall>e \<in> set es. \<exists>ev. entry_to_event X (to_msg e) = Inr ev) \<and>
     (\<forall>b \<in> B. \<forall>k. scores_bounded (board_scores X b (take k es)))"

definition ledger_wf :: "ext \<Rightarrow> (sid \<times> fields) list \<Rightarrow> bool" where
  "ledger_wf X es \<longleftrightarrow> ledger_sound X UNIV es"

definition as_scores :: "(string \<rightharpoonup> int) \<Rightarrow> (string \<rightharpoonup> f64)" where
  "as_scores m = (\<lambda>p. map_option (\<lambda>n. Fin (of_int n)) (m p))"

definition projection_ok :: "keyspace \<Rightarrow> string \<Rightarrow> (string \<rightharpoonup> int) \<Rightarrow> bool" where
  "projection_ok ks key m \<longleftrightarrow> (\<exists>z. as_zset (ks key) = Some z \<and> z_ok z \<and> z_map z = as_scores m)"

text \<open>A sorted set without NaN, which is all a leaderboard is while a rebuild is under way.\<close>

definition zset_ok :: "rval option \<Rightarrow> bool" where
  "zset_ok v \<longleftrightarrow> (\<exists>z. as_zset v = Some z \<and> z_ok z \<and> NaN \<notin> fst ` set z)"

definition ledger_of :: "keyspace \<Rightarrow> (sid \<times> fields) list" where
  "ledger_of ks = (case as_stream (ks ledger_key) of None \<Rightarrow> [] | Some es \<Rightarrow> es)"

definition ledger_inv :: "ext \<Rightarrow> string set \<Rightarrow> keyspace \<Rightarrow> bool" where
  "ledger_inv X B ks \<longleftrightarrow>
     as_stream (ks ledger_key) = Some (ledger_of ks) \<and> ledger_sound X B (ledger_of ks) \<and>
     (\<forall>b \<in> B. projection_ok ks (leaderboard_key b) (board_scores X b (ledger_of ks))) \<and>
     (\<forall>b. zset_ok (ks (leaderboard_key b)))"

lemma as_scores_empty [simp]: "as_scores Map.empty = Map.empty"
  by (rule ext) (simp add: as_scores_def)

lemma as_scores_upd [simp]: "as_scores (m(p \<mapsto> n)) = (as_scores m)(p \<mapsto> Fin (of_int n))"
  by (rule ext) (simp add: as_scores_def)

lemma as_scores_inject [simp]: "as_scores m = as_scores m' \<longleftrightarrow> m = m'"
proof
  assume eq: "as_scores m = as_scores m'"
  show "m = m'"
  proof
    fix p from eq have "as_scores m p = as_scores m' p" by simp
    then show "m p = m' p" by (cases "m p"; cases "m' p") (auto simp: as_scores_def)
  qed
qed simp

lemma ledger_sound_stream: "ledger_sound X B es \<Longrightarrow> stream_ok es"
  and ledger_sound_decode: "ledger_sound X B es \<Longrightarrow> e \<in> set es \<Longrightarrow> \<exists>ev. entry_to_event X (to_msg e) = Inr ev"
  by (simp_all add: ledger_sound_def)

lemma ledger_sound_subset: "ledger_sound X B es \<Longrightarrow> B' \<subseteq> B \<Longrightarrow> ledger_sound X B' es"
  unfolding ledger_sound_def by blast

lemma ledger_wf_sound: "ledger_wf X es \<Longrightarrow> ledger_sound X B es"
  using ledger_sound_subset [of X UNIV es B] by (simp add: ledger_wf_def)

lemma ledger_wf_Nil [simp]: "ledger_wf X []"
  by (simp add: ledger_wf_def ledger_sound_def stream_ok_def scores_bounded_def)

lemma zset_ok_None [simp]: "zset_ok None"
  by (simp add: zset_ok_def z_ok_def)

lemma zset_ok_ZSet [simp]: "zset_ok (Some (ZSet z)) \<longleftrightarrow> z_ok z \<and> NaN \<notin> fst ` set z"
  by (simp add: zset_ok_def)

lemma ledger_inv_empty: "ledger_inv X B Map.empty"
  by (simp add: ledger_inv_def ledger_of_def projection_ok_def z_ok_def ledger_sound_def stream_ok_def scores_bounded_def)

lemma ledger_sound_snoc:
  assumes "ledger_sound X B es" "sid_ok i" "last_sid es < i"
    and "entry_to_event X (to_msg (i, fs)) = Inr ev"
    and "ev_board ev \<in> B \<Longrightarrow> scores_bounded (replay1 (board_scores X (ev_board ev) es) ev)"
  shows "ledger_sound X B (es @ [(i, fs)])"
proof -
  have "scores_bounded (board_scores X b (take k (es @ [(i, fs)])))" if "b \<in> B" for b k
  proof (cases "k \<le> length es")
    case True
    then show ?thesis using assms(1) that by (simp add: ledger_sound_def)
  next
    case False
    then have "take k (es @ [(i, fs)]) = es @ [(i, fs)]" by simp
    moreover have "scores_bounded (board_scores X b es)"
      using assms(1) that unfolding ledger_sound_def by (metis take_all_iff order_refl)
    ultimately show ?thesis
      using assms(5) that by (cases "ev_board ev = b") (simp_all add: board_scores_snoc [OF assms(4)] del: take_append)
  qed
  then show ?thesis using assms stream_ok_append by (auto simp: ledger_sound_def)
qed

lemma ledger_of_upd [simp]: "k \<noteq> ledger_key \<Longrightarrow> ledger_of (ks(k := v)) = ledger_of ks"
  by (simp add: ledger_of_def)

lemma ledger_of_Stream [simp]: "ledger_of (ks(ledger_key \<mapsto> Stream es)) = es"
  by (simp add: ledger_of_def)

lemma projection_ok_upd [simp]: "k \<noteq> key \<Longrightarrow> projection_ok (ks(k := v)) key m = projection_ok ks key m"
  by (simp add: projection_ok_def)

text \<open>What concerns neither the ledger nor a leaderboard does not concern the invariant.\<close>

lemma ledger_inv_frame:
  "ks' ledger_key = ks ledger_key \<Longrightarrow> (\<And>b. ks' (leaderboard_key b) = ks (leaderboard_key b)) \<Longrightarrow>
    ledger_inv X B ks' = ledger_inv X B ks"
  by (simp add: ledger_inv_def ledger_of_def projection_ok_def)

lemma ledger_inv_stream: "ledger_inv X B ks \<Longrightarrow> as_stream (ks ledger_key) = Some (ledger_of ks)"
  by (simp add: ledger_inv_def)

lemma ledger_inv_bounded: "ledger_inv X B ks \<Longrightarrow> b \<in> B \<Longrightarrow> scores_bounded (board_scores X b (ledger_of ks))"
  unfolding ledger_inv_def ledger_sound_def by (metis take_all_iff order_refl)

lemma ledger_inv_stream_ok: "ledger_inv X B ks \<Longrightarrow> stream_ok (ledger_of ks)"
  by (simp add: ledger_inv_def ledger_sound_def)

lemma ledger_inv_wf: "ledger_inv X UNIV ks \<Longrightarrow> ledger_wf X (ledger_of ks)"
  by (simp add: ledger_inv_def ledger_wf_def)

text \<open>Fewer boards are covered by a weaker invariant; a right leaderboard extends the cover.\<close>

lemma ledger_inv_subset: "ledger_inv X B ks \<Longrightarrow> B' \<subseteq> B \<Longrightarrow> ledger_inv X B' ks"
  unfolding ledger_inv_def using ledger_sound_subset by blast

lemma ledger_inv_insert:
  assumes "ledger_inv X B ks" "projection_ok ks (leaderboard_key b) (board_scores X b (ledger_of ks))"
    and "ledger_sound X {b} (ledger_of ks)"
  shows "ledger_inv X (insert b B) ks"
  using assms by (auto simp: ledger_inv_def ledger_sound_def)

text \<open>Appending one event and applying it to its board keeps the invariant.\<close>

lemma ledger_inv_append:
  assumes inv: "ledger_inv X B ks" and i: "sid_ok i" "last_sid (ledger_of ks) < i"
    and dec: "entry_to_event X (to_msg (i, fs)) = Inr ev"
    and new: "replay1 (board_scores X (ev_board ev) (ledger_of ks)) ev =
      (board_scores X (ev_board ev) (ledger_of ks))(ev_player ev \<mapsto> n)" "score_validate n"
    and b: "ev_board ev \<in> B" and z: "as_zset (ks (leaderboard_key (ev_board ev))) = Some z"
  shows "ledger_inv X B (ks(leaderboard_key (ev_board ev) \<mapsto> ZSet (z_add (Fin (of_int n)) (ev_player ev) z),
    ledger_key \<mapsto> Stream (ledger_of ks @ [(i, fs)])))"
    (is "ledger_inv X B ?ks")
proof -
  let ?b = "ev_board ev" and ?es = "ledger_of ks"
  have z': "z_ok z" "z_map z = as_scores (board_scores X ?b ?es)"
    using inv b z unfolding ledger_inv_def projection_ok_def by (metis option.inject)+
  have "scores_bounded (replay1 (board_scores X ?b ?es) ev)"
    using ledger_inv_bounded [OF inv b] new by (auto simp: scores_bounded_def)
  then have wf: "ledger_sound X B (?es @ [(i, fs)])"
    using inv i dec by (intro ledger_sound_snoc) (auto simp: ledger_inv_def)
  have "projection_ok ?ks (leaderboard_key b) (board_scores X b (?es @ [(i, fs)]))" if "b \<in> B" for b
  proof (cases "b = ?b")
    case True
    with z' new z_add_ok [OF z'(1)] show ?thesis
      by (auto simp: projection_ok_def board_scores_snoc [OF dec])
  next
    case False
    with inv that show ?thesis
      by (auto simp: projection_ok_def ledger_inv_def board_scores_snoc [OF dec])
  qed
  moreover have "NaN \<notin> fst ` set z" using inv z unfolding ledger_inv_def zset_ok_def by (metis option.inject)
  then have "zset_ok (?ks (leaderboard_key b))" for b
    using inv z_add_ok [OF z'(1)] by (auto simp: ledger_inv_def set_z_add)
  ultimately show ?thesis using wf by (simp add: ledger_inv_def)
qed

text \<open>What another board's write does: an entry, and whatever its leaderboard becomes.\<close>

lemma ledger_inv_append_other:
  assumes inv: "ledger_inv X B ks" and i: "sid_ok i" "last_sid (ledger_of ks) < i"
    and dec: "entry_to_event X (to_msg (i, fs)) = Inr ev" and b: "ev_board ev \<notin> B"
    and z: "z_ok z" "NaN \<notin> fst ` set z"
  shows "ledger_inv X B (ks(leaderboard_key (ev_board ev) \<mapsto> ZSet z, ledger_key \<mapsto> Stream (ledger_of ks @ [(i, fs)])))"
    (is "ledger_inv X B ?ks")
proof -
  have "ledger_sound X B (ledger_of ks @ [(i, fs)])"
    using inv i dec b by (intro ledger_sound_snoc) (auto simp: ledger_inv_def)
  moreover have "projection_ok ?ks (leaderboard_key c) (board_scores X c (ledger_of ks @ [(i, fs)]))" if "c \<in> B" for c
    using inv that b by (auto simp: projection_ok_def ledger_inv_def board_scores_snoc [OF dec])
  moreover have "zset_ok (?ks (leaderboard_key c))" for c
    using inv z by (auto simp: ledger_inv_def)
  ultimately show ?thesis by (simp add: ledger_inv_def)
qed

subsection \<open>The decision of a score write\<close>

definition idem_record :: "keyspace \<Rightarrow> string \<Rightarrow> string \<Rightarrow> string \<Rightarrow> string option" where
  "idem_record ks b p idem =
     (if idem = [] then None
      else case as_hash (ks idempotency_hash_key) of
             None \<Rightarrow> None | Some h \<Rightarrow> map_of h (dedupe_field b p idem))"

definition board_state_of :: "keyspace \<Rightarrow> string \<Rightarrow> string option" where
  "board_state_of ks b =
     (case as_hash (ks (board_profile_key b)) of None \<Rightarrow> None | Some h \<Rightarrow> map_of h ''board_state'')"

definition new_score :: "(string \<rightharpoonup> int) \<Rightarrow> string \<Rightarrow> string \<Rightarrow> int \<Rightarrow> int" where
  "new_score m etype p n =
     (if etype = event_set then n else (case m p of None \<Rightarrow> 0 | Some c \<Rightarrow> c) + n)"

text \<open>The reply that rejects the write or answers it from its record; none when it is applied.\<close>

definition decide :: "(string \<rightharpoonup> int) \<Rightarrow> keyspace \<Rightarrow> string \<Rightarrow> string \<Rightarrow> string \<Rightarrow> int \<Rightarrow> string \<Rightarrow>
    (int \<times> string) option" where
  "decide m ks etype p b n idem =
     (case idem_record ks b p idem of
        Some v \<Rightarrow> (case check_record v etype (format_int n) of Inr r \<Rightarrow> Some r | Inl _ \<Rightarrow> None)
      | None \<Rightarrow>
          if ks (player_profile_key p) = None then Some (apply_code_player_not_found, [])
          else if ks (board_profile_key b) = None then Some (apply_code_board_not_found, [])
          else if board_state_of ks b = Some board_closed then Some (apply_code_board_closed, [])
          else if \<not> score_validate (new_score m etype p n) then Some (apply_code_score_out_of_range, [])
          else None)"

text \<open>The hashes a write reads have their type, and every record has the form a write gave it.\<close>

definition hashes_ok :: "keyspace \<Rightarrow> bool" where
  "hashes_ok ks \<longleftrightarrow>
     (\<forall>b. as_hash (ks (board_profile_key b)) \<noteq> None) \<and>
     (\<exists>h. as_hash (ks idempotency_hash_key) = Some h \<and>
        (\<forall>f v. map_of h f = Some v \<longrightarrow>
          (\<exists>e op a. v = record_value e op a \<and> CHR ''|'' \<notin> set e \<and> CHR ''|'' \<notin> set op)))"

definition score_applied :: "sid \<Rightarrow> string \<Rightarrow> string \<Rightarrow> string \<Rightarrow> int \<Rightarrow> int \<Rightarrow> string \<Rightarrow> string \<Rightarrow> keyspace \<Rightarrow> keyspace" where
  "score_applied i etype p b n new rq idem ks =
     (let z = (case as_zset (ks (leaderboard_key b)) of None \<Rightarrow> [] | Some z \<Rightarrow> z);
          ks' = ks(leaderboard_key b \<mapsto> ZSet (z_add (Fin (of_int new)) p z),
                   ledger_key \<mapsto> Stream (ledger_of ks @ [(i, ledger_fields etype p b (format_int n) rq)]));
          h = (case as_hash (ks idempotency_hash_key) of None \<Rightarrow> [] | Some h \<Rightarrow> h)
      in if idem = [] then ks'
         else ks'(idempotency_hash_key \<mapsto> Hash (AList.update (dedupe_field b p idem)
                (record_value (show_sid i) etype (format_int n)) h)))"

subsection \<open>A board's events, prefix by prefix\<close>

definition bounded_replay :: "(string \<rightharpoonup> int) \<Rightarrow> event list \<Rightarrow> bool" where
  "bounded_replay m evs \<longleftrightarrow> (\<forall>k. scores_bounded (foldl replay1 m (take k evs)))"

lemma bounded_replay_Cons:
  "bounded_replay m (e # evs) \<longleftrightarrow> scores_bounded m \<and> bounded_replay (replay1 m e) evs"
proof
  assume b: "bounded_replay m (e # evs)"
  then have "scores_bounded (foldl replay1 m (take (Suc k) (e # evs)))" for k
    unfolding bounded_replay_def by blast
  moreover have "scores_bounded (foldl replay1 m (take 0 (e # evs)))"
    using b unfolding bounded_replay_def by blast
  ultimately show "scores_bounded m \<and> bounded_replay (replay1 m e) evs"
    by (simp add: bounded_replay_def)
next
  assume "scores_bounded m \<and> bounded_replay (replay1 m e) evs"
  then show "bounded_replay m (e # evs)"
    unfolding bounded_replay_def by (metis foldl_Cons foldl_Nil take_Cons' )
qed

lemma board_events_prefix: "\<exists>k'. take k (board_events X b es) = board_events X b (take k' es)"
proof (induction es rule: rev_induct)
  case (snoc e es)
  show ?case
  proof (cases "k \<le> length (board_events X b es)")
    case True
    then have "take k (board_events X b (es @ [e])) = take k (board_events X b es)"
      by (simp add: board_events_def)
    with snoc obtain k' where "take k (board_events X b (es @ [e])) = board_events X b (take k' es)" by auto
    moreover have "take k' es = take (min k' (length es)) (es @ [e])" by (cases "k' \<le> length es") auto
    ultimately show ?thesis by metis
  next
    case False
    have "length (events_of X [e]) \<le> 1" by (simp add: events_of_def split: sum.split)
    then have "length (board_events X b (es @ [e])) \<le> Suc (length (board_events X b es))"
      using length_filter_le [of "\<lambda>ev. ev_board ev = b" "events_of X [e]"]
      by (simp add: board_events_def del: length_filter_le)
    with False have "take k (board_events X b (es @ [e])) = board_events X b (take (Suc (length es)) (es @ [e]))"
      by simp
    then show ?thesis by blast
  qed
qed (simp add: board_events_def)

lemma ledger_sound_bounded: "ledger_sound X B es \<Longrightarrow> b \<in> B \<Longrightarrow> bounded_replay Map.empty (board_events X b es)"
  unfolding bounded_replay_def
proof
  fix k assume wf: "ledger_sound X B es" "b \<in> B"
  obtain k' where "take k (board_events X b es) = board_events X b (take k' es)"
    using board_events_prefix by blast
  then have "foldl replay1 Map.empty (take k (board_events X b es)) = board_scores X b (take k' es)"
    by (simp add: board_scores_def replay_def)
  then show "scores_bounded (foldl replay1 Map.empty (take k (board_events X b es)))"
    using wf by (simp add: ledger_sound_def)
qed

lemma ledger_wf_bounded: "ledger_wf X es \<Longrightarrow> bounded_replay Map.empty (board_events X b es)"
  using ledger_sound_bounded [of X UNIV es b] by (simp add: ledger_wf_def)

definition sound_events :: "event list \<Rightarrow> bool" where
  "sound_events evs \<longleftrightarrow>
     (\<forall>e \<in> set evs. (ev_type e = event_set \<or> ev_type e = event_increment) \<and> score_validate (ev_amount e))"

lemma board_events_sound: "sound_events (board_events X b es)"
proof -
  have "(ev_type ev = event_set \<or> ev_type ev = event_increment) \<and> score_validate (ev_amount ev)"
    if "ev \<in> set (events_of X es)" for ev
  proof -
    have "\<exists>e \<in> set es. entry_to_event X (to_msg e) = Inr ev"
      using that by (force simp: events_of_def split: sum.splits)
    then show ?thesis by (auto dest: entry_to_event_Inr)
  qed
  then show ?thesis by (auto simp: sound_events_def board_events_def)
qed

lemma replay1_new_score: "replay1 m e = m(ev_player e \<mapsto> new_score m (ev_type e) (ev_player e) (ev_amount e))"
  by (simp add: replay1_def new_score_def)

end
