(* ===== verification/LedgerRun.thy ===== *)
theory LedgerRun
  imports LedgerSpec
begin

section \<open>The write script meets its specification\<close>

text \<open>
  First the script on the documented server, stage by stage, then on any server: the stages up to
  XADD behave the same on both, and XADD assigns some id above the last one. The rest are the
  consequences for \<open>SetScore\<close> and \<open>IncrementScore\<close>.
\<close>

subsection \<open>On the documented server\<close>

lemma hashes_ok_record:
  assumes "hashes_ok ks" "idem_record ks b p idem = Some v"
  obtains e op a where "v = record_value e op a" "CHR ''|'' \<notin> set e" "CHR ''|'' \<notin> set op"
proof -
  obtain h where "as_hash (ks idempotency_hash_key) = Some h"
    "\<And>f v. map_of h f = Some v \<Longrightarrow> \<exists>e op a. v = record_value e op a \<and> CHR ''|'' \<notin> set e \<and> CHR ''|'' \<notin> set op"
    using assms(1) unfolding hashes_ok_def by blast
  moreover from this have "map_of h (dedupe_field b p idem) = Some v"
    using assms(2) by (auto simp: idem_record_def split: if_splits)
  ultimately show ?thesis using that by blast
qed

lemma doc_idem_lookup:
  assumes ok: "hashes_ok ks"
  shows "idem_lookup (doc_redis i) idempotency_hash_key b p idem op amount ks =
    (Inr (case idem_record ks b p idem of None \<Rightarrow> None
        | Some v \<Rightarrow> (case check_record v op amount of Inr r \<Rightarrow> Some r | Inl _ \<Rightarrow> None)), ks)"
proof -
  obtain h where h: "as_hash (ks idempotency_hash_key) = Some h" using ok by (auto simp: hashes_ok_def)
  show ?thesis
  proof (cases "idem_record ks b p idem")
    case None
    with h show ?thesis
      by (cases "idem = []") (simp_all add: idem_lookup_def idem_record_def doc_cmds io_bind_def)
  next
    case (Some v)
    then have look: "idem \<noteq> []" "map_of h (dedupe_field b p idem) = Some v"
      using h by (auto simp: idem_record_def split: if_splits)
    obtain e op' a where "v = record_value e op' a" "CHR ''|'' \<notin> set e" "CHR ''|'' \<notin> set op'"
      using hashes_ok_record [OF ok Some] by blast
    with h look Some show ?thesis
      by (simp add: idem_lookup_def doc_cmds io_bind_def check_record_value)
  qed
qed

lemma doc_existence_check:
  assumes "hashes_ok ks"
  shows "existence_check (doc_redis i) (player_profile_key p) (board_profile_key b) ks =
    (Inr (if ks (player_profile_key p) = None then Some (- 1)
          else if ks (board_profile_key b) = None then Some (- 2)
          else if board_state_of ks b = Some board_closed then Some (- 3) else None), ks)"
proof -
  obtain h where "as_hash (ks (board_profile_key b)) = Some h"
    using assms unfolding hashes_ok_def by blast
  then show ?thesis
    by (simp add: existence_check_def doc_cmds io_bind_def board_state_of_def board_closed_def)
qed

lemma score_add:
  assumes "scores_bounded m" "score_validate n"
  shows "f64_add (case as_scores m p of None \<Rightarrow> Fin 0 | Some c \<Rightarrow> c) (Fin (of_int n)) =
    Fin (of_int ((case m p of None \<Rightarrow> 0 | Some c \<Rightarrow> c) + n))"
proof (cases "m p")
  case None
  with score_sum_exact [of 0 n] assms show ?thesis
    by (simp add: as_scores_def score_validate_abs score_max_def)
next
  case (Some c)
  with assms(1) have "score_validate c" by (auto simp: scores_bounded_def)
  with score_sum_exact [of c n] assms Some show ?thesis by (simp add: as_scores_def)
qed

lemma doc_resulting_score:
  assumes "as_zset (ks key) = Some z" "z_map z = as_scores m" "scores_bounded m" "score_validate n"
  shows "resulting_score (doc_redis i) key p op (Fin (of_int n)) ks =
    (Inr (Fin (of_int (new_score m op p n))), ks)"
proof (cases "op = ''set''")
  case True
  with assms score_add [of Map.empty n p] show ?thesis
    by (simp add: resulting_score_def new_score_def event_set_def scores_bounded_def as_scores_def
        del: f64_add.simps)
next
  case False
  with assms score_add [of m n p] show ?thesis
    by (simp add: resulting_score_def doc_cmds io_bind_def new_score_def event_set_def
        del: f64_add.simps of_int_add)
qed

lemma doc_apply_projection:
  assumes "as_zset (ks key) = Some z" "z_map z = as_scores m" "scores_bounded m" "score_validate n"
  shows "apply_projection (doc_redis i) key p op (Fin (of_int n)) ks =
    (Inr (), ks(key \<mapsto> ZSet (z_add (Fin (of_int (new_score m op p n))) p z)))"
proof (cases "m p")
  case None
  with assms show ?thesis
    by (simp add: apply_projection_def doc_cmds io_bind_def new_score_def event_set_def as_scores_def
        Let_def)
next
  case (Some c)
  with assms score_add [of m n p] show ?thesis
    by (simp add: apply_projection_def doc_cmds io_bind_def new_score_def event_set_def as_scores_def
        Let_def del: f64_add.simps of_int_add)
qed

lemma doc_append_and_record:
  assumes "as_stream (ks ledger_key) = Some es" "as_hash (ks idempotency_hash_key) = Some h"
  shows "append_and_record (doc_redis i) (score_keys_for p b) (score_args_for op p b n rq idem) ks =
    (Inr (lua_result (1, show_sid i)),
     (let ks' = ks(ledger_key \<mapsto> Stream (es @ [(i, ledger_fields op p b (format_int n) rq)]))
      in if idem = [] then ks'
         else ks'(idempotency_hash_key \<mapsto> Hash (AList.update (dedupe_field b p idem)
                (record_value (show_sid i) op (format_int n)) h))))"
  using assms
  by (simp add: append_and_record_def score_keys_for_def score_args_for_def doc_cmds io_bind_def
      record_idempotency_def)

lemma score_max_tonumber: "lua_tonumber (format_int score_max) = Some (Fin (of_int score_max))"
  using lua_tonumber_format [of score_max] score_exact [of score_max]
  by (simp add: score_validate_abs score_max_def)

lemma validate_f64:
  "(f64_lt (Fin (of_int score_max)) (Fin (of_int v)) \<or> f64_lt (Fin (of_int v)) (Fin (- of_int score_max))) \<longleftrightarrow>
    \<not> score_validate v"
proof -
  have "(of_int v < - (of_int score_max :: rat)) = (v < - score_max)"
    by (metis of_int_less_iff of_int_minus)
  then show ?thesis by (auto simp: score_validate_def score_min_def)
qed

theorem doc_apply_script:
  assumes inv: "ledger_inv X B ks" and ok: "hashes_ok ks" and n: "score_validate n"
    and cov: "b \<in> B \<or> board_state_of ks b = Some board_closed"
  shows "apply_score_event (doc_redis i) (score_keys_for p b) (score_args_for op p b n rq idem) ks =
    (case decide (board_scores X b (ledger_of ks)) ks op p b n idem of
       Some r \<Rightarrow> (Inr (lua_result r), ks)
     | None \<Rightarrow> (Inr (lua_result (1, show_sid i)),
         score_applied i op p b n (new_score (board_scores X b (ledger_of ks)) op p n) rq idem ks))"
  (is "?run = _")
proof -
  let ?m = "board_scores X b (ledger_of ks)"
  obtain z where z: "b \<in> B \<Longrightarrow> as_zset (ks (leaderboard_key b)) = Some z" "b \<in> B \<Longrightarrow> z_map z = as_scores ?m"
    using inv by (auto simp: ledger_inv_def projection_ok_def)
  obtain h where h: "as_hash (ks idempotency_hash_key) = Some h" using ok by (auto simp: hashes_ok_def)
  note res = doc_resulting_score [of ks "leaderboard_key b" z ?m n] and
    proj = doc_apply_projection [of ks "leaderboard_key b" z ?m n]
  note es = ledger_inv_stream [OF inv]
  have num: "lua_tonumber (format_int n) = Some (Fin (of_int n))"
    using lua_tonumber_format [of n] score_exact [OF n] n
    by (simp add: score_validate_abs score_max_def)
  have args: "sa_op (score_args_for op p b n rq idem) = op" "sa_player (score_args_for op p b n rq idem) = p"
    "sa_amount (score_args_for op p b n rq idem) = format_int n"
    "sa_board (score_args_for op p b n rq idem) = b" "sa_idem (score_args_for op p b n rq idem) = idem"
    "sa_max (score_args_for op p b n rq idem) = format_int score_max"
    and keys: "sk_zset (score_keys_for p b) = leaderboard_key b"
    "sk_idempotency (score_keys_for p b) = idempotency_hash_key"
    "sk_profile (score_keys_for p b) = player_profile_key p"
    "sk_board (score_keys_for p b) = board_profile_key b"
    by (simp_all add: score_args_for_def score_keys_for_def)
  show ?thesis
  proof (cases "idem_record ks b p idem")
    case (Some v)
    obtain e op' a where "v = record_value e op' a" "CHR ''|'' \<notin> set e" "CHR ''|'' \<notin> set op'"
      using hashes_ok_record [OF ok Some] by blast
    with Some show ?thesis
      by (simp add: apply_score_event_def io_bind_def keys args doc_idem_lookup [OF ok] decide_def
          check_record_value)
  next
    case None
    show ?thesis
    proof (cases "b \<in> B")
      case False
      with cov None show ?thesis
        by (auto simp: apply_score_event_def apply_new_def io_bind_def keys args
            doc_idem_lookup [OF ok] doc_existence_check [OF ok] decide_def apply_code_defs)
    next
      case True
      note z = z [OF True] and bd = ledger_inv_bounded [OF inv True]
      have app: "append_and_record (doc_redis i) (score_keys_for p b) (score_args_for op p b n rq idem)
          (ks(leaderboard_key b \<mapsto> ZSet (z_add (Fin (of_int (new_score ?m op p n))) p z))) =
        (Inr (lua_result (1, show_sid i)), score_applied i op p b n (new_score ?m op p n) rq idem ks)"
        using es h z(1)
        by (subst doc_append_and_record [where es = "ledger_of ks" and h = h])
          (simp_all add: score_applied_def Let_def)
      show ?thesis
        using None
        by (simp add: apply_score_event_def apply_new_def apply_checked_def io_bind_def keys args doc_idem_lookup [OF ok]
            doc_existence_check [OF ok] num score_max_tonumber res [OF z bd n]
            validate_f64 proj [OF z bd n] app decide_def apply_code_defs del: f64_lt.simps)
    qed
  qed
qed

lemma doc_reads_score: "snd (resulting_score (doc_redis i) k p op d ks) = ks"
  by (auto simp: resulting_score_def io_bind_def doc_cmds split: option.splits prod.splits sum.splits if_splits)

text \<open>
  Whatever a leaderboard holds, a run of the script does nothing, or appends its entry, records it and
  leaves another sorted set.
\<close>

definition appended :: "sid \<Rightarrow> string \<Rightarrow> string \<Rightarrow> string \<Rightarrow> int \<Rightarrow> string \<Rightarrow> string \<Rightarrow> (f64 \<times> string) list \<Rightarrow>
    keyspace \<Rightarrow> keyspace" where
  "appended i op p b n rq idem z ks = (score_applied i op p b n 0 rq idem ks)(leaderboard_key b \<mapsto> ZSet z)"

definition zset_step :: "keyspace \<Rightarrow> string \<Rightarrow> keyspace \<Rightarrow> bool" where
  "zset_step ks k ks' \<longleftrightarrow> (\<exists>z. z_ok z \<and> NaN \<notin> fst ` set z \<and> ks' = ks(k \<mapsto> ZSet z))"

lemma zset_step_add:
  assumes "zset_ok (ks k)" "d \<noteq> NaN"
  obtains z where "as_zset (ks k) = Some z" "zset_step ks k (ks(k \<mapsto> ZSet (z_add d m z)))"
proof -
  obtain z where z: "as_zset (ks k) = Some z" "z_ok z" "NaN \<notin> fst ` set z" using assms(1) by (auto simp: zset_ok_def)
  have "NaN \<notin> fst ` set (z_add d m z)" using assms(2) z(3) by (auto simp: set_z_add)
  with z z_add_ok [OF z(2), of d m] that show thesis unfolding zset_step_def by blast
qed

lemma doc_zadd_zset:
  assumes ok: "zset_ok (ks k)" and run: "zadd_c (doc_redis i) k d m ks = (r, ks')"
  shows "ks' = ks \<and> isl r \<or> r = Inr () \<and> zset_step ks k ks'"
proof (cases "d = NaN")
  case True
  with run ok show ?thesis by (auto simp: doc_cmds zset_ok_def)
next
  case False
  with zset_step_add [where ks = ks and k = k, OF ok] obtain z where
    "as_zset (ks k) = Some z" "zset_step ks k (ks(k \<mapsto> ZSet (z_add d m z)))" by blast
  with run False show ?thesis by (auto simp: doc_cmds)
qed

lemma doc_zincrby_zset:
  assumes ok: "zset_ok (ks k)" and run: "zincrby_c (doc_redis i) k d m ks = (r, ks')"
  shows "ks' = ks \<and> isl r \<or> (\<exists>x. r = Inr x) \<and> zset_step ks k ks'"
proof -
  obtain z where z: "as_zset (ks k) = Some z" using ok by (auto simp: zset_ok_def)
  define d' where "d' = (case z_map z m of None \<Rightarrow> d | Some c \<Rightarrow> f64_add c d)"
  have res: "(r, ks') = (if d' = NaN then (r, ks) else (Inr d', ks(k \<mapsto> ZSet (z_add d' m z)))) \<and> (d' = NaN \<longrightarrow> isl r)"
    using run z by (auto simp: doc_cmds Let_def d'_def split: if_splits)
  show ?thesis
  proof (cases "d' = NaN")
    case True
    with res show ?thesis by simp
  next
    case False
    with zset_step_add [where ks = ks and k = k, OF ok] z have "zset_step ks k (ks(k \<mapsto> ZSet (z_add d' m z)))"
      by (metis option.inject)
    with res False show ?thesis by simp
  qed
qed

lemma doc_apply_projection_zset:
  assumes ok: "zset_ok (ks k)" and run: "apply_projection (doc_redis i) k p op x ks = (r, ks')"
  shows "ks' = ks \<and> isl r \<or> r = Inr () \<and> zset_step ks k ks'"
proof (cases "op = ''set''")
  case True
  with doc_zadd_zset [where ks = ks and k = k, OF ok] run show ?thesis by (simp add: apply_projection_def)
next
  case False
  obtain r1 ks1 where inc: "zincrby_c (doc_redis i) k x p ks = (r1, ks1)" by fastforce
  from doc_zincrby_zset [where ks = ks and k = k, OF ok inc] False run inc show ?thesis
    by (cases r1) (auto simp: apply_projection_def io_bind_def)
qed

lemma doc_apply_checked_any:
  assumes z: "zset_ok (ks (leaderboard_key b))" and es: "as_stream (ks ledger_key) = Some (ledger_of ks)"
    and h: "as_hash (ks idempotency_hash_key) = Some h"
    and run: "apply_checked (doc_redis i) (score_keys_for p b) (score_args_for op p b n rq idem) x y ks = (r, ks')"
  shows "ks' = ks \<or> (\<exists>z. z_ok z \<and> NaN \<notin> fst ` set z \<and> ks' = appended i op p b n rq idem z ks)"
proof -
  let ?K = "score_keys_for p b" and ?A = "score_args_for op p b n rq idem"
  have app: "append_and_record (doc_redis i) ?K ?A (ks(leaderboard_key b \<mapsto> ZSet z)) =
      (Inr (lua_result (1, show_sid i)), appended i op p b n rq idem z ks)" for z
    using es h
    by (subst doc_append_and_record [where es = "ledger_of ks" and h = h])
      (simp_all add: appended_def score_applied_def Let_def fun_upd_twist)
  obtain c where c: "resulting_score (doc_redis i) (leaderboard_key b) p op x ks = (c, ks)"
    using doc_reads_score [of i "leaderboard_key b" p op x ks] by (cases "resulting_score (doc_redis i) (leaderboard_key b) p op x ks") auto
  obtain r1 ks1 where proj: "apply_projection (doc_redis i) (leaderboard_key b) p op x ks = (r1, ks1)" by fastforce
  from doc_apply_projection_zset [where ks = ks and k = "leaderboard_key b", OF z proj] run c proj app show ?thesis
    by (cases c; cases r1)
      (auto simp: zset_step_def apply_checked_def io_bind_def score_keys_for_def score_args_for_def split: if_splits)
qed

theorem doc_apply_script_any:
  assumes z: "zset_ok (ks (leaderboard_key b))" and es: "as_stream (ks ledger_key) = Some (ledger_of ks)"
    and ok: "hashes_ok ks"
  shows "snd (apply_score_event (doc_redis i) (score_keys_for p b) (score_args_for op p b n rq idem) ks) = ks \<or>
    (\<exists>z. z_ok z \<and> NaN \<notin> fst ` set z \<and>
      snd (apply_score_event (doc_redis i) (score_keys_for p b) (score_args_for op p b n rq idem) ks) =
        appended i op p b n rq idem z ks)"
proof -
  obtain h where h: "as_hash (ks idempotency_hash_key) = Some h" using ok by (auto simp: hashes_ok_def)
  have "snd (apply_new (doc_redis i) (score_keys_for p b) (score_args_for op p b n rq idem) ks) = ks \<or>
    (\<exists>z. z_ok z \<and> NaN \<notin> fst ` set z \<and>
      snd (apply_new (doc_redis i) (score_keys_for p b) (score_args_for op p b n rq idem) ks) =
        appended i op p b n rq idem z ks)" (is "?P (apply_new (doc_redis i) ?K ?A ks)")
  proof -
    have checked: "?P (apply_checked (doc_redis i) ?K ?A x y ks)" for x y
      using doc_apply_checked_any [OF z es h] by (metis prod.collapse)
    show ?thesis
      using checked by (auto simp: apply_new_def io_bind_def score_keys_for_def doc_existence_check [OF ok] split: option.split)
  qed
  then show ?thesis
    by (auto simp: apply_score_event_def io_bind_def doc_idem_lookup [OF ok] score_keys_for_def score_args_for_def split: option.split)
qed

subsection \<open>On any server\<close>

lemma ex_bind:
  assumes "\<And>i. obs v (m s) = m' i (v s)" and "\<exists>i. Q i"
    and "\<And>x s'. m s = (Inr x, s') \<Longrightarrow> \<exists>i. Q i \<and> obs v (f x s') = f' i x (v s')"
  shows "\<exists>i. Q i \<and> obs v (io_bind m f s) = io_bind (m' i) (f' i) (v s)"
proof -
  obtain r s' where m: "m s = (r, s')" by (cases "m s")
  with assms(1) have m': "m' i (v s) = (r, v s')" for i by (metis obs_pair)
  show ?thesis
  proof (cases r)
    case (Inl e)
    with assms(2) show ?thesis by (simp add: io_bind_def m m')
  next
    case (Inr x)
    with m have "m s = (Inr x, s')" by simp
    from assms(3) [OF this] show ?thesis by (simp add: io_bind_def m m' Inr)
  qed
qed

lemma doc_reads_world [simp]:
  "snd (idem_lookup (doc_redis i) k b p idem op a ks) = ks"
  "snd (existence_check (doc_redis i) k k' ks) = ks"
  "snd (resulting_score (doc_redis i) k p op d ks) = ks"
  by (auto simp: idem_lookup_def existence_check_def resulting_score_def io_bind_def doc_cmds
      split: option.splits prod.splits sum.splits if_splits)

lemma doc_projection_world: "k \<noteq> l \<Longrightarrow> snd (apply_projection (doc_redis i) k p op d ks) l = ks l"
  by (auto simp: apply_projection_def io_bind_def doc_cmds Let_def split: option.splits)

context redis_server
begin

lemma sim_idem_lookup:
  "obs view (idem_lookup R k b p idem op a s) = idem_lookup (doc_redis i) k b p idem op a (view s)"
  unfolding idem_lookup_def by (auto intro!: obs_bind law_hget split: option.split)

lemma sim_existence_check:
  "obs view (existence_check R k k' s) = existence_check (doc_redis i) k k' (view s)"
  unfolding existence_check_def by (auto intro!: obs_bind law_hget law_exists)

lemma sim_resulting_score:
  "obs view (resulting_score R k p op d s) = resulting_score (doc_redis i) k p op d (view s)"
  unfolding resulting_score_def by (intro obs_bind) (auto intro!: law_zscore)

lemma sim_apply_projection:
  "obs view (apply_projection R k p op d s) = apply_projection (doc_redis i) k p op d (view s)"
  unfolding apply_projection_def by (auto intro!: obs_bind law_zadd law_zincrby)

lemma sim_record_idempotency:
  "obs view (record_idempotency R k b p idem e op a s) =
    record_idempotency (doc_redis i) k b p idem e op a (view s)"
  unfolding record_idempotency_def by (auto intro!: obs_bind law_hset law_hexpire)

lemma reads_world:
  "idem_lookup R k b p idem op a s = (r, s') \<Longrightarrow> view s' = view s"
  "existence_check R k k' s = (r', s') \<Longrightarrow> view s' = view s"
  "resulting_score R k p op d s = (r'', s') \<Longrightarrow> view s' = view s"
  using sim_idem_lookup [of k b p idem op a s] sim_existence_check [of k k' s]
    sim_resulting_score [of k p op d s]
  by (metis doc_reads_world obs_pair snd_conv)+

lemma sim_append_and_record:
  assumes "as_stream (view s (sk_stream K)) = Some es" "last_sid es < sid_max"
  shows "\<exists>i. (sid_ok i \<and> last_sid es < i) \<and>
    obs view (append_and_record R K A s) = append_and_record (doc_redis i) K A (view s)"
proof -
  let ?fs = "ledger_fields (sa_op A) (sa_player A) (sa_board A) (sa_amount A) (sa_request A)"
  obtain i where i: "sid_ok i" "last_sid es < i"
    "obs view (xadd_c R (sk_stream K) ?fs s) = xadd_c (doc_redis i) (sk_stream K) ?fs (view s)"
    using law_xadd [OF assms] by blast
  have "obs view (append_and_record R K A s) = append_and_record (doc_redis i) K A (view s)"
    unfolding append_and_record_def
  proof (rule obs_bind)
    show "obs view (xadd_c R (sk_stream K) ?fs s) = xadd_c (doc_redis i) (sk_stream K) ?fs (view s)"
      by (fact i(3))
  qed (auto intro!: obs_bind sim_record_idempotency)
  with i show ?thesis by blast
qed

lemma sim_apply_checked:
  assumes es: "as_stream (view s (sk_stream K)) = Some es" and lt: "last_sid es < sid_max"
    and K: "sk_zset K \<noteq> sk_stream K"
  shows "\<exists>i. (sid_ok i \<and> last_sid es < i) \<and>
    obs view (apply_checked R K A x y s) = apply_checked (doc_redis i) K A x y (view s)"
proof -
  have Q: "\<exists>i. sid_ok i \<and> last_sid es < i"
    using lt by (intro exI [of _ sid_max]) (simp add: sid_ok_def sid_max_def)
  show ?thesis
    unfolding apply_checked_def
  proof (rule ex_bind)
    fix d s1 assume "resulting_score R (sk_zset K) (sa_player A) (sa_op A) x s = (Inr d, s1)"
    with es have es1: "as_stream (view s1 (sk_stream K)) = Some es" by (simp add: reads_world)
    show "\<exists>i. (sid_ok i \<and> last_sid es < i) \<and>
        obs view ((if f64_lt y d \<or> f64_lt d (f64_neg y) then io_ret (lua_result (- 5, []))
          else io_bind (apply_projection R (sk_zset K) (sa_player A) (sa_op A) x)
            (\<lambda>_. append_and_record R K A)) s1) =
        (if f64_lt y d \<or> f64_lt d (f64_neg y) then io_ret (lua_result (- 5, []))
          else io_bind (apply_projection (doc_redis i) (sk_zset K) (sa_player A) (sa_op A) x)
            (\<lambda>_. append_and_record (doc_redis i) K A)) (view s1)"
    proof (cases "f64_lt y d \<or> f64_lt d (f64_neg y)")
      case True
      with Q show ?thesis by simp
    next
      case False
      have "\<exists>i. (sid_ok i \<and> last_sid es < i) \<and>
        obs view (io_bind (apply_projection R (sk_zset K) (sa_player A) (sa_op A) x)
            (\<lambda>_. append_and_record R K A) s1) =
        io_bind (apply_projection (doc_redis i) (sk_zset K) (sa_player A) (sa_op A) x)
            (\<lambda>_. append_and_record (doc_redis i) K A) (view s1)"
      proof (rule ex_bind)
        fix u s2 assume s2: "apply_projection R (sk_zset K) (sa_player A) (sa_op A) x s1 = (Inr u, s2)"
        have "view s2 (sk_stream K) = view s1 (sk_stream K)"
          using sim_apply_projection [of "sk_zset K" "sa_player A" "sa_op A" x s1 undefined] s2
            doc_projection_world [OF K, of undefined "sa_player A" "sa_op A" x "view s1"]
          by (metis obs_pair snd_conv)
        with es1 have "as_stream (view s2 (sk_stream K)) = Some es" by simp
        then show "\<exists>i. (sid_ok i \<and> last_sid es < i) \<and>
            obs view (append_and_record R K A s2) = append_and_record (doc_redis i) K A (view s2)"
          using lt by (rule sim_append_and_record)
      qed (rule sim_apply_projection, rule Q)
      with False show ?thesis by simp
    qed
  qed (rule sim_resulting_score, rule Q)
qed

lemma sim_apply_new:
  assumes es: "as_stream (view s (sk_stream K)) = Some es" and lt: "last_sid es < sid_max"
    and K: "sk_zset K \<noteq> sk_stream K"
  shows "\<exists>i. (sid_ok i \<and> last_sid es < i) \<and>
    obs view (apply_new R K A s) = apply_new (doc_redis i) K A (view s)"
proof -
  have Q: "\<exists>i. sid_ok i \<and> last_sid es < i"
    using lt by (intro exI [of _ sid_max]) (simp add: sid_ok_def sid_max_def)
  show ?thesis
    unfolding apply_new_def
  proof (rule ex_bind)
    fix missing s1 assume "existence_check R (sk_profile K) (sk_board K) s = (Inr missing, s1)"
    then have "view s1 = view s" by (simp add: reads_world)
    then show "\<exists>i. (sid_ok i \<and> last_sid es < i) \<and>
      obs view ((case missing of
            Some code \<Rightarrow> io_ret (lua_result (code, []))
          | None \<Rightarrow> (case (lua_tonumber (sa_amount A), lua_tonumber (sa_max A)) of
                 (Some amount, Some max_abs) \<Rightarrow> apply_checked R K A amount max_abs
               | _ \<Rightarrow> io_fail ScriptError)) s1) =
      (case missing of
            Some code \<Rightarrow> io_ret (lua_result (code, []))
          | None \<Rightarrow> (case (lua_tonumber (sa_amount A), lua_tonumber (sa_max A)) of
                 (Some amount, Some max_abs) \<Rightarrow> apply_checked (doc_redis i) K A amount max_abs
               | _ \<Rightarrow> io_fail ScriptError)) (view s1)"
      using Q sim_apply_checked [of s1 K es, OF _ lt K] es
      by (cases missing; cases "lua_tonumber (sa_amount A)"; cases "lua_tonumber (sa_max A)") simp_all
  qed (rule sim_existence_check, rule Q)
qed

text \<open>The whole script: some id above the last one makes the run the documented one.\<close>

lemma sim_apply_score_event:
  assumes es: "as_stream (view s (sk_stream K)) = Some es" and lt: "last_sid es < sid_max"
    and K: "sk_zset K \<noteq> sk_stream K"
  shows "\<exists>i. (sid_ok i \<and> last_sid es < i) \<and>
    obs view (apply_score_event R K A s) = apply_score_event (doc_redis i) K A (view s)"
proof -
  have Q: "\<exists>i. sid_ok i \<and> last_sid es < i"
    using lt by (intro exI [of _ sid_max]) (simp add: sid_ok_def sid_max_def)
  show ?thesis
    unfolding apply_score_event_def
  proof (rule ex_bind)
    fix seen s1 assume "idem_lookup R (sk_idempotency K) (sa_board A) (sa_player A) (sa_idem A) (sa_op A)
      (sa_amount A) s = (Inr seen, s1)"
    then have "view s1 = view s" by (simp add: reads_world)
    with sim_apply_new [of s1 K es, OF _ lt K] es Q
    show "\<exists>i. (sid_ok i \<and> last_sid es < i) \<and>
        obs view ((case seen of Some r \<Rightarrow> io_ret (lua_result r) | None \<Rightarrow> apply_new R K A) s1) =
        (case seen of Some r \<Rightarrow> io_ret (lua_result r) | None \<Rightarrow> apply_new (doc_redis i) K A) (view s1)"
      by (cases seen) simp_all
  qed (rule sim_idem_lookup, rule Q)
qed

lemma apply_script_any:
  assumes z: "zset_ok (view s (leaderboard_key b))" and es: "as_stream (view s ledger_key) = Some (ledger_of (view s))"
    and ok: "hashes_ok (view s)" and lt: "last_sid (ledger_of (view s)) < sid_max"
    and run: "apply_score_event R (score_keys_for p b) (score_args_for op p b n rq idem) s = (r, s')"
  shows "view s' = view s \<or> (\<exists>i z. sid_ok i \<and> last_sid (ledger_of (view s)) < i \<and> z_ok z \<and> NaN \<notin> fst ` set z \<and>
    view s' = appended i op p b n rq idem z (view s))"
proof -
  have "as_stream (view s (sk_stream (score_keys_for p b))) = Some (ledger_of (view s))"
    "sk_zset (score_keys_for p b) \<noteq> sk_stream (score_keys_for p b)"
    using es by (simp_all add: score_keys_for_def)
  from sim_apply_score_event [OF this(1) lt this(2)] obtain i where i: "sid_ok i" "last_sid (ledger_of (view s)) < i"
    "obs view (apply_score_event R (score_keys_for p b) (score_args_for op p b n rq idem) s) =
      apply_score_event (doc_redis i) (score_keys_for p b) (score_args_for op p b n rq idem) (view s)" by blast
  then have "view s' = snd (apply_score_event (doc_redis i) (score_keys_for p b) (score_args_for op p b n rq idem) (view s))"
    by (metis run obs_pair snd_conv)
  with doc_apply_script_any [OF z es ok, of i p op n rq idem] i(1,2) show ?thesis by metis
qed

text \<open>With the invariant: the script on any server decides and applies as specified.\<close>

theorem apply_script_spec:
  assumes inv: "ledger_inv X B (view s)" and ok: "hashes_ok (view s)" and n: "score_validate n"
    and lt: "last_sid (ledger_of (view s)) < sid_max"
    and cov: "b \<in> B \<or> board_state_of (view s) b = Some board_closed"
  shows "\<exists>i. sid_ok i \<and> last_sid (ledger_of (view s)) < i \<and>
    obs view (apply_score_event R (score_keys_for p b) (score_args_for op p b n rq idem) s) =
    (case decide (board_scores X b (ledger_of (view s))) (view s) op p b n idem of
       Some r \<Rightarrow> (Inr (lua_result r), view s)
     | None \<Rightarrow> (Inr (lua_result (1, show_sid i)),
         score_applied i op p b n (new_score (board_scores X b (ledger_of (view s))) op p n) rq idem (view s)))"
proof -
  have "as_stream (view s (sk_stream (score_keys_for p b))) = Some (ledger_of (view s))"
    using ledger_inv_stream [OF inv] by (simp add: score_keys_for_def)
  moreover have "sk_zset (score_keys_for p b) \<noteq> sk_stream (score_keys_for p b)"
    by (simp add: score_keys_for_def)
  ultimately obtain i where i: "sid_ok i" "last_sid (ledger_of (view s)) < i"
    and run: "obs view (apply_score_event R (score_keys_for p b) (score_args_for op p b n rq idem) s) =
      apply_score_event (doc_redis i) (score_keys_for p b) (score_args_for op p b n rq idem) (view s)"
    using sim_apply_score_event [OF _ lt] by blast
  show ?thesis
    by (rule exI [of _ i], unfold run doc_apply_script [OF inv ok n cov]) (use i in simp)
qed

end

end
