(* ===== verification/ScoreWrites.thy ===== *)
theory ScoreWrites
  imports LedgerRun
begin

section \<open>Score writes: what one call does, under any network\<close>

text \<open>
  The script's specification carried to \<open>SetScore\<close> and \<open>IncrementScore\<close>: what an applied write
  changes, that it keeps the invariant, what each rejection returns, and what a lost reply and a
  retry with the same idempotency key leave behind.
\<close>

subsection \<open>One applied write\<close>

lemma replay1_event_of:
  "replay1 m (event_of i op p b n rq) = m(p \<mapsto> new_score m op p n)"
  by (simp add: replay1_def new_score_def)

lemma score_applied_other:
  "k \<noteq> leaderboard_key b \<Longrightarrow> k \<noteq> ledger_key \<Longrightarrow> k \<noteq> idempotency_hash_key \<Longrightarrow>
    score_applied i op p b n new rq idem ks k = ks k"
  by (simp add: score_applied_def Let_def)

lemma ledger_of_applied [simp]:
  "ledger_of (score_applied i op p b n new rq idem ks) =
    ledger_of ks @ [(i, ledger_fields op p b (format_int n) rq)]"
  by (simp add: score_applied_def Let_def)

lemma writable_op: "writable X op p b n rq \<Longrightarrow> CHR ''|'' \<notin> set op"
  by (auto simp: writable_def)

lemma idem_record_applied:
  "idem \<noteq> [] \<Longrightarrow> idem_record (score_applied i op p b n new rq idem ks) b p idem =
    Some (record_value (show_sid i) op (format_int n))"
  by (simp add: idem_record_def score_applied_def Let_def update_conv')

lemma score_applied_hashes:
  assumes ok: "hashes_ok ks" and op: "CHR ''|'' \<notin> set op"
  shows "hashes_ok (score_applied i op p b n new rq idem ks)"
proof -
  obtain h where h: "as_hash (ks idempotency_hash_key) = Some h"
    and form: "\<And>f v. map_of h f = Some v \<Longrightarrow>
      \<exists>e op a. v = record_value e op a \<and> CHR ''|'' \<notin> set e \<and> CHR ''|'' \<notin> set op"
    using ok unfolding hashes_ok_def by blast
  have boards: "as_hash (score_applied i op p b n new rq idem ks (board_profile_key c)) \<noteq> None" for c
    using ok by (simp add: score_applied_other hashes_ok_def)
  show ?thesis
  proof (cases "idem = []")
    case True
    with ok boards show ?thesis by (simp add: hashes_ok_def score_applied_def Let_def)
  next
    case False
    let ?h = "AList.update (dedupe_field b p idem) (record_value (show_sid i) op (format_int n)) h"
    have "as_hash (score_applied i op p b n new rq idem ks idempotency_hash_key) = Some ?h"
      using False h by (simp add: score_applied_def Let_def)
    moreover have "\<exists>e op a. v = record_value e op a \<and> CHR ''|'' \<notin> set e \<and> CHR ''|'' \<notin> set op"
      if "map_of ?h f = Some v" for f v
    proof (cases "f = dedupe_field b p idem")
      case True
      with that have "v = record_value (show_sid i) op (format_int n)" by (simp add: update_conv')
      with op show ?thesis using show_sid_no_bar by blast
    next
      case False
      with that form show ?thesis by (simp add: update_conv')
    qed
    ultimately show ?thesis using boards unfolding hashes_ok_def by blast
  qed
qed

lemma score_applied_inv:
  assumes inv: "ledger_inv X B ks" and w: "writable X op p b n rq" and i: "sid_ok i" "last_sid (ledger_of ks) < i"
    and new: "score_validate (new_score (board_scores X b (ledger_of ks)) op p n)" and b: "b \<in> B"
  shows "ledger_inv X B
    (score_applied i op p b n (new_score (board_scores X b (ledger_of ks)) op p n) rq idem ks)"
proof -
  let ?m = "board_scores X b (ledger_of ks)" and ?fs = "ledger_fields op p b (format_int n) rq"
  obtain z where z: "as_zset (ks (leaderboard_key b)) = Some z"
    using inv b by (auto simp: ledger_inv_def projection_ok_def)
  have dec: "entry_to_event X (to_msg (i, ?fs)) = Inr (event_of i op p b n rq)"
    using w by (rule entry_to_event_ledger)
  have "ledger_inv X B (ks(leaderboard_key b \<mapsto> ZSet (z_add (Fin (of_int (new_score ?m op p n))) p z),
      ledger_key \<mapsto> Stream (ledger_of ks @ [(i, ?fs)])))"
    using ledger_inv_append [OF inv i dec, of "new_score ?m op p n" z] new z b
    by (simp add: replay1_event_of)
  moreover have "ledger_inv X B (score_applied i op p b n (new_score ?m op p n) rq idem ks) =
    ledger_inv X B (ks(leaderboard_key b \<mapsto> ZSet (z_add (Fin (of_int (new_score ?m op p n))) p z),
      ledger_key \<mapsto> Stream (ledger_of ks @ [(i, ?fs)])))"
    using z by (intro ledger_inv_frame) (simp_all add: score_applied_def Let_def)
  ultimately show ?thesis by simp
qed

lemma decide_None_new:
  "decide m ks op p b n idem = None \<Longrightarrow> hashes_ok ks \<Longrightarrow>
    score_validate (new_score m op p n) \<and> idem_record ks b p idem = None"
proof -
  assume dec: "decide m ks op p b n idem = None" and ok: "hashes_ok ks"
  have "idem_record ks b p idem = None"
  proof (cases "idem_record ks b p idem")
    case (Some v)
    obtain e op' a where "v = record_value e op' a" "CHR ''|'' \<notin> set e" "CHR ''|'' \<notin> set op'"
      using hashes_ok_record [OF ok Some] by blast
    with dec Some show ?thesis by (simp add: decide_def check_record_value)
  qed simp
  with dec show ?thesis by (simp add: decide_def split: if_splits)
qed

lemma decide_closed:
  assumes "board_state_of ks b = Some board_closed" "hashes_ok ks"
  shows "decide m ks op p b n idem \<noteq> None"
proof (cases "idem_record ks b p idem")
  case None
  with assms show ?thesis by (auto simp: decide_def)
next
  case (Some v)
  obtain e op' a where "v = record_value e op' a" "CHR ''|'' \<notin> set e" "CHR ''|'' \<notin> set op'"
    using hashes_ok_record [OF assms(2) Some] by blast
  with Some show ?thesis by (simp add: decide_def check_record_value)
qed

subsection \<open>The invariant of the store\<close>

definition store_inv :: "ext \<Rightarrow> string set \<Rightarrow> keyspace \<Rightarrow> bool" where
  "store_inv X B ks \<longleftrightarrow> ledger_inv X B ks \<and> hashes_ok ks"

text \<open>
  What one execution of the write script does to the server: nothing, or one applied write.
\<close>

definition wrote :: "ext \<Rightarrow> string \<Rightarrow> string \<Rightarrow> string \<Rightarrow> int \<Rightarrow> string \<Rightarrow> string \<Rightarrow> keyspace \<Rightarrow> keyspace \<Rightarrow> bool" where
  "wrote X op p b n rq idem ks ks' \<longleftrightarrow>
     (\<exists>i. sid_ok i \<and> last_sid (ledger_of ks) < i \<and>
        score_validate (new_score (board_scores X b (ledger_of ks)) op p n) \<and>
        ks' = score_applied i op p b n (new_score (board_scores X b (ledger_of ks)) op p n) rq idem ks)"

lemma wrote_store_inv:
  "wrote X op p b n rq idem ks ks' \<Longrightarrow> store_inv X B ks \<Longrightarrow> writable X op p b n rq \<Longrightarrow> b \<in> B \<Longrightarrow> store_inv X B ks'"
  by (auto simp: wrote_def store_inv_def intro!: score_applied_inv score_applied_hashes writable_op)

lemma wrote_ledger:
  "wrote X op p b n rq idem ks ks' \<Longrightarrow>
    \<exists>i. ledger_of ks' = ledger_of ks @ [(i, ledger_fields op p b (format_int n) rq)]"
  by (auto simp: wrote_def)

lemma wrote_other:
  "wrote X op p b n rq idem ks ks' \<Longrightarrow> k \<noteq> leaderboard_key b \<Longrightarrow> k \<noteq> ledger_key \<Longrightarrow>
    k \<noteq> idempotency_hash_key \<Longrightarrow> ks' k = ks k"
  by (auto simp: wrote_def score_applied_other)

lemma wrote_idem:
  "wrote X op p b n rq idem ks ks' \<Longrightarrow> idem \<noteq> [] \<Longrightarrow>
    \<exists>e. idem_record ks' b p idem = Some (record_value e op (format_int n)) \<and> CHR ''|'' \<notin> set e"
  by (auto simp: wrote_def idem_record_applied intro!: show_sid_no_bar)

text \<open>The Go value of a reply.\<close>

definition reply_of :: "(int \<times> string) option \<Rightarrow> serr + unit" where
  "reply_of d = (case d of None \<Rightarrow> Inr () | Some r \<Rightarrow> decode_apply (lua_result r))"

context redis_server
begin

lemma script_run:
  assumes "store_inv X B (view s)" "score_validate n" "last_sid (ledger_of (view s)) < sid_max"
    and "b \<in> B \<or> board_state_of (view s) b = Some board_closed"
  shows "\<exists>r s'. apply_score_event R (score_keys_for p b) (score_args_for op p b n rq idem) s = (Inr r, s') \<and>
    decode_apply r = reply_of (decide (board_scores X b (ledger_of (view s))) (view s) op p b n idem) \<and>
    (if decide (board_scores X b (ledger_of (view s))) (view s) op p b n idem = None
     then wrote X op p b n rq idem (view s) (view s') else view s' = view s)"
proof -
  let ?d = "decide (board_scores X b (ledger_of (view s))) (view s) op p b n idem"
  have inv: "ledger_inv X B (view s)" "hashes_ok (view s)" using assms(1) by (simp_all add: store_inv_def)
  obtain r s' where run: "apply_score_event R (score_keys_for p b) (score_args_for op p b n rq idem) s = (r, s')"
    by fastforce
  from apply_script_spec [OF inv assms(2,3,4), of p op rq idem]
  obtain i where i: "sid_ok i" "last_sid (ledger_of (view s)) < i"
    and eq: "(r, view s') = (case ?d of Some r \<Rightarrow> (Inr (lua_result r), view s)
     | None \<Rightarrow> (Inr (lua_result (1, show_sid i)),
         score_applied i op p b n (new_score (board_scores X b (ledger_of (view s))) op p n) rq idem (view s)))"
    by (auto simp: run)
  show ?thesis
  proof (cases ?d)
    case None
    then have "score_validate (new_score (board_scores X b (ledger_of (view s))) op p n)"
      using decide_None_new inv(2) by blast
    with None i eq have "wrote X op p b n rq idem (view s) (view s')" 
      unfolding wrote_def by (intro exI [of _ i]) simp
    with None eq run show ?thesis
      by (auto simp: reply_of_def decode_apply_def lua_result_def apply_code_defs)
  next
    case (Some r')
    with eq run show ?thesis by (auto simp: reply_of_def)
  qed
qed

text \<open>On a quiet network, the call answers as decided.\<close>

lemma apply_event_quiet:
  assumes "store_inv X B (view s)" "score_validate n" "last_sid (ledger_of (view s)) < sid_max"
    and "b \<in> B \<or> board_state_of (view s) b = Some board_closed"
  shows "\<exists>s'. apply_event R op p b n rq idem (quiet s) =
      (reply_of (decide (board_scores X b (ledger_of (view s))) (view s) op p b n idem), quiet s') \<and>
    (if decide (board_scores X b (ledger_of (view s))) (view s) op p b n idem = None
     then wrote X op p b n rq idem (view s) (view s') else view s' = view s)"
proof -
  from script_run [OF assms, of p op rq idem]
  obtain r s' where "apply_score_event R (score_keys_for p b) (score_args_for op p b n rq idem) s = (Inr r, s')"
    "decode_apply r = reply_of (decide (board_scores X b (ledger_of (view s))) (view s) op p b n idem)"
    "if decide (board_scores X b (ledger_of (view s))) (view s) op p b n idem = None
     then wrote X op p b n rq idem (view s) (view s') else view s' = view s"
    by blast
  then show ?thesis by (auto simp: apply_event_def io_bind_def call_quiet)
qed

end

end
