(* ===== verification/BoardPlayer.thy ===== *)
theory BoardPlayer
  imports ApexTime ScoreWrites
begin

section \<open>Boards and players (\<open>storage/board_repo.go\<close>, \<open>storage/profile_repo.go\<close>)\<close>

text \<open>
  One definition per method. The invariant \<open>registry_inv\<close> says that the board registry and the
  board hashes agree and that every hash reads back as a board; the lemmas say that the scripts
  keep it, what each reply means, and that what was created is what is read, to the millisecond.
\<close>

subsection \<open>Boards\<close>

definition board_name_field :: string where "board_name_field = ''board_name''"
definition board_created_at_field :: string where "board_created_at_field = ''created_at''"
definition board_state_field :: string where "board_state_field = ''board_state''"

lemmas board_field_defs = board_name_field_def board_created_at_field_def board_state_field_def

definition create_board :: "'s redis \<Rightarrow> board \<Rightarrow> ('s, unit) go" where
  "create_board R bd =
     (if \<not> board_state_validate (bd_state bd) then io_fail StorageOther
      else io_bind (call (create_board_script R (board_profile_key (bd_id bd)) board_index_key
             (bd_id bd) (bd_name bd) (format_time (bd_created bd))
             (format_int (unix_sec (bd_created bd))) (bd_state bd))) (\<lambda>created.
           if created = 0 then io_fail ErrBoardExists else io_ret ()))"

definition set_board_state :: "'s redis \<Rightarrow> string \<Rightarrow> string \<Rightarrow> ('s, unit) go" where
  "set_board_state R board_id st =
     (if \<not> board_state_validate st then io_fail StorageOther
      else io_bind (call (set_board_state_script R (board_profile_key board_id) st)) (\<lambda>updated.
           if updated = 0 then io_fail ErrBoardNotFound else io_ret ()))"

definition board_from_fields :: "string \<Rightarrow> fields \<Rightarrow> serr + board" where
  "board_from_fields i fs =
     (case map_of fs board_name_field of
        None \<Rightarrow> Inl ErrInconsistent
      | Some name \<Rightarrow>
          (case map_of fs board_created_at_field of
             None \<Rightarrow> Inl ErrInconsistent
           | Some raw_date \<Rightarrow>
               (case parse_time raw_date of
                  None \<Rightarrow> Inl StorageOther
                | Some date \<Rightarrow>
                    (case map_of fs board_state_field of
                       None \<Rightarrow> Inl ErrInconsistent
                     | Some st \<Rightarrow>
                         if \<not> board_state_validate st then Inl ErrInconsistent
                         else Inr \<lparr>bd_id = i, bd_name = name, bd_state = st, bd_created = date\<rparr>))))"

definition get_board :: "'s redis \<Rightarrow> string \<Rightarrow> ('s, board) go" where
  "get_board R board_id =
     io_bind (call (hgetall_c R (board_profile_key board_id))) (\<lambda>fs.
       if fs = [] then io_fail ErrBoardNotFound else io_lift (board_from_fields board_id fs))"

text \<open>A missing or inconsistent hash is skipped; any other failure ends the listing.\<close>

fun listed_boards :: "(string \<times> fields) list \<Rightarrow> serr + board list" where
  "listed_boards [] = Inr []"
| "listed_boards ((i, fs) # rest) =
     (if fs = [] then listed_boards rest
      else case board_from_fields i fs of
        Inl ErrInconsistent \<Rightarrow> listed_boards rest
      | Inl e \<Rightarrow> Inl e
      | Inr b \<Rightarrow> sum_bind (listed_boards rest) (\<lambda>bs. Inr (b # bs)))"

definition list_boards :: "'s redis \<Rightarrow> ('s, board list) go" where
  "list_boards R =
     io_bind (call (zrange_c R board_index_key 0 (- 1) False)) (\<lambda>zs.
       let ids = map snd zs
       in io_bind (pipeline (map (\<lambda>i. hgetall_c R (board_profile_key i)) ids)) (\<lambda>hashes.
            io_lift (listed_boards (zip ids hashes))))"

subsection \<open>Players\<close>

definition profile_name_field :: string where "profile_name_field = ''player_name''"
definition profile_created_at_field :: string where "profile_created_at_field = ''created_at''"

lemmas profile_field_defs = profile_name_field_def profile_created_at_field_def

definition create_code_created :: int where "create_code_created = 1"
definition create_code_deduped :: int where "create_code_deduped = 0"
definition create_code_exists :: int where "create_code_exists = - 1"
definition create_code_idempotency_conflict :: int where "create_code_idempotency_conflict = - 4"

lemmas create_code_defs = create_code_created_def create_code_deduped_def create_code_exists_def
  create_code_idempotency_conflict_def

definition decode_create :: "lua_val list \<Rightarrow> serr + string" where
  "decode_create result =
     (case result of
        [] \<Rightarrow> Inl BadReply
      | LBulk _ # _ \<Rightarrow> Inl BadReply
      | LInt code # rest \<Rightarrow>
          if code = create_code_created \<or> code = create_code_deduped
          then (case rest of [] \<Rightarrow> Inl Panic | LInt _ # _ \<Rightarrow> Inl BadReply | LBulk i # _ \<Rightarrow> Inr i)
          else if code = create_code_exists then Inl ErrPlayerExists
          else if code = create_code_idempotency_conflict then Inl ErrIdempotencyConflict
          else Inl BadReply)"

definition create_player_profile :: "'s redis \<Rightarrow> profile \<Rightarrow> string \<Rightarrow> ('s, string) go" where
  "create_player_profile R pf idemp_key =
     io_bind (call (create_player_script R (player_profile_key (pf_id pf)) player_idempotency_hash_key
       (pf_name pf) (format_time (pf_created pf)) (pf_id pf) idemp_key))
     (\<lambda>result. io_lift (decode_create result))"

definition profile_from_fields :: "string \<Rightarrow> fields \<Rightarrow> serr + profile" where
  "profile_from_fields i fs =
     (case map_of fs profile_name_field of
        None \<Rightarrow> Inl ErrInconsistent
      | Some name \<Rightarrow>
          (case map_of fs profile_created_at_field of
             None \<Rightarrow> Inl ErrInconsistent
           | Some raw_date \<Rightarrow>
               (case parse_time raw_date of
                  None \<Rightarrow> Inl StorageOther
                | Some date \<Rightarrow> Inr \<lparr>pf_id = i, pf_name = name, pf_created = date\<rparr>)))"

definition get_player_profile :: "'s redis \<Rightarrow> string \<Rightarrow> ('s, profile) go" where
  "get_player_profile R player_id =
     io_bind (call (hgetall_c R (player_profile_key player_id))) (\<lambda>fs.
       if fs = [] then io_fail ErrNotFound else io_lift (profile_from_fields player_id fs))"

subsection \<open>Any server runs these as documented\<close>

context redis_server
begin

lemma sim_create_board_script:
  "obs view (create_board_script R k k' b n c u st s) = create_board_script (doc_redis i) k k' b n c u st (view s)"
  unfolding create_board_script_def
  by (intro obs_bind) (auto intro!: law_exists law_hset law_zadd obs_bind split: option.split)

lemma sim_set_board_state_script:
  "obs view (set_board_state_script R k st s) = set_board_state_script (doc_redis i) k st (view s)"
  unfolding set_board_state_script_def by (auto intro!: obs_bind law_exists law_hset)

lemma sim_create_player_script:
  "obs view (create_player_script R k h n c p idem s) = create_player_script (doc_redis i) k h n c p idem (view s)"
  unfolding create_player_script_def
  by (intro obs_bind)
    (auto intro!: obs_bind law_exists law_hset law_hget law_hexpire simp: cut_at_Some split: option.split)

lemma qsim_create_board: "qsim view (create_board R bd) (create_board (doc_redis i) bd)"
  unfolding create_board_def by (auto intro!: qsim_bind qsim_call sim_create_board_script)

lemma qsim_set_board_state: "qsim view (set_board_state R b st) (set_board_state (doc_redis i) b st)"
  unfolding set_board_state_def by (auto intro!: qsim_bind qsim_call sim_set_board_state_script)

lemma qsim_get_board: "qsim view (get_board R b) (get_board (doc_redis i) b)"
  unfolding get_board_def by (auto intro!: qsim_bind qsim_call law_hgetall)

lemma qsim_list_boards: "qsim view (list_boards R) (list_boards (doc_redis i))"
  unfolding list_boards_def Let_def
  by (intro qsim_bind qsim_call law_zrange qsim_pipeline qsim_lift)
    (simp add: list_all2_conv_all_nth law_hgetall)

lemma qsim_create_player: "qsim view (create_player_profile R pf idem) (create_player_profile (doc_redis i) pf idem)"
  unfolding create_player_profile_def by (auto intro!: qsim_bind qsim_call sim_create_player_script)

lemma qsim_get_player: "qsim view (get_player_profile R p) (get_player_profile (doc_redis i) p)"
  unfolding get_player_profile_def by (auto intro!: qsim_bind qsim_call law_hgetall)

end

subsection \<open>The registry and the board hashes\<close>

text \<open>The board stored in the keyspace under an id, and the registry's members.\<close>

definition stored_board :: "keyspace \<Rightarrow> string \<Rightarrow> board option" where
  "stored_board ks b =
     (case as_hash (ks (board_profile_key b)) of
        None \<Rightarrow> None
      | Some h \<Rightarrow> (case board_from_fields b h of Inl _ \<Rightarrow> None | Inr bd \<Rightarrow> Some bd))"

definition board_index :: "keyspace \<Rightarrow> (f64 \<times> string) list" where
  "board_index ks = (case as_zset (ks board_index_key) of None \<Rightarrow> [] | Some z \<Rightarrow> z)"

definition registry_inv :: "keyspace \<Rightarrow> bool" where
  "registry_inv ks \<longleftrightarrow>
     as_zset (ks board_index_key) = Some (board_index ks) \<and> z_ok (board_index ks) \<and>
     (\<forall>b. b \<in> snd ` set (board_index ks) \<longleftrightarrow> ks (board_profile_key b) \<noteq> None) \<and>
     (\<forall>b. ks (board_profile_key b) \<noteq> None \<longrightarrow> stored_board ks b \<noteq> None)"

definition board_fields :: "board \<Rightarrow> fields" where
  "board_fields bd = [(''board_name'', bd_name bd), (''created_at'', format_time (bd_created bd)),
     (''board_state'', bd_state bd)]"

definition board_created :: "board \<Rightarrow> keyspace \<Rightarrow> keyspace" where
  "board_created bd ks = ks(board_profile_key (bd_id bd) \<mapsto> Hash (board_fields bd),
     board_index_key \<mapsto> ZSet (z_add (f64_of_int (unix_sec (bd_created bd))) (bd_id bd) (board_index ks)))"

definition trunc_ms :: "time \<Rightarrow> time" where
  "trunc_ms t = t - t mod 10 ^ 6"

lemma registry_inv_empty: "registry_inv Map.empty"
  by (simp add: registry_inv_def board_index_def z_ok_def)

lemma registry_inv_frame:
  assumes "ks' board_index_key = ks board_index_key" "\<And>b. ks' (board_profile_key b) = ks (board_profile_key b)"
  shows "registry_inv ks' = registry_inv ks"
  using assms by (simp add: registry_inv_def board_index_def stored_board_def)

lemma board_from_fields_created:
  "board_state_validate (bd_state bd) \<Longrightarrow> in_years (bd_created bd) \<Longrightarrow>
    board_from_fields (bd_id bd) (board_fields bd) = Inr (bd\<lparr>bd_created := trunc_ms (bd_created bd)\<rparr>)"
  by (simp add: board_from_fields_def board_fields_def board_field_defs parse_format_time_lemma trunc_ms_def)

lemma doc_create_board:
  assumes inv: "registry_inv ks" and st: "board_state_validate (bd_state bd)"
  shows "create_board (doc_redis i) bd (quiet ks) =
    (if ks (board_profile_key (bd_id bd)) = None then (Inr (), quiet (board_created bd ks))
     else (Inl ErrBoardExists, quiet ks))"
proof -
  have z: "as_zset (ks board_index_key) = Some (board_index ks)" using inv by (simp add: registry_inv_def)
  show ?thesis
  proof (cases "ks (board_profile_key (bd_id bd))")
    case None
    have "create_board_script (doc_redis i) (board_profile_key (bd_id bd)) board_index_key (bd_id bd)
        (bd_name bd) (format_time (bd_created bd)) (format_int (unix_sec (bd_created bd))) (bd_state bd) ks =
      (Inr 1, board_created bd ks)"
      using None z
      by (simp add: create_board_script_def io_bind_def doc_cmds lua_tonumber_format board_created_def
          board_fields_def)
    with None st show ?thesis by (simp add: create_board_def io_bind_def call_quiet)
  next
    case (Some v)
    with st show ?thesis
      by (simp add: create_board_def io_bind_def call_quiet create_board_script_def doc_cmds)
  qed
qed

lemma board_index_created [simp]:
  "board_index (board_created bd ks) =
    z_add (f64_of_int (unix_sec (bd_created bd))) (bd_id bd) (board_index ks)"
  by (simp add: board_index_def board_created_def)

lemma board_index_gains:
  assumes "registry_inv ks" "ks (board_profile_key (bd_id bd)) = None"
  shows "board_index (board_created bd ks) = insort (f64_of_int (unix_sec (bd_created bd)), bd_id bd) (board_index ks)"
proof -
  have "bd_id bd \<notin> snd ` set (board_index ks)" using assms by (simp add: registry_inv_def)
  then have "filter (\<lambda>e. snd e \<noteq> bd_id bd) (board_index ks) = board_index ks" by (force simp: filter_id_conv)
  then show ?thesis by (simp add: z_add_def)
qed

lemma board_created_registry:
  assumes inv: "registry_inv ks" and bd: "board_state_validate (bd_state bd)" "in_years (bd_created bd)"
  shows "registry_inv (board_created bd ks)"
proof -
  have "b \<in> snd ` set (board_index (board_created bd ks)) \<longleftrightarrow> board_created bd ks (board_profile_key b) \<noteq> None"
    for b
  proof (cases "b = bd_id bd")
    case True
    then have "b \<in> snd ` set (board_index (board_created bd ks))" by (simp add: set_z_add)
    with True show ?thesis by (simp add: board_created_def)
  next
    case False
    then have "b \<in> snd ` set (board_index (board_created bd ks)) \<longleftrightarrow> b \<in> snd ` set (board_index ks)"
      by (force simp: set_z_add)
    with False inv show ?thesis by (simp add: registry_inv_def board_created_def)
  qed
  moreover have "stored_board (board_created bd ks) b \<noteq> None" if "board_created bd ks (board_profile_key b) \<noteq> None" for b
    using that inv board_from_fields_created [OF bd]
    by (cases "b = bd_id bd") (simp_all add: stored_board_def board_created_def registry_inv_def)
  moreover have "z_ok (board_index (board_created bd ks))"
    using inv by (auto simp: registry_inv_def)
  moreover have "as_zset (board_created bd ks board_index_key) = Some (board_index (board_created bd ks))"
    by (simp add: board_created_def board_index_def)
  ultimately show ?thesis unfolding registry_inv_def by blast
qed

lemma stored_board_created:
  "board_state_validate (bd_state bd) \<Longrightarrow> in_years (bd_created bd) \<Longrightarrow>
    stored_board (board_created bd ks) b =
      (if b = bd_id bd then Some (bd\<lparr>bd_created := trunc_ms (bd_created bd)\<rparr>) else stored_board ks b)"
  using board_from_fields_created [of bd] by (simp add: stored_board_def board_created_def)

lemma stored_board_hash:
  assumes "stored_board ks b = Some bd" "ks (board_profile_key b) \<noteq> None"
  obtains h where "ks (board_profile_key b) = Some (Hash h)" "h \<noteq> []" "board_from_fields b h = Inr bd"
proof -
  obtain h where h: "as_hash (ks (board_profile_key b)) = Some h" "board_from_fields b h = Inr bd"
    using assms(1) by (auto simp: stored_board_def split: option.splits sum.splits)
  then have "h \<noteq> []" by (auto simp: board_from_fields_def)
  with h assms(2) that show ?thesis by (cases "ks (board_profile_key b)" rule: as_hash.cases) auto
qed

lemma doc_get_board:
  assumes "registry_inv ks"
  shows "get_board (doc_redis i) b (quiet ks) =
    (case stored_board ks b of None \<Rightarrow> Inl ErrBoardNotFound | Some bd \<Rightarrow> Inr bd, quiet ks)"
proof (cases "ks (board_profile_key b)")
  case None
  then show ?thesis
    by (simp add: get_board_def io_bind_def call_quiet doc_cmds stored_board_def board_from_fields_def)
next
  case (Some v)
  with assms obtain bd where bd: "stored_board ks b = Some bd" unfolding registry_inv_def by blast
  from stored_board_hash [OF bd] Some obtain h
    where "ks (board_profile_key b) = Some (Hash h)" "h \<noteq> []" "board_from_fields b h = Inr bd" by auto
  with bd show ?thesis by (simp add: get_board_def io_bind_def call_quiet doc_cmds)
qed

lemma doc_list_hashes:
  assumes index: "as_zset (ks board_index_key) = Some (board_index ks)"
    and h: "\<And>b. b \<in> snd ` set (board_index ks) \<Longrightarrow> as_hash (ks (board_profile_key b)) = Some (h b)"
  shows "list_boards (doc_redis i) (quiet ks) =
    (listed_boards (map (\<lambda>b. (b, h b)) (map snd (board_index ks))), quiet ks)"
proof -
  let ?ids = "map snd (board_index ks)"
  have "hgetall_c (doc_redis i) (board_profile_key b) ks = (Inr (h b), ks)" if "b \<in> set ?ids" for b
    using h that by (simp add: doc_cmds)
  then have pipe: "pipeline (map (\<lambda>b. hgetall_c (doc_redis i) (board_profile_key b)) ?ids) (quiet ks) =
      (Inr (map h ?ids), quiet ks)"
    by (intro pipeline_reads) (simp add: list_all2_conv_all_nth)
  have "call (zrange_c (doc_redis i) board_index_key 0 (- 1) False) (quiet ks) =
      (Inr (z_slice 0 (- 1) (board_index ks)), quiet ks)"
    using index by (simp add: call_quiet doc_cmds)
  moreover have "z_slice 0 (- 1) xs = xs" for xs :: "(f64 \<times> string) list"
    by (cases xs) (simp_all add: z_slice_def slice_def Let_def)
  moreover have "zip xs (map h xs) = map (\<lambda>b. (b, h b)) xs" for xs
    by (induction xs) simp_all
  ultimately show ?thesis using pipe by (simp add: list_boards_def io_bind_def io_lift_def Let_def del: map_map)
qed

lemma doc_list_boards:
  assumes inv: "registry_inv ks"
  shows "list_boards (doc_redis i) (quiet ks) =
    (Inr (map (\<lambda>b. the (stored_board ks b)) (map snd (board_index ks))), quiet ks)"
proof -
  let ?ids = "map snd (board_index ks)"
  define h where "h b = the (as_hash (ks (board_profile_key b)))" for b
  have stored: "as_hash (ks (board_profile_key b)) = Some (h b) \<and> h b \<noteq> [] \<and>
      board_from_fields b (h b) = Inr (the (stored_board ks b))" if "b \<in> set ?ids" for b
  proof -
    have some: "ks (board_profile_key b) \<noteq> None" using inv that by (auto simp: registry_inv_def)
    with inv obtain bd where bd: "stored_board ks b = Some bd" unfolding registry_inv_def by blast
    obtain g where "ks (board_profile_key b) = Some (Hash g)" "g \<noteq> []" "board_from_fields b g = Inr bd"
      using stored_board_hash [OF bd some] by blast
    with bd show ?thesis by (simp add: h_def)
  qed
  have "listed_boards (map (\<lambda>b. (b, h b)) bs) = Inr (map (\<lambda>b. the (stored_board ks b)) bs)" if "set bs \<subseteq> set ?ids" for bs
    using that by (induction bs) (simp_all add: stored del: set_map)
  moreover have "as_zset (ks board_index_key) = Some (board_index ks)" using inv by (simp add: registry_inv_def)
  ultimately show ?thesis using doc_list_hashes [of ks h i] stored by (simp del: map_map)
qed

subsection \<open>Players and their idempotency records\<close>

definition stored_player :: "keyspace \<Rightarrow> string \<Rightarrow> profile option" where
  "stored_player ks p =
     (case as_hash (ks (player_profile_key p)) of
        None \<Rightarrow> None
      | Some h \<Rightarrow> (case profile_from_fields p h of Inl _ \<Rightarrow> None | Inr pf \<Rightarrow> Some pf))"

definition player_records :: "keyspace \<Rightarrow> fields" where
  "player_records ks = (case as_hash (ks player_idempotency_hash_key) of None \<Rightarrow> [] | Some h \<Rightarrow> h)"

text \<open>Every profile reads back, and every record names a stored player.\<close>

definition players_inv :: "keyspace \<Rightarrow> bool" where
  "players_inv ks \<longleftrightarrow>
     as_hash (ks player_idempotency_hash_key) = Some (player_records ks) \<and>
     (\<forall>p. ks (player_profile_key p) \<noteq> None \<longrightarrow> stored_player ks p \<noteq> None) \<and>
     (\<forall>k v. map_of (player_records ks) k = Some v \<longrightarrow>
        (\<exists>p pf. v = p @ ''|'' @ pf_name pf \<and> CHR ''|'' \<notin> set p \<and> stored_player ks p = Some pf))"

definition profile_fields :: "profile \<Rightarrow> fields" where
  "profile_fields pf = [(''player_name'', pf_name pf), (''created_at'', format_time (pf_created pf))]"

definition player_created :: "profile \<Rightarrow> string \<Rightarrow> keyspace \<Rightarrow> keyspace" where
  "player_created pf idem ks =
     (let ks' = ks(player_profile_key (pf_id pf) \<mapsto> Hash (profile_fields pf))
      in if idem = [] then ks'
         else ks'(player_idempotency_hash_key \<mapsto>
                Hash (AList.update idem (pf_id pf @ ''|'' @ pf_name pf) (player_records ks))))"

text \<open>The answer of a creation; the store changes only when a profile is written.\<close>

definition player_decide :: "keyspace \<Rightarrow> profile \<Rightarrow> string \<Rightarrow> (serr + string) option" where
  "player_decide ks pf idem =
     (case if idem = [] then None else map_of (player_records ks) idem of
        Some v \<Rightarrow>
          (case cut_at (CHR ''|'') v of
             None \<Rightarrow> None
           | Some (p, name) \<Rightarrow> Some (if name = pf_name pf then Inr p else Inl ErrIdempotencyConflict))
      | None \<Rightarrow> if ks (player_profile_key (pf_id pf)) \<noteq> None then Some (Inl ErrPlayerExists) else None)"

lemma players_inv_empty: "players_inv Map.empty"
  by (simp add: players_inv_def player_records_def)

lemma players_inv_frame:
  assumes "ks' player_idempotency_hash_key = ks player_idempotency_hash_key"
    "\<And>p. ks' (player_profile_key p) = ks (player_profile_key p)"
  shows "players_inv ks' = players_inv ks"
  using assms by (simp add: players_inv_def player_records_def stored_player_def)

lemma player_record_cut:
  assumes "players_inv ks" "map_of (player_records ks) k = Some v"
  obtains p pf where "cut_at (CHR ''|'') v = Some (p, pf_name pf)" "stored_player ks p = Some pf"
  using assms unfolding players_inv_def by fastforce

lemma doc_create_player_script:
  assumes inv: "players_inv ks"
  shows "create_player_script (doc_redis i) (player_profile_key (pf_id pf)) player_idempotency_hash_key
      (pf_name pf) (format_time (pf_created pf)) (pf_id pf) idem ks =
    (case player_decide ks pf idem of
       Some (Inr p) \<Rightarrow> (Inr (lua_result (0, p)), ks)
     | Some (Inl ErrPlayerExists) \<Rightarrow> (Inr (lua_result (- 1, [])), ks)
     | Some (Inl _) \<Rightarrow> (Inr (lua_result (- 4, [])), ks)
     | None \<Rightarrow> (Inr (lua_result (1, pf_id pf)), player_created pf idem ks))"
proof -
  have h: "as_hash (ks player_idempotency_hash_key) = Some (player_records ks)"
    using inv by (simp add: players_inv_def)
  show ?thesis
  proof (cases "idem = [] \<or> map_of (player_records ks) idem = None")
    case True
    with h show ?thesis
      by (cases "ks (player_profile_key (pf_id pf))"; cases "idem = []")
        (simp_all add: create_player_script_def io_bind_def doc_cmds player_decide_def player_created_def
          profile_fields_def Let_def)
  next
    case False
    then obtain v where v: "map_of (player_records ks) idem = Some v" by blast
    obtain p pf' where "cut_at (CHR ''|'') v = Some (p, pf_name pf')" "stored_player ks p = Some pf'"
      by (rule player_record_cut [OF inv v])
    with False v h show ?thesis
      by (simp add: create_player_script_def io_bind_def doc_cmds player_decide_def)
  qed
qed

lemma doc_create_player:
  assumes "players_inv ks"
  shows "create_player_profile (doc_redis i) pf idem (quiet ks) =
    (case player_decide ks pf idem of
       Some r \<Rightarrow> (r, quiet ks) | None \<Rightarrow> (Inr (pf_id pf), quiet (player_created pf idem ks)))"
proof -
  have "player_decide ks pf idem = None \<or> player_decide ks pf idem = Some (Inl ErrPlayerExists) \<or>
      player_decide ks pf idem = Some (Inl ErrIdempotencyConflict) \<or> (\<exists>p. player_decide ks pf idem = Some (Inr p))"
    by (auto simp: player_decide_def split: option.splits)
  then show ?thesis
    unfolding create_player_profile_def io_bind_def call_quiet doc_create_player_script [OF assms]
    by (elim disjE exE) (simp_all add: decode_create_def lua_result_def create_code_defs)
qed

lemma profile_from_fields_created:
  "in_years (pf_created pf) \<Longrightarrow>
    profile_from_fields (pf_id pf) (profile_fields pf) = Inr (pf\<lparr>pf_created := trunc_ms (pf_created pf)\<rparr>)"
  by (simp add: profile_from_fields_def profile_fields_def profile_field_defs parse_format_time_lemma trunc_ms_def)

lemma stored_player_created:
  assumes "in_years (pf_created pf)"
  shows "stored_player (player_created pf idem ks) p =
    (if p = pf_id pf then Some (pf\<lparr>pf_created := trunc_ms (pf_created pf)\<rparr>) else stored_player ks p)"
  using profile_from_fields_created [OF assms] by (simp add: stored_player_def player_created_def Let_def)

lemma player_created_inv:
  assumes inv: "players_inv ks" and none: "ks (player_profile_key (pf_id pf)) = None"
    and pf: "in_years (pf_created pf)" "CHR ''|'' \<notin> set (pf_id pf)"
  shows "players_inv (player_created pf idem ks)"
proof -
  let ?ks = "player_created pf idem ks"
  note stored = stored_player_created [OF pf(1), of idem ks]
  have not_stored: "stored_player ks (pf_id pf) = None"
    using none by (simp add: stored_player_def profile_from_fields_def)
  have recs: "map_of (player_records ?ks) =
      (if idem = [] then map_of (player_records ks)
       else (map_of (player_records ks))(idem \<mapsto> pf_id pf @ ''|'' @ pf_name pf))"
    by (simp add: player_records_def player_created_def Let_def update_conv')
  have "stored_player ?ks p \<noteq> None" if "?ks (player_profile_key p) \<noteq> None" for p
  proof (cases "p = pf_id pf")
    case False
    then have "?ks (player_profile_key p) = ks (player_profile_key p)"
      by (simp add: player_created_def Let_def)
    with False that inv show ?thesis unfolding players_inv_def stored by simp
  qed (simp add: stored)
  moreover have "\<exists>p pf'. v = p @ ''|'' @ pf_name pf' \<and> CHR ''|'' \<notin> set p \<and> stored_player ?ks p = Some pf'"
    if v: "map_of (player_records ?ks) k = Some v" for k v
  proof (cases "idem \<noteq> [] \<and> k = idem")
    case True
    with v recs have "v = pf_id pf @ ''|'' @ pf_name (pf\<lparr>pf_created := trunc_ms (pf_created pf)\<rparr>)" by simp
    with pf(2) stored show ?thesis by (metis (full_types))
  next
    case False
    with v recs have "map_of (player_records ks) k = Some v" by (auto split: if_splits)
    then obtain p pf' where p: "v = p @ ''|'' @ pf_name pf'" "CHR ''|'' \<notin> set p" "stored_player ks p = Some pf'"
      using inv unfolding players_inv_def by blast
    with not_stored have "stored_player ?ks p = Some pf'" by (auto simp: stored)
    with p show ?thesis by blast
  qed
  moreover have "as_hash (?ks player_idempotency_hash_key) = Some (player_records ?ks)"
    using inv by (simp add: players_inv_def player_records_def player_created_def Let_def)
  ultimately show ?thesis unfolding players_inv_def by blast
qed

lemma doc_get_player:
  assumes "players_inv ks"
  shows "get_player_profile (doc_redis i) p (quiet ks) =
    (case stored_player ks p of None \<Rightarrow> Inl ErrNotFound | Some pf \<Rightarrow> Inr pf, quiet ks)"
proof (cases "ks (player_profile_key p)")
  case None
  then show ?thesis
    by (simp add: get_player_profile_def io_bind_def call_quiet doc_cmds stored_player_def
        profile_from_fields_def)
next
  case (Some v)
  with assms obtain pf where pf: "stored_player ks p = Some pf" unfolding players_inv_def by blast
  then obtain h where h: "as_hash (ks (player_profile_key p)) = Some h" "profile_from_fields p h = Inr pf"
    by (auto simp: stored_player_def split: option.splits sum.splits)
  then have "h \<noteq> []" by (auto simp: profile_from_fields_def)
  with pf h show ?thesis by (simp add: get_player_profile_def io_bind_def call_quiet doc_cmds)
qed

text \<open>What a retry under the key of a created player decides.\<close>

lemma player_decide_created:
  assumes "idem \<noteq> []" "CHR ''|'' \<notin> set (pf_id pf)"
  shows "player_decide (player_created pf idem ks) pf' idem =
    Some (if pf_name pf' = pf_name pf then Inr (pf_id pf) else Inl ErrIdempotencyConflict)"
  using assms by (simp add: player_decide_def player_created_def player_records_def Let_def update_conv')

lemma stored_board_id: "stored_board ks b = Some bd \<Longrightarrow> bd_id bd = b"
  by (auto simp: stored_board_def board_from_fields_def split: option.splits sum.splits if_splits)

lemma stored_boards_listed:
  assumes "registry_inv ks"
  defines "bs \<equiv> map (\<lambda>b. the (stored_board ks b)) (map snd (board_index ks))"
  shows "map bd_id bs = map snd (board_index ks)" "distinct (map bd_id bs)"
    "bd \<in> set bs \<longleftrightarrow> stored_board ks (bd_id bd) = Some bd"
proof -
  have some: "\<exists>bd. stored_board ks b = Some bd \<and> bd_id bd = b" if "b \<in> snd ` set (board_index ks)" for b
    using assms(1) that stored_board_id unfolding registry_inv_def by blast
  then show ids: "map bd_id bs = map snd (board_index ks)" unfolding bs_def by force
  then show "distinct (map bd_id bs)" using assms(1) by (simp add: registry_inv_def z_ok_def)
  have "ks (board_profile_key b) \<noteq> None" if "stored_board ks b = Some d" for b d
    using that by (cases "ks (board_profile_key b)") (simp_all add: stored_board_def board_from_fields_def)
  then have "b \<in> snd ` set (board_index ks)" if "stored_board ks b = Some d" for b d
    using assms(1) that by (simp add: registry_inv_def)
  then show "bd \<in> set bs \<longleftrightarrow> stored_board ks (bd_id bd) = Some bd"
    using some unfolding bs_def by (force simp: image_iff)
qed

subsection \<open>Damaged hashes\<close>

text \<open>A listing skips a hash that is no board, unless a creation time is there and does not parse.\<close>

definition bad_timestamp :: "fields \<Rightarrow> bool" where
  "bad_timestamp fs \<longleftrightarrow> map_of fs board_name_field \<noteq> None \<and>
     (case map_of fs board_created_at_field of None \<Rightarrow> False | Some raw \<Rightarrow> parse_time raw = None)"

definition readable_boards :: "(string \<times> fields) list \<Rightarrow> board list" where
  "readable_boards hs = concat (map (\<lambda>(b, fs). case board_from_fields b fs of Inl _ \<Rightarrow> [] | Inr bd \<Rightarrow> [bd]) hs)"

lemma board_from_fields_Inl:
  "board_from_fields b fs = Inl e \<Longrightarrow> e = (if bad_timestamp fs then StorageOther else ErrInconsistent)"
  "bad_timestamp fs \<Longrightarrow> board_from_fields b fs = Inl StorageOther"
  by (auto simp: board_from_fields_def bad_timestamp_def split: option.splits if_splits)

lemma listed_boards_all:
  "listed_boards hs =
    (if \<exists>h \<in> set hs. bad_timestamp (snd h) then Inl StorageOther else Inr (readable_boards hs))"
proof (induction hs)
  case (Cons h hs)
  obtain b fs where h: "h = (b, fs)" by fastforce
  have empty: "\<not> bad_timestamp []" "board_from_fields b [] = Inl ErrInconsistent" for b
    by (simp_all add: bad_timestamp_def board_from_fields_def)
  show ?case
    using Cons board_from_fields_Inl [where b = b and fs = fs] empty
    by (cases "board_from_fields b fs") (auto simp: h readable_boards_def)
qed (simp add: readable_boards_def)

end
