(* ===== verification/Clients.thy ===== *)
theory Clients
  imports BoardPlayer
begin

section \<open>What the clients of one server do: steps, reachable states, invariants\<close>

text \<open>
  The program runs as concurrent request handlers and consumers on one server; each command or
  script is one step. \<open>client_step\<close> lists every step that writes, with the arguments the program
  gives it, and the expiry of records and daily keys by the server. A rebuild deletes and rewrites a
  live leaderboard from outside the write script, command by command; \<open>U\<close> is the set of boards that
  rebuilds, any number of them at once, may be working on. Their leaderboards can then hold anything,
  and a score write that lands meanwhile decides on what it finds. The invariant says what survives:
  everything, but for the leaderboards and the score bounds of the boards in \<open>U\<close>.
\<close>

definition is_zkey :: "string \<Rightarrow> bool" where
  "is_zkey k \<longleftrightarrow> (\<exists>p b. k = player_history_key p b) \<or> (\<exists>d. k = activity_daily_key d) \<or>
     (\<exists>b. k = board_verify_key b)"

inductive client_step :: "ext \<Rightarrow> 's redis \<Rightarrow> ('s \<Rightarrow> keyspace) \<Rightarrow> string set \<Rightarrow> 's \<Rightarrow> 's \<Rightarrow> bool"
  for X R view U where
  step_score: "writable X op p b n rq \<Longrightarrow> last_sid (ledger_of (view s)) < sid_max \<Longrightarrow>
    client_step X R view U s (snd (apply_score_event R (score_keys_for p b) (score_args_for op p b n rq idem) s))"
| step_board: "board_state_validate (bd_state (bd :: board)) \<Longrightarrow> in_years (bd_created bd) \<Longrightarrow>
    client_step X R view U s (snd (create_board_script R (board_profile_key (bd_id bd)) board_index_key
      (bd_id bd) (bd_name bd) (format_time (bd_created bd)) (format_int (unix_sec (bd_created bd)))
      (bd_state bd) s))"
| step_state: "board_state_validate st \<Longrightarrow>
    client_step X R view U s (snd (set_board_state_script R (board_profile_key b) st s))"
| step_player: "in_years (pf_created (pf :: profile)) \<Longrightarrow> CHR ''|'' \<notin> set (pf_id pf) \<Longrightarrow>
    client_step X R view U s (snd (create_player_script R (player_profile_key (pf_id pf))
      player_idempotency_hash_key (pf_name pf) (format_time (pf_created pf)) (pf_id pf) idem s))"
| step_zadd: "is_zkey k \<Longrightarrow> client_step X R view U s (snd (zadd_c R k d m s))"
| step_zincr: "is_zkey k \<Longrightarrow> client_step X R view U s (snd (zincrby_c R k d m s))"
| step_del: "client_step X R view U s (snd (del_c R (board_verify_key b) s))"
| step_expire: "0 < t \<Longrightarrow> client_step X R view U s (snd (expire_c R (activity_daily_key d) t s))"
| step_cursor: "client_step X R view U s (snd (set_c R (consumer_cursor_key c) v s))"
| step_expired_field: "h = idempotency_hash_key \<or> h = player_idempotency_hash_key \<Longrightarrow>
    as_hash (view s h) = Some fs \<Longrightarrow> view s' = (view s)(h \<mapsto> Hash (filter (\<lambda>e. P (fst e)) fs)) \<Longrightarrow>
    client_step X R view U s s'"
| step_expired_key: "view s' = (view s)(activity_daily_key d := None) \<Longrightarrow> client_step X R view U s s'"
| step_rebuild_del: "b \<in> U \<Longrightarrow> client_step X R view U s (snd (del_c R (leaderboard_key b) s))"
| step_rebuild_set: "b \<in> U \<Longrightarrow> client_step X R view U s (snd (zadd_c R (leaderboard_key b) d m s))"
| step_rebuild_incr: "b \<in> U \<Longrightarrow> client_step X R view U s (snd (zincrby_c R (leaderboard_key b) d m s))"

text \<open>The invariant of the whole store.\<close>

definition aux_inv :: "keyspace \<Rightarrow> bool" where
  "aux_inv ks \<longleftrightarrow>
     (\<forall>k. is_zkey k \<longrightarrow> (\<exists>z. as_zset (ks k) = Some z \<and> z_ok z \<and> NaN \<notin> fst ` set z)) \<and>
     (\<forall>c. ks (consumer_cursor_key c) = None \<or> (\<exists>v. ks (consumer_cursor_key c) = Some (Str v)))"

definition world_inv :: "ext \<Rightarrow> string set \<Rightarrow> keyspace \<Rightarrow> bool" where
  "world_inv X B ks \<longleftrightarrow> store_inv X B ks \<and> registry_inv ks \<and> players_inv ks \<and> aux_inv ks"

subsection \<open>Frames\<close>

lemma zkey_neq [simp]:
  assumes "is_zkey k"
  shows "k \<noteq> ledger_key" "k \<noteq> leaderboard_key b" "k \<noteq> idempotency_hash_key" "k \<noteq> board_profile_key b"
    "k \<noteq> player_profile_key p" "k \<noteq> board_index_key" "k \<noteq> player_idempotency_hash_key"
    "k \<noteq> consumer_cursor_key c" "consumer_cursor_key c \<noteq> k"
    "ledger_key \<noteq> k" "leaderboard_key b \<noteq> k" "idempotency_hash_key \<noteq> k" "board_profile_key b \<noteq> k"
    "player_profile_key p \<noteq> k" "board_index_key \<noteq> k" "player_idempotency_hash_key \<noteq> k"
  using assms by (auto simp: is_zkey_def)

lemma not_zkey [simp]:
  "\<not> is_zkey ledger_key" "\<not> is_zkey (leaderboard_key b)" "\<not> is_zkey idempotency_hash_key"
  "\<not> is_zkey (board_profile_key b)" "\<not> is_zkey (player_profile_key p)" "\<not> is_zkey board_index_key"
  "\<not> is_zkey player_idempotency_hash_key" "\<not> is_zkey (consumer_cursor_key c)"
  using zkey_neq by blast+

lemma is_zkeys [simp]:
  "is_zkey (player_history_key p b)" "is_zkey (activity_daily_key d)" "is_zkey (board_verify_key b)"
  unfolding is_zkey_def by blast+

lemma hashes_ok_frame:
  "ks' idempotency_hash_key = ks idempotency_hash_key \<Longrightarrow>
    (\<And>b. ks' (board_profile_key b) = ks (board_profile_key b)) \<Longrightarrow> hashes_ok ks' = hashes_ok ks"
  by (simp add: hashes_ok_def)

lemma store_inv_frame:
  "ks' ledger_key = ks ledger_key \<Longrightarrow> (\<And>b. ks' (leaderboard_key b) = ks (leaderboard_key b)) \<Longrightarrow>
    ks' idempotency_hash_key = ks idempotency_hash_key \<Longrightarrow>
    (\<And>b. ks' (board_profile_key b) = ks (board_profile_key b)) \<Longrightarrow> store_inv X B ks' = store_inv X B ks"
  using ledger_inv_frame [of ks' ks X] hashes_ok_frame [of ks' ks] by (simp add: store_inv_def)

lemma aux_inv_frame:
  "(\<And>k. is_zkey k \<Longrightarrow> ks' k = ks k) \<Longrightarrow>
    (\<And>c. ks' (consumer_cursor_key c) = ks (consumer_cursor_key c)) \<Longrightarrow> aux_inv ks' = aux_inv ks"
  by (auto simp: aux_inv_def)

text \<open>What is written outside the core keys leaves the core invariants alone.\<close>

definition same_core :: "keyspace \<Rightarrow> keyspace \<Rightarrow> bool" where
  "same_core ks ks' \<longleftrightarrow>
     (\<forall>k. \<not> is_zkey k \<and> (\<forall>c. k \<noteq> consumer_cursor_key c) \<longrightarrow> ks' k = ks k)"

lemma same_core_upd: "is_zkey k \<Longrightarrow> same_core ks (ks(k := v))"
  by (auto simp: same_core_def)

lemma same_core_cursor: "same_core ks (ks(consumer_cursor_key c := v))"
  by (auto simp: same_core_def)

lemma same_core_refl [simp]: "same_core ks ks"
  by (simp add: same_core_def)

lemma same_core_keys:
  assumes "same_core ks ks'"
  shows "ks' ledger_key = ks ledger_key" "ks' (leaderboard_key b) = ks (leaderboard_key b)"
    "ks' idempotency_hash_key = ks idempotency_hash_key"
    "ks' (board_profile_key b) = ks (board_profile_key b)"
    "ks' (player_profile_key p) = ks (player_profile_key p)" "ks' board_index_key = ks board_index_key"
    "ks' player_idempotency_hash_key = ks player_idempotency_hash_key"
  using assms by (simp_all add: same_core_def)

lemma same_core_inv:
  assumes "same_core ks ks'"
  shows "store_inv X B ks' = store_inv X B ks" "registry_inv ks' = registry_inv ks"
    "players_inv ks' = players_inv ks" "ledger_of ks' = ledger_of ks"
proof -
  note keys = same_core_keys [OF assms]
  show "store_inv X B ks' = store_inv X B ks" by (rule store_inv_frame) (rule keys)+
  show "registry_inv ks' = registry_inv ks" by (rule registry_inv_frame) (rule keys)+
  show "players_inv ks' = players_inv ks" by (rule players_inv_frame) (rule keys)+
  show "ledger_of ks' = ledger_of ks" by (simp add: ledger_of_def keys)
qed

subsection \<open>The steps on the documented server\<close>

lemma z_add_not_NaN: "d \<noteq> NaN \<Longrightarrow> NaN \<notin> fst ` set z \<Longrightarrow> NaN \<notin> fst ` set (z_add d m z)"
  by (auto simp: set_z_add)

lemma doc_zadd_aux:
  assumes "aux_inv ks" "is_zkey k"
  shows "same_core ks (snd (zadd_c (doc_redis i) k d m ks)) \<and> aux_inv (snd (zadd_c (doc_redis i) k d m ks))"
proof -
  obtain z where z: "as_zset (ks k) = Some z" "z_ok z" "NaN \<notin> fst ` set z"
    using assms by (auto simp: aux_inv_def)
  have "aux_inv (ks(k \<mapsto> ZSet (z_add d m z)))" if "d \<noteq> NaN"
    using assms z z_add_not_NaN [OF that z(3)] by (auto simp: aux_inv_def)
  with z assms show ?thesis by (auto simp: doc_cmds same_core_upd)
qed

lemma doc_zincr_aux:
  assumes "aux_inv ks" "is_zkey k"
  shows "same_core ks (snd (zincrby_c (doc_redis i) k d m ks)) \<and> aux_inv (snd (zincrby_c (doc_redis i) k d m ks))"
proof -
  obtain z where z: "as_zset (ks k) = Some z" "z_ok z" "NaN \<notin> fst ` set z"
    using assms by (auto simp: aux_inv_def)
  have "aux_inv (ks(k \<mapsto> ZSet (z_add d' m z)))" if "d' \<noteq> NaN" for d'
    using assms z z_add_not_NaN [OF that z(3)] by (auto simp: aux_inv_def)
  with z assms show ?thesis by (auto simp: doc_cmds Let_def same_core_upd)
qed

lemma aux_inv_None: "aux_inv ks \<Longrightarrow> is_zkey k \<Longrightarrow> aux_inv (ks(k := None))"
  by (auto simp: aux_inv_def z_ok_def)

lemma aux_inv_cursor: "aux_inv ks \<Longrightarrow> aux_inv (ks(consumer_cursor_key c \<mapsto> Str v))"
  by (auto simp: aux_inv_def)

lemma board_created_other:
  "k \<noteq> board_profile_key (bd_id bd) \<Longrightarrow> k \<noteq> board_index_key \<Longrightarrow> board_created bd ks k = ks k"
  by (simp add: board_created_def)

lemma player_created_other:
  "k \<noteq> player_profile_key (pf_id pf) \<Longrightarrow> k \<noteq> player_idempotency_hash_key \<Longrightarrow>
    player_created pf idem ks k = ks k"
  by (simp add: player_created_def Let_def)

lemma board_created_world:
  assumes inv: "world_inv X B ks" and bd: "board_state_validate (bd_state bd)" "in_years (bd_created bd)"
  shows "world_inv X B (board_created bd ks)"
proof -
  have "hashes_ok (board_created bd ks)"
    using inv by (auto simp: world_inv_def store_inv_def hashes_ok_def board_created_def)
  moreover have "ledger_inv X B (board_created bd ks) = ledger_inv X B ks"
    by (rule ledger_inv_frame) (simp_all add: board_created_other)
  moreover have "players_inv (board_created bd ks) = players_inv ks"
    by (rule players_inv_frame) (simp_all add: board_created_other)
  moreover have "aux_inv (board_created bd ks) = aux_inv ks"
    by (rule aux_inv_frame) (simp_all add: board_created_other)
  ultimately show ?thesis
    using inv board_created_registry bd by (simp add: world_inv_def store_inv_def)
qed

lemma player_created_world:
  assumes inv: "world_inv X B ks" and none: "ks (player_profile_key (pf_id pf)) = None"
    and pf: "in_years (pf_created pf)" "CHR ''|'' \<notin> set (pf_id pf)"
  shows "world_inv X B (player_created pf idem ks)"
proof -
  have "store_inv X B (player_created pf idem ks) = store_inv X B ks"
    by (rule store_inv_frame) (simp_all add: player_created_other)
  moreover have "registry_inv (player_created pf idem ks) = registry_inv ks"
    by (rule registry_inv_frame) (simp_all add: player_created_other)
  moreover have "aux_inv (player_created pf idem ks) = aux_inv ks"
    by (rule aux_inv_frame) (simp_all add: player_created_other)
  moreover have "players_inv (player_created pf idem ks)"
    using inv none pf by (intro player_created_inv) (simp_all add: world_inv_def)
  ultimately show ?thesis using inv by (simp add: world_inv_def)
qed

text \<open>A state change of a board: the hash keeps its other fields.\<close>

definition state_set :: "string \<Rightarrow> string \<Rightarrow> keyspace \<Rightarrow> keyspace" where
  "state_set b st ks = ks(board_profile_key b \<mapsto>
     Hash (AList.update ''board_state'' st (case as_hash (ks (board_profile_key b)) of None \<Rightarrow> [] | Some h \<Rightarrow> h)))"

lemma doc_set_board_state_script:
  assumes "hashes_ok ks"
  shows "set_board_state_script (doc_redis i) (board_profile_key b) st ks =
    (if ks (board_profile_key b) = None then (Inr 0, ks) else (Inr 1, state_set b st ks))"
proof -
  obtain h where "as_hash (ks (board_profile_key b)) = Some h" using assms unfolding hashes_ok_def by blast
  then show ?thesis by (simp add: set_board_state_script_def io_bind_def doc_cmds state_set_def)
qed

lemma state_set_other: "k \<noteq> board_profile_key b \<Longrightarrow> state_set b st ks k = ks k"
  by (simp add: state_set_def)

lemma stored_board_state_set:
  assumes "stored_board ks b = Some bd" "board_state_validate st"
  shows "stored_board (state_set b st ks) c =
    (if c = b then Some (bd\<lparr>bd_state := st\<rparr>) else stored_board ks c)"
proof (cases "c = b")
  case True
  obtain h where h: "as_hash (ks (board_profile_key b)) = Some h" "board_from_fields b h = Inr bd"
    using assms(1) by (auto simp: stored_board_def split: option.splits sum.splits)
  have "board_from_fields b (AList.update ''board_state'' st h) = Inr (bd\<lparr>bd_state := st\<rparr>)"
    using h(2) assms(2)
    by (auto simp: board_from_fields_def board_field_defs update_conv' split: option.splits if_splits)
  with h True show ?thesis by (simp add: stored_board_def state_set_def)
next
  case False
  then show ?thesis by (simp add: stored_board_def state_set_def)
qed

lemma state_set_world:
  assumes inv: "world_inv X B ks" and st: "board_state_validate st" and b: "ks (board_profile_key b) \<noteq> None"
  shows "world_inv X B (state_set b st ks)"
proof -
  have reg: "registry_inv ks" and ok: "hashes_ok ks"
    using inv by (simp_all add: world_inv_def store_inv_def)
  obtain bd where bd: "stored_board ks b = Some bd" using reg b unfolding registry_inv_def by blast
  have "state_set b st ks (board_profile_key c) \<noteq> None \<longleftrightarrow> ks (board_profile_key c) \<noteq> None" for c
    using b by (cases "c = b") (auto simp: state_set_def)
  then have "registry_inv (state_set b st ks)"
    using reg stored_board_state_set [OF bd st]
    by (simp add: registry_inv_def board_index_def state_set_other)
  moreover have "as_hash (state_set b st ks (board_profile_key c)) \<noteq> None" for c
    using ok by (cases "c = b") (auto simp: state_set_def hashes_ok_def)
  then have "hashes_ok (state_set b st ks)" using ok by (simp add: hashes_ok_def state_set_other)
  moreover have "ledger_inv X B (state_set b st ks) = ledger_inv X B ks"
    by (rule ledger_inv_frame) (simp_all add: state_set_other)
  moreover have "players_inv (state_set b st ks) = players_inv ks"
    by (rule players_inv_frame) (simp_all add: state_set_other)
  moreover have "aux_inv (state_set b st ks) = aux_inv ks"
    by (rule aux_inv_frame) (simp_all add: state_set_other)
  ultimately show ?thesis using inv by (simp add: world_inv_def store_inv_def)
qed

text \<open>The expiry of records.\<close>

lemma map_of_filter_key: "map_of (filter (\<lambda>e. P (fst e)) fs) k = (if P k then map_of fs k else None)"
  by (induction fs) auto

lemma expired_field_world:
  assumes inv: "world_inv X B ks" and h: "h = idempotency_hash_key \<or> h = player_idempotency_hash_key"
    and fs: "as_hash (ks h) = Some fs"
  shows "world_inv X B (ks(h \<mapsto> Hash (filter (\<lambda>e. P (fst e)) fs)))" (is "world_inv X B ?ks")
proof -
  have store: "store_inv X B ks" and reg: "registry_inv ks" and pl: "players_inv ks" and aux: "aux_inv ks"
    using inv by (simp_all add: world_inv_def)
  have aux': "aux_inv ?ks = aux_inv ks" by (rule aux_inv_frame) (use h in auto)
  have reg': "registry_inv ?ks = registry_inv ks" by (rule registry_inv_frame) (use h in auto)
  from h show ?thesis
  proof
    assume h: "h = idempotency_hash_key"
    have "players_inv ?ks = players_inv ks" by (rule players_inv_frame) (use h in auto)
    moreover have "ledger_inv X B ?ks = ledger_inv X B ks" by (rule ledger_inv_frame) (use h in auto)
    moreover have "hashes_ok ?ks"
      using store fs h unfolding store_inv_def hashes_ok_def by (auto simp: map_of_filter_key)
    ultimately show ?thesis using store reg pl aux aux' reg' by (simp add: world_inv_def store_inv_def)
  next
    assume h: "h = player_idempotency_hash_key"
    have "store_inv X B ?ks = store_inv X B ks" by (rule store_inv_frame) (use h in auto)
    moreover have "stored_player ?ks p = stored_player ks p" for p using h by (simp add: stored_player_def)
    moreover have "player_records ks = fs" using fs h by (simp add: player_records_def)
    moreover have "player_records ?ks = filter (\<lambda>e. P (fst e)) fs" using h by (simp add: player_records_def)
    ultimately have "players_inv ?ks"
      using pl h unfolding players_inv_def by (auto simp: map_of_filter_key)
    then show ?thesis
      using store reg aux aux' reg' \<open>store_inv X B ?ks = store_inv X B ks\<close> by (simp add: world_inv_def)
  qed
qed

subsection \<open>Every step keeps the invariant\<close>

lemma obs_snd: "obs v p = q \<Longrightarrow> v (snd p) = snd q"
  by (auto simp: obs_def)

lemma wrote_world_inv:
  assumes "wrote X op p b n rq idem ks ks'" "world_inv X B ks" "writable X op p b n rq" "b \<in> B"
  shows "world_inv X B ks'"
proof -
  have "registry_inv ks' = registry_inv ks" "players_inv ks' = players_inv ks" "aux_inv ks' = aux_inv ks"
    using wrote_other [OF assms(1)]
    by (auto intro!: registry_inv_frame players_inv_frame aux_inv_frame)
  with wrote_store_inv [OF assms(1)] assms(2-4) show ?thesis by (simp add: world_inv_def)
qed

text \<open>The ledger only grows: the old entries are a prefix of the new ones.\<close>

definition ledger_grows :: "keyspace \<Rightarrow> keyspace \<Rightarrow> bool" where
  "ledger_grows ks ks' \<longleftrightarrow> (\<exists>es. ledger_of ks' = ledger_of ks @ es)"

lemma ledger_grows_same [intro]: "ks' ledger_key = ks ledger_key \<Longrightarrow> ledger_grows ks ks'"
  by (simp add: ledger_grows_def ledger_of_def)

lemma ledger_grows_trans: "ledger_grows a b \<Longrightarrow> ledger_grows b c \<Longrightarrow> ledger_grows a c"
  by (auto simp: ledger_grows_def)

lemma wrote_grows: "wrote X op p b n rq idem ks ks' \<Longrightarrow> ledger_grows ks ks'"
  using wrote_ledger unfolding ledger_grows_def by blast

lemma core_step_world:
  assumes core: "same_core ks ks'" and "aux_inv ks'" "world_inv X B ks"
  shows "world_inv X B ks' \<and> ledger_grows ks ks'"
  using same_core_inv [OF core] same_core_keys [OF core] assms(2,3) by (auto simp: world_inv_def)

text \<open>The boards that are not covered: an entry of theirs, and a sorted set for a leaderboard.\<close>

lemma appended_other:
  "k \<noteq> leaderboard_key b \<Longrightarrow> k \<noteq> ledger_key \<Longrightarrow> k \<noteq> idempotency_hash_key \<Longrightarrow>
    appended i op p b n rq idem z ks k = ks k"
  by (simp add: appended_def score_applied_other)

lemma appended_ledger: "ledger_of (appended i op p b n rq idem z ks) =
    ledger_of ks @ [(i, ledger_fields op p b (format_int n) rq)]"
  by (simp add: appended_def)

lemma appended_world:
  assumes inv: "world_inv X B ks" and w: "writable X op p b n rq" and b: "b \<notin> B"
    and i: "sid_ok i" "last_sid (ledger_of ks) < i" and z: "z_ok z" "NaN \<notin> fst ` set z"
  shows "world_inv X B (appended i op p b n rq idem z ks)" (is "world_inv X B ?ks")
proof -
  have led: "ledger_inv X B ks" and ok: "hashes_ok ks" using inv by (simp_all add: world_inv_def store_inv_def)
  have dec: "entry_to_event X (to_msg (i, ledger_fields op p b (format_int n) rq)) = Inr (event_of i op p b n rq)"
    using w by (rule entry_to_event_ledger)
  have "ledger_inv X B (ks(leaderboard_key b \<mapsto> ZSet z,
      ledger_key \<mapsto> Stream (ledger_of ks @ [(i, ledger_fields op p b (format_int n) rq)])))"
    using ledger_inv_append_other [OF led i dec _ z] b by simp
  moreover have "ledger_inv X B ?ks = ledger_inv X B (ks(leaderboard_key b \<mapsto> ZSet z,
      ledger_key \<mapsto> Stream (ledger_of ks @ [(i, ledger_fields op p b (format_int n) rq)])))"
    by (rule ledger_inv_frame) (simp_all add: appended_def score_applied_def Let_def)
  moreover have "hashes_ok ?ks"
    using score_applied_hashes [OF ok writable_op [OF w], of i p b n 0 rq idem]
    by (simp add: appended_def hashes_ok_def)
  moreover have "registry_inv ?ks = registry_inv ks" by (rule registry_inv_frame) (simp_all add: appended_other)
  moreover have "players_inv ?ks = players_inv ks" by (rule players_inv_frame) (simp_all add: appended_other)
  moreover have "aux_inv ?ks = aux_inv ks" by (rule aux_inv_frame) (simp_all add: appended_other)
  ultimately show ?thesis using inv by (simp add: world_inv_def store_inv_def)
qed

lemma appended_grows: "ledger_grows ks (appended i op p b n rq idem z ks)"
  unfolding ledger_grows_def appended_ledger by blast

lemma leaderboard_world:
  assumes inv: "world_inv X B ks" and b: "b \<notin> B" and v: "zset_ok v"
  shows "world_inv X B (ks(leaderboard_key b := v)) \<and> ledger_grows ks (ks(leaderboard_key b := v))" 
proof -
  let ?ks = "ks(leaderboard_key b := v)"
  have "leaderboard_key b \<noteq> leaderboard_key c" if "c \<in> B" for c using that b by auto
  then have "ledger_inv X B ?ks" using inv v by (auto simp: world_inv_def store_inv_def ledger_inv_def)
  moreover have "hashes_ok ?ks = hashes_ok ks" by (rule hashes_ok_frame) simp_all
  moreover have "registry_inv ?ks = registry_inv ks" by (rule registry_inv_frame) simp_all
  moreover have "players_inv ?ks = players_inv ks" by (rule players_inv_frame) simp_all
  moreover have "aux_inv ?ks = aux_inv ks" by (rule aux_inv_frame) simp_all
  ultimately show ?thesis using inv by (auto simp: world_inv_def store_inv_def)
qed

lemma world_inv_zset: "world_inv X B ks \<Longrightarrow> zset_ok (ks (leaderboard_key b))"
  by (simp add: world_inv_def store_inv_def ledger_inv_def)

lemma world_inv_subset: "world_inv X B ks \<Longrightarrow> B' \<subseteq> B \<Longrightarrow> world_inv X B' ks"
  unfolding world_inv_def store_inv_def using ledger_inv_subset by blast

context redis_server
begin

lemma view_score_step:
  assumes "world_inv X B (view s)" "writable X op p b n rq" "last_sid (ledger_of (view s)) < sid_max"
    and cov: "b \<in> B \<or> board_state_of (view s) b = Some board_closed"
  shows "view (snd (apply_score_event R (score_keys_for p b) (score_args_for op p b n rq idem) s)) = view s \<or>
    b \<in> B \<and> wrote X op p b n rq idem (view s)
      (view (snd (apply_score_event R (score_keys_for p b) (score_args_for op p b n rq idem) s)))"
proof -
  have "store_inv X B (view s)" "score_validate n" using assms(1,2) by (simp_all add: world_inv_def writable_def)
  from script_run [OF this assms(3) cov, of p op rq idem] obtain r s' where
    run: "apply_score_event R (score_keys_for p b) (score_args_for op p b n rq idem) s = (Inr r, s')"
      "if decide (board_scores X b (ledger_of (view s))) (view s) op p b n idem = None
       then wrote X op p b n rq idem (view s) (view s') else view s' = view s"
    by blast
  have "hashes_ok (view s)" using assms(1) by (simp add: world_inv_def store_inv_def)
  then have "decide (board_scores X b (ledger_of (view s))) (view s) op p b n idem \<noteq> None" if "b \<notin> B"
    using decide_closed cov that by blast
  with run show ?thesis by (auto split: if_splits)
qed

text \<open>On any board, covered or not, open or closed.\<close>

lemma view_score_any:
  assumes "world_inv X B (view s)" "last_sid (ledger_of (view s)) < sid_max"
  shows "view (snd (apply_score_event R (score_keys_for p b) (score_args_for op p b n rq idem) s)) = view s \<or>
    (\<exists>i z. sid_ok i \<and> last_sid (ledger_of (view s)) < i \<and> z_ok z \<and> NaN \<notin> fst ` set z \<and>
      view (snd (apply_score_event R (score_keys_for p b) (score_args_for op p b n rq idem) s)) =
        appended i op p b n rq idem z (view s))"
proof -
  have led: "ledger_inv X B (view s)" and ok: "hashes_ok (view s)"
    using assms(1) by (simp_all add: world_inv_def store_inv_def)
  show ?thesis
    by (rule apply_script_any [OF world_inv_zset [OF assms(1)] ledger_inv_stream [OF led] ok assms(2) prod.collapse [symmetric]])
qed

text \<open>A rebuild's command leaves the leaderboard a sorted set.\<close>

lemma view_rebuild_step:
  assumes "zset_ok (view s (leaderboard_key b))"
    and "s' = snd (del_c R (leaderboard_key b) s) \<or> s' = snd (zadd_c R (leaderboard_key b) d m s) \<or>
      s' = snd (zincrby_c R (leaderboard_key b) d m s)"
  shows "\<exists>v. zset_ok v \<and> view s' = (view s)(leaderboard_key b := v)"
proof -
  let ?k = "leaderboard_key b"
  have same: "\<exists>v. zset_ok v \<and> view s = (view s)(?k := v)" using assms(1) by (intro exI [of _ "view s ?k"]) simp
  have step: "\<exists>v. zset_ok v \<and> ks' = (view s)(?k := v)" if "ks' = view s \<or> zset_step (view s) ?k ks'" for ks'
    using that same unfolding zset_step_def by (metis zset_ok_ZSet)
  from assms(2) consider "s' = snd (del_c R ?k s)" | "s' = snd (zadd_c R ?k d m s)" | "s' = snd (zincrby_c R ?k d m s)"
    by blast
  then show ?thesis
  proof cases
    case 1
    then have "view s' = (view s)(?k := None)" using obs_snd [OF law_del [of ?k s "(0, 1)"]] by (simp add: doc_cmds)
    then show ?thesis by (intro exI [of _ None]) simp
  next
    case 2
    then have "view s' = snd (zadd_c (doc_redis (0, 1)) ?k d m (view s))"
      using obs_snd [OF law_zadd [of ?k d m s "(0, 1)"]] by simp
    with doc_zadd_zset [where ks = "view s" and k = ?k, OF assms(1) prod.collapse [symmetric]] show ?thesis
      by (intro step) auto
  next
    case 3
    then have "view s' = snd (zincrby_c (doc_redis (0, 1)) ?k d m (view s))"
      using obs_snd [OF law_zincrby [of ?k d m s "(0, 1)"]] by simp
    with doc_zincrby_zset [where ks = "view s" and k = ?k, OF assms(1) prod.collapse [symmetric]] show ?thesis
      by (intro step) auto
  qed
qed

lemma view_board_step:
  assumes "registry_inv (view s)" "board_state_validate (bd_state bd)"
  shows "view (snd (create_board_script R (board_profile_key (bd_id bd)) board_index_key
      (bd_id bd) (bd_name bd) (format_time (bd_created bd)) (format_int (unix_sec (bd_created bd)))
      (bd_state bd) s)) =
    (if view s (board_profile_key (bd_id bd)) = None then board_created bd (view s) else view s)"
proof -
  have "snd (create_board (doc_redis (0, 1)) bd (quiet (view s))) =
    quiet (snd (create_board_script (doc_redis (0, 1)) (board_profile_key (bd_id bd)) board_index_key
      (bd_id bd) (bd_name bd) (format_time (bd_created bd)) (format_int (unix_sec (bd_created bd)))
      (bd_state bd) (view s)))"
    using assms(2) by (auto simp: create_board_def io_bind_def call_quiet split: sum.split prod.split)
  with doc_create_board [OF assms, of "(0, 1)"] obs_snd [OF sim_create_board_script] show ?thesis
    by (auto split: if_splits)
qed

lemma view_state_step:
  assumes "hashes_ok (view s)"
  shows "view (snd (set_board_state_script R (board_profile_key b) st s)) =
    (if view s (board_profile_key b) = None then view s else state_set b st (view s))"
  using obs_snd [OF sim_set_board_state_script, of "board_profile_key b" st s "(0, 1)"]
    doc_set_board_state_script [OF assms, of "(0, 1)" b st] by simp

lemma view_player_step:
  assumes "players_inv (view s)"
  shows "view (snd (create_player_script R (player_profile_key (pf_id pf)) player_idempotency_hash_key
      (pf_name pf) (format_time (pf_created pf)) (pf_id pf) idem s)) =
    (if player_decide (view s) pf idem = None then player_created pf idem (view s) else view s)"
  using obs_snd [OF sim_create_player_script, of "player_profile_key (pf_id pf)" player_idempotency_hash_key
      "pf_name pf" "format_time (pf_created pf)" "pf_id pf" idem s "(0, 1)"]
    doc_create_player_script [OF assms, of "(0, 1)" pf idem]
  by (auto split: option.splits sum.splits serr.splits)

lemma player_decide_None: "player_decide ks pf idem = None \<Longrightarrow> players_inv ks \<Longrightarrow> ks (player_profile_key (pf_id pf)) = None"
proof -
  assume dec: "player_decide ks pf idem = None" and inv: "players_inv ks"
  show ?thesis
  proof (cases "if idem = [] then None else map_of (player_records ks) idem")
    case None
    with dec show ?thesis by (auto simp: player_decide_def split: if_splits)
  next
    case (Some v)
    then have v: "map_of (player_records ks) idem = Some v" by (simp split: if_splits)
    obtain p pf' where "cut_at (CHR ''|'') v = Some (p, pf_name pf')" "stored_player ks p = Some pf'"
      by (rule player_record_cut [OF inv v])
    with Some dec show ?thesis by (simp add: player_decide_def)
  qed
qed

theorem client_step_world:
  assumes "client_step X R view U s s'" "world_inv X B (view s)" "U \<inter> B = {}"
  shows "world_inv X B (view s') \<and> ledger_grows (view s) (view s')"
  using assms(1)
proof cases
  case (step_score op p b n rq idem)
  show ?thesis
  proof (cases "b \<in> B")
    case True
    with view_score_step [OF assms(2) step_score(2,3), of idem] step_score assms(2) show ?thesis
      using wrote_world_inv wrote_grows by auto
  next
    case False
    with view_score_any [OF assms(2) step_score(3), of p b op n rq idem] step_score(1) assms(2)
      appended_world [OF assms(2) step_score(2) False] appended_grows show ?thesis by auto
  qed
next
  case (step_board bd)
  have reg: "registry_inv (view s)" using assms(2) by (simp add: world_inv_def)
  from step_board view_board_step [OF reg, of bd] board_created_world [OF assms(2), of bd] assms(2)
  show ?thesis by (auto simp: board_created_other split: if_splits)
next
  case (step_state st b)
  have ok: "hashes_ok (view s)" using assms(2) by (simp add: world_inv_def store_inv_def)
  from step_state view_state_step [OF ok, of b st] state_set_world [OF assms(2), of st b] assms(2)
  show ?thesis by (auto simp: state_set_other split: if_splits)
next
  case (step_player pf idem)
  have pl: "players_inv (view s)" using assms(2) by (simp add: world_inv_def)
  from step_player view_player_step [OF pl, of pf idem] player_created_world [OF assms(2), of pf idem]
    player_decide_None [OF _ pl, of pf idem] assms(2)
  show ?thesis by (auto simp: player_created_other split: if_splits)
next
  case (step_zadd k d m)
  have aux: "aux_inv (view s)" using assms(2) by (simp add: world_inv_def)
  have "view s' = snd (zadd_c (doc_redis (0, 1)) k d m (view s))"
    using step_zadd obs_snd [OF law_zadd] by simp
  with doc_zadd_aux [OF aux, of k "(0, 1)" d m] step_zadd
  have core: "same_core (view s) (view s')" "aux_inv (view s')" by simp_all
  from core_step_world [OF core assms(2)] show ?thesis .
next
  case (step_zincr k d m)
  have aux: "aux_inv (view s)" using assms(2) by (simp add: world_inv_def)
  have "view s' = snd (zincrby_c (doc_redis (0, 1)) k d m (view s))"
    using step_zincr obs_snd [OF law_zincrby] by simp
  with doc_zincr_aux [OF aux, of k "(0, 1)" d m] step_zincr
  have core: "same_core (view s) (view s')" "aux_inv (view s')" by simp_all
  from core_step_world [OF core assms(2)] show ?thesis .
next
  case (step_del b)
  have v: "view s' = (view s)(board_verify_key b := None)"
    using step_del obs_snd [OF law_del [of _ s "(0, 1)"]] by (simp add: doc_cmds)
  then have core: "same_core (view s) (view s')" by (simp add: same_core_upd)
  have "aux_inv (view s')" using v assms(2) by (simp add: world_inv_def aux_inv_None)
  from core_step_world [OF core this assms(2)] show ?thesis .
next
  case (step_expire t d)
  then have "view s' = view s"
    using obs_snd [OF law_expire [of _ _ s "(0, 1)"]] by (simp add: doc_cmds)
  with assms(2) show ?thesis by auto
next
  case (step_cursor c v)
  have v: "view s' = (view s)(consumer_cursor_key c \<mapsto> Str v)"
    using step_cursor obs_snd [OF law_set [of _ _ s "(0, 1)"]] by (simp add: doc_cmds)
  then have core: "same_core (view s) (view s')" by (simp add: same_core_cursor)
  have "aux_inv (view s')" using v assms(2) by (simp add: world_inv_def aux_inv_cursor)
  from core_step_world [OF core this assms(2)] show ?thesis .
next
  case (step_expired_field h fs P)
  with expired_field_world [OF assms(2), of h fs P] show ?thesis by auto
next
  case (step_expired_key d)
  then have core: "same_core (view s) (view s')" by (simp add: same_core_upd)
  have "aux_inv (view s')" using step_expired_key assms(2) by (simp add: world_inv_def aux_inv_None)
  from core_step_world [OF core this assms(2)] show ?thesis .
next
  case (step_rebuild_del b)
  then have "b \<notin> B" using assms(3) by auto
  from view_rebuild_step [OF world_inv_zset [OF assms(2)], of s'] step_rebuild_del leaderboard_world [OF assms(2) this]
  show ?thesis by metis
next
  case (step_rebuild_set b d m)
  then have "b \<notin> B" using assms(3) by auto
  from view_rebuild_step [OF world_inv_zset [OF assms(2)], of s'] step_rebuild_set leaderboard_world [OF assms(2) this]
  show ?thesis by metis
next
  case (step_rebuild_incr b d m)
  then have "b \<notin> B" using assms(3) by auto
  from view_rebuild_step [OF world_inv_zset [OF assms(2)], of s'] step_rebuild_incr leaderboard_world [OF assms(2) this]
  show ?thesis by metis
qed

lemma client_steps_world:
  assumes "(client_step X R view U)\<^sup>*\<^sup>* s s'" "world_inv X B (view s)" "U \<inter> B = {}"
  shows "world_inv X B (view s') \<and> ledger_grows (view s) (view s')"
  using assms(1,2)
proof (induction rule: rtranclp_induct)
  case (step s1 s2)
  then show ?case using client_step_world [of X U s1 s2 B] ledger_grows_trans assms(3) by blast
qed auto

lemma client_step_more: "client_step X R view U s s' \<Longrightarrow> U \<subseteq> V \<Longrightarrow> client_step X R view V s s'"
  by (induction rule: client_step.induct) (auto intro: client_step.intros)

end

lemma world_inv_empty: "world_inv X B Map.empty"
  by (simp add: world_inv_def store_inv_def ledger_inv_empty hashes_ok_def registry_inv_empty
      players_inv_empty aux_inv_def z_ok_def)

end
