(* ===== verification/Consumer.thy ===== *)
theory Consumer
  imports Prelude Domain
begin

section \<open>The consumer loop (package \<open>consumer\<close>)\<close>

text \<open>
  \<open>Consumer\<close> tails the ledger through the interface \<open>ConsumerStore\<close> and feeds one view through
  \<open>ApplyFunc\<close>; both are parameters here, a record of operations and a function. The locale
  \<open>ledger_tail\<close> states what a store promises while its operations succeed; inside it one pass
  applies the next batch once and moves the cursor over it, repeated passes reach the end of the
  ledger, and a pass whose cursor was not saved applies its batch again.
\<close>

definition batch_count :: int where "batch_count = 10"
definition cursor_head :: string where "cursor_head = ''0-0''"
definition default_block_duration :: int where "default_block_duration = 5 * 10 ^ 9"

record 'e ledger_batch =
  bt_events :: "event list"
  bt_rejected :: "(string \<times> 'e) list"
  bt_last :: string

record ('w, 'e) consumer_store =
  cs_load :: "string \<Rightarrow> ('w, 'e, string option) io"
  cs_save :: "string \<Rightarrow> string \<Rightarrow> ('w, 'e, unit) io"
  cs_read :: "string \<Rightarrow> int \<Rightarrow> int \<Rightarrow> ('w, 'e, 'e ledger_batch) io"

record ('w, 'e) consumer =
  cn_id :: string
  cn_store :: "('w, 'e) consumer_store"
  cn_apply :: "event list \<Rightarrow> ('w, 'e, unit) io"
  cn_block :: int

text \<open>One pass: load the cursor, read a batch, apply its events, save the new cursor.\<close>

definition process_once :: "('w, 'e) consumer \<Rightarrow> ('w, 'e, nat) io" where
  "process_once c =
     io_bind (cs_load (cn_store c) (cn_id c)) (\<lambda>found.
       let cursor = (case found of None \<Rightarrow> cursor_head | Some s \<Rightarrow> s)
       in io_bind (cs_read (cn_store c) cursor batch_count (cn_block c)) (\<lambda>batch.
            let n = length (bt_events batch) + length (bt_rejected batch)
            in if n = 0 then io_ret 0
               else io_bind (if 0 < length (bt_events batch) then cn_apply c (bt_events batch) else io_ret ()) (\<lambda>_.
                 io_bind (cs_save (cn_store c) (cn_id c) (bt_last batch)) (\<lambda>_. io_ret n))))"

text \<open>
  \<open>Run\<close>: what the loop sees of its context in each round (cancelled at the top, after a failed
  pass, or while backing off) is a list; when it ends the loop is still running (\<open>False\<close>).
\<close>

record round =
  rd_top :: bool
  rd_failed :: bool
  rd_backoff :: bool

fun run_consumer :: "('w, 'e) consumer \<Rightarrow> round list \<Rightarrow> 'w \<Rightarrow> bool \<times> 'w" where
  "run_consumer c [] w = (False, w)"
| "run_consumer c (rd # rds) w =
     (if rd_top rd then (True, w)
      else case process_once c w of
        (Inr _, w') \<Rightarrow> run_consumer c rds w'
      | (Inl _, w') \<Rightarrow> if rd_failed rd \<or> rd_backoff rd then (True, w') else run_consumer c rds w')"

definition awake :: round where
  "awake = \<lparr>rd_top = False, rd_failed = False, rd_backoff = False\<rparr>"

lemma awake_sel [simp]: "\<not> rd_top awake" "\<not> rd_failed awake" "\<not> rd_backoff awake"
  by (simp_all add: awake_def)

lemma run_consumer_awake:
  "process_once c w = (r, w') \<Longrightarrow> run_consumer c (awake # rds) w = run_consumer c rds w'"
  by (cases r) simp_all

text \<open>The loop returns only when its context was cancelled.\<close>

lemma run_consumer_cancelled:
  "fst (run_consumer c rds w) \<Longrightarrow> \<exists>rd \<in> set rds. rd_top rd \<or> rd_failed rd \<or> rd_backoff rd"
proof (induction rds arbitrary: w)
  case (Cons rd rds)
  obtain r w' where "process_once c w = (r, w')" by fastforce
  with Cons.prems Cons.IH [of w'] show ?case by (cases r) (auto split: if_splits)
qed simp

text \<open>A property that a pass keeps, whatever its outcome, holds of the loop.\<close>

lemma run_consumer_invariant:
  assumes "\<And>w. P w \<Longrightarrow> P (snd (process_once c w))" and "P w"
  shows "P (snd (run_consumer c rds w))"
  using assms(2)
proof (induction rds arbitrary: w)
  case (Cons rd rds)
  obtain r w' where run: "process_once c w = (r, w')" by fastforce
  with assms(1) [OF Cons.prems] have "P w'" by simp
  with Cons.IH [of w'] Cons.prems run show ?case by (cases r) auto
qed simp

subsection \<open>Batches\<close>

type_synonym 'e log = "(string \<times> ('e + event)) list"

definition log_events :: "'e log \<Rightarrow> event list" where
  "log_events es = concat (map (\<lambda>e. case snd e of Inl _ \<Rightarrow> [] | Inr ev \<Rightarrow> [ev]) es)"

definition log_rejected :: "'e log \<Rightarrow> (string \<times> 'e) list" where
  "log_rejected es = concat (map (\<lambda>e. case snd e of Inl x \<Rightarrow> [(fst e, x)] | Inr _ \<Rightarrow> []) es)"

definition batch_of :: "'e log \<Rightarrow> 'e ledger_batch" where
  "batch_of es = \<lparr>bt_events = log_events es, bt_rejected = log_rejected es,
     bt_last = (if es = [] then [] else fst (last es))\<rparr>"

lemma log_events_Nil [simp]: "log_events [] = []"
  by (simp add: log_events_def)

lemma log_events_append [simp]: "log_events (xs @ ys) = log_events xs @ log_events ys"
  by (simp add: log_events_def)

lemma length_batch: "length (log_events es) + length (log_rejected es) = length es"
  by (induction es) (auto simp: log_events_def log_rejected_def split: sum.split)

lemma log_events_take_drop:
  "log_events (drop a xs) = log_events (take n (drop a xs)) @ log_events (drop (a + n) xs)"
  by (metis append_take_drop_id drop_drop log_events_append add.commute)

lemma set_log_events: "ev \<in> set (log_events es) \<longleftrightarrow> (\<exists>i. (i, Inr ev) \<in> set es)"
  by (force simp: log_events_def split: sum.splits)

lemma process_once_batch:
  assumes "cs_load (cn_store c) (cn_id c) w = (Inr found, w1)"
    and "cs_read (cn_store c) (case found of None \<Rightarrow> cursor_head | Some s \<Rightarrow> s) batch_count (cn_block c) w1 =
      (Inr (batch_of es), w2)"
  shows "process_once c w =
    (if es = [] then (Inr 0, w2)
     else io_bind (if log_events es = [] then io_ret () else cn_apply c (log_events es)) (\<lambda>_.
       io_bind (cs_save (cn_store c) (cn_id c) (fst (last es))) (\<lambda>_. io_ret (length es))) w2)"
proof (cases "es = []")
  case True
  with assms show ?thesis by (simp add: process_once_def io_bind_def batch_of_def log_rejected_def)
next
  case False
  with length_batch [of es] have "log_events es \<noteq> [] \<or> log_rejected es \<noteq> []" by auto
  with False assms length_batch [of es] show ?thesis
    by (simp add: process_once_def io_bind_def batch_of_def Let_def)
qed

subsection \<open>What a store promises, and what the loop makes of it\<close>

locale ledger_tail =
  fixes store :: "('w, 'e) consumer_store" and apply_fn :: "event list \<Rightarrow> ('w, 'e, unit) io"
    and me :: string and ok :: "'w \<Rightarrow> bool"
    and log :: "'w \<Rightarrow> 'e log" and cursor :: "'w \<Rightarrow> string option" and pos :: "'w \<Rightarrow> nat"
    and content :: "'w \<Rightarrow> 'v" and fold_event :: "event \<Rightarrow> 'v \<Rightarrow> 'v"
  assumes load: "ok w \<Longrightarrow> \<exists>w'. cs_load store me w = (Inr (cursor w), w') \<and> ok w' \<and> log w' = log w \<and>
      cursor w' = cursor w \<and> pos w' = pos w \<and> content w' = content w"
    and read: "ok w \<Longrightarrow> 0 < n \<Longrightarrow> \<exists>w'. cs_read store (case cursor w of None \<Rightarrow> cursor_head | Some s \<Rightarrow> s) n blk w =
      (Inr (batch_of (take (nat n) (drop (pos w) (log w)))), w') \<and> ok w' \<and> log w' = log w \<and>
      cursor w' = cursor w \<and> pos w' = pos w \<and> content w' = content w"
    and apply_batch: "ok w \<Longrightarrow> set evs \<subseteq> set (log_events (log w)) \<Longrightarrow>
      \<exists>w'. apply_fn evs w = (Inr (), w') \<and> ok w' \<and> log w' = log w \<and> cursor w' = cursor w \<and>
        pos w' = pos w \<and> content w' = fold fold_event evs (content w)"
    and save: "ok w \<Longrightarrow> pos w < k \<Longrightarrow> k \<le> length (log w) \<Longrightarrow>
      \<exists>w'. cs_save store me (fst (log w ! (k - 1))) w = (Inr (), w') \<and> ok w' \<and> log w' = log w \<and>
        pos w' = k \<and> content w' = content w"
    and pos_le: "ok w \<Longrightarrow> pos w \<le> length (log w)"
begin

definition tail_consumer :: "int \<Rightarrow> ('w, 'e) consumer" where
  "tail_consumer blk = \<lparr>cn_id = me, cn_store = store, cn_apply = apply_fn, cn_block = blk\<rparr>"

text \<open>One pass takes the next ten entries, applies their events once, in order, and moves past them.\<close>

lemma pass:
  assumes "ok w"
  shows "\<exists>w'. process_once (tail_consumer blk) w = (Inr (min 10 (length (log w) - pos w)), w') \<and> ok w' \<and>
    log w' = log w \<and> pos w' = min (length (log w)) (pos w + 10) \<and>
    content w' = fold fold_event (log_events (take 10 (drop (pos w) (log w)))) (content w)"
proof -
  let ?es = "take 10 (drop (pos w) (log w))"
  obtain w1 where w1: "cs_load store me w = (Inr (cursor w), w1)" "ok w1" "log w1 = log w"
    "cursor w1 = cursor w" "pos w1 = pos w" "content w1 = content w"
    using load [OF assms] by blast
  obtain w2 where w2: "cs_read store (case cursor w of None \<Rightarrow> cursor_head | Some s \<Rightarrow> s) batch_count blk w1 =
      (Inr (batch_of ?es), w2)" "ok w2" "log w2 = log w" "pos w2 = pos w" "content w2 = content w"
    using read [OF w1(2), of batch_count blk] w1 by (auto simp: batch_count_def)
  have le: "pos w \<le> length (log w)" using pos_le [OF assms] .
  have start: "process_once (tail_consumer blk) w =
      (if ?es = [] then (Inr 0, w2)
       else io_bind (if log_events ?es = [] then io_ret () else apply_fn (log_events ?es)) (\<lambda>_.
         io_bind (cs_save store me (fst (last ?es))) (\<lambda>_. io_ret (length ?es))) w2)"
    using process_once_batch [of "tail_consumer blk" w "cursor w" w1 ?es w2] w1(1) w2(1)
    by (simp add: tail_consumer_def)
  show ?thesis
  proof (cases "?es = []")
    case True
    then have "length (log w) \<le> pos w" by simp
    with True start w2 le show ?thesis by simp
  next
    case False
    have "set (log_events ?es) \<subseteq> set (log_events (log w2))"
      by (auto simp: w2(3) set_log_events dest!: in_set_takeD in_set_dropD)
    then obtain w3 where w3: "(if log_events ?es = [] then io_ret () else apply_fn (log_events ?es)) w2 = (Inr (), w3)"
      "ok w3" "log w3 = log w" "pos w3 = pos w" "content w3 = fold fold_event (log_events ?es) (content w)"
      using apply_batch [OF w2(2)] w2 by (cases "log_events ?es = []") auto
    define k where "k = min (length (log w)) (pos w + 10)"
    have k: "pos w3 < k" "k \<le> length (log w3)" "last ?es = log w ! (k - 1)" "length ?es = k - pos w"
      using False w3
      by (auto simp: k_def last_conv_nth nth_drop min_def intro!: arg_cong [where f = "(!) (log w)"])
    obtain w4 where "cs_save store me (fst (last ?es)) w3 = (Inr (), w4)" "ok w4" "log w4 = log w"
      "pos w4 = k" "content w4 = content w3"
      using save [OF w3(2) k(1,2)] k(3) w3(3) by auto
    then show ?thesis
      using False start w3 k by (auto simp: io_bind_def k_def split: if_splits)
  qed
qed

text \<open>Enough passes reach the end of the ledger, with every remaining event applied once.\<close>

lemma catch_up:
  assumes "ok w" "length (log w) \<le> pos w + 10 * k"
  shows "\<exists>w'. run_consumer (tail_consumer blk) (replicate k awake) w = (False, w') \<and> ok w' \<and>
    log w' = log w \<and> pos w' = length (log w) \<and>
    content w' = fold fold_event (log_events (drop (pos w) (log w))) (content w)"
  using assms
proof (induction k arbitrary: w)
  case 0
  with pos_le [OF 0(1)] show ?case by auto
next
  case (Suc k)
  from pass [OF Suc.prems(1)] obtain w1 where w1:
    "process_once (tail_consumer blk) w = (Inr (min 10 (length (log w) - pos w)), w1)" "ok w1"
    "log w1 = log w" "pos w1 = min (length (log w)) (pos w + 10)"
    "content w1 = fold fold_event (log_events (take 10 (drop (pos w) (log w)))) (content w)" by blast
  have "length (log w1) \<le> pos w1 + 10 * k" using Suc.prems(2) w1 by auto
  from Suc.IH [OF w1(2) this] obtain w' where w':
    "run_consumer (tail_consumer blk) (replicate k awake) w1 = (False, w')" "ok w'" "log w' = log w"
    "pos w' = length (log w)"
    "content w' = fold fold_event (log_events (drop (pos w1) (log w))) (content w1)"
    using w1 by auto
  have "log_events (drop (pos w1) (log w)) = log_events (drop (pos w + 10) (log w))"
    by (auto simp: w1(4) min_def)
  then have "content w' = fold fold_event (log_events (drop (pos w) (log w))) (content w)"
    using w'(5) w1(5) log_events_take_drop [of "pos w" "log w" 10] by simp
  with w' w1 show ?case by (auto simp: run_consumer_awake)
qed

end

end
