(* ===== verification/LedgerConsumers.thy ===== *)
theory LedgerConsumers
  imports Clients Consumer
begin

section \<open>The two views that tail the ledger (\<open>storage\<close>'s consumer stores)\<close>

text \<open>
  \<open>redisLedgerConsumer\<close> (cursor and batches), \<open>ApplyPlayerHistory\<close> with \<open>streamIDScore\<close>, and
  \<open>ApplyDailyCounts\<close> with \<open>ListDailyActivity\<close>. Both stores meet the interface \<open>ledger_tail\<close> on a
  quiet server: the view each leaves is the fold of the events it was given.
\<close>

subsection \<open>Cursor and batches\<close>

definition load_cursor :: "'s redis \<Rightarrow> string \<Rightarrow> ('s, string option) go" where
  "load_cursor R consumer_name = call (get_c R (consumer_cursor_key consumer_name))"

definition save_cursor :: "'s redis \<Rightarrow> string \<Rightarrow> string \<Rightarrow> ('s, unit) go" where
  "save_cursor R consumer_name cursor = call (set_c R (consumer_cursor_key consumer_name) cursor)"

definition decode_entry :: "ext \<Rightarrow> xmsg \<Rightarrow> string \<times> (serr + event)" where
  "decode_entry X entry = (msg_id entry, entry_to_event X entry)"

definition read_ledger_batch :: "ext \<Rightarrow> 's redis \<Rightarrow> string \<Rightarrow> int \<Rightarrow> int \<Rightarrow> ('s, serr ledger_batch) go" where
  "read_ledger_batch X R after limit block =
     io_bind (call (xread_c R ledger_key after limit)) (\<lambda>streams.
       case streams of
         None \<Rightarrow> io_ret (batch_of [])
       | Some messages \<Rightarrow> io_ret (batch_of (map (decode_entry X) messages)))"

definition ledger_store :: "ext \<Rightarrow> 's redis \<Rightarrow> ('s world, serr) consumer_store" where
  "ledger_store X R = \<lparr>cs_load = load_cursor R, cs_save = save_cursor R, cs_read = read_ledger_batch X R\<rparr>"

subsection \<open>Player history\<close>

definition seq_scale :: int where "seq_scale = 4096"

definition stream_id_score :: "string \<Rightarrow> serr + f64" where
  "stream_id_score entry_id =
     (case cut_at (CHR ''-'') entry_id of
        None \<Rightarrow> Inl ErrInconsistent
      | Some (millis_str, seq_str) \<Rightarrow>
          (case parse_int64 millis_str of
             None \<Rightarrow> Inl ErrInconsistent
           | Some millis \<Rightarrow>
               (case parse_int64 seq_str of
                  None \<Rightarrow> Inl ErrInconsistent
                | Some sq \<Rightarrow>
                    let sq' = (if seq_scale \<le> sq then seq_scale - 1 else sq)
                    in Inr (f64_of_int (wrap64 (wrap64 (millis * seq_scale) + sq'))))))"

definition history_cmd :: "'s redis \<Rightarrow> event \<Rightarrow> serr + ('s, unit) cmd" where
  "history_cmd R event =
     sum_bind (stream_id_score (ev_id event)) (\<lambda>sc.
       Inr (zadd_c R (player_history_key (ev_player event) (ev_board event)) sc (ev_id event)))"

definition apply_player_history :: "'s redis \<Rightarrow> event list \<Rightarrow> ('s, unit) go" where
  "apply_player_history R events =
     io_bind (io_lift (res_map (history_cmd R) events)) (\<lambda>cmds.
       io_bind (pipeline cmds) (\<lambda>_. io_ret ()))"

definition player_history_id :: string where "player_history_id = ''player_history''"

definition new_player_history_consumer :: "ext \<Rightarrow> 's redis \<Rightarrow> ('s world, serr) consumer" where
  "new_player_history_consumer X R = \<lparr>cn_id = player_history_id, cn_store = ledger_store X R,
     cn_apply = apply_player_history R, cn_block = default_block_duration\<rparr>"

subsection \<open>Daily activity\<close>

definition daily_activity_id :: string where "daily_activity_id = ''daily_activity''"
definition daily_ttl :: int where "daily_ttl = 30 * 24 * 3600 * 10 ^ 9"

definition daily_cmds :: "'s redis \<Rightarrow> int \<Rightarrow> event \<Rightarrow> ('s, unit) cmd list" where
  "daily_cmds R ttl event =
     (let key = activity_daily_key (format_date (ev_created event))
      in [map_cmd (\<lambda>_. ()) (zincrby_c R key (Fin 1) (ev_player event)), expire_c R key ttl])"

definition apply_daily_counts :: "'s redis \<Rightarrow> int \<Rightarrow> event list \<Rightarrow> ('s, unit) go" where
  "apply_daily_counts R ttl events =
     io_bind (pipeline (concat (map (daily_cmds R ttl) events))) (\<lambda>_. io_ret ())"

definition new_daily_activity_consumer :: "ext \<Rightarrow> 's redis \<Rightarrow> ('s world, serr) consumer" where
  "new_daily_activity_consumer X R = \<lparr>cn_id = daily_activity_id, cn_store = ledger_store X R,
     cn_apply = apply_daily_counts R daily_ttl, cn_block = default_block_duration\<rparr>"

definition list_daily_activity :: "'s redis \<Rightarrow> string \<Rightarrow> int \<Rightarrow> ('s, (string \<times> int) list) go" where
  "list_daily_activity R date limit =
     io_bind (call (zrange_c R (activity_daily_key date) 0 (limit - 1) True)) (\<lambda>zs.
       io_ret (map (\<lambda>z. (snd z, f64_to_int (fst z))) zs))"

subsection \<open>The index score of an entry id\<close>

definition index_score :: "sid \<Rightarrow> int" where
  "index_score i = int (fst i) * seq_scale + min (int (snd i)) (seq_scale - 1)"

definition sid_indexable :: "sid \<Rightarrow> bool" where
  "sid_indexable i \<longleftrightarrow> fst i < 2 ^ 63 \<and> snd i < 2 ^ 63"

lemma stream_id_score_sid:
  "sid_indexable i \<Longrightarrow> stream_id_score (show_sid i) =
    Inr (f64_of_int (wrap64 (wrap64 (int (fst i) * seq_scale) + min (int (snd i)) (seq_scale - 1))))"
  by (auto simp: stream_id_score_def show_sid_def sid_indexable_def min_def Let_def)

lemma stream_id_score_exact:
  assumes "fst i < 2 ^ 41" "snd i < 2 ^ 63"
  shows "stream_id_score (show_sid i) = Inr (Fin (of_int (index_score i)))"
proof -
  have "int (fst i) < 2 ^ 41" using assms(1) by (simp add: nat_less_real_le flip: of_nat_less_iff)
  then have b: "0 \<le> int (fst i) * 4096" "int (fst i) * 4096 \<le> (2 ^ 41 - 1) * 4096" by simp_all
  define m where "m = min (int (snd i)) 4095"
  then have s: "0 \<le> m" "m \<le> 4095" by auto
  have "is_int64 (int (fst i) * 4096)" "is_int64 (int (fst i) * 4096 + m)"
    "\<bar>int (fst i) * 4096 + m\<bar> \<le> 2 ^ 53"
    using b s by (simp_all add: is_int64_def)
  moreover have "sid_indexable i" using assms by (simp add: sid_indexable_def)
  ultimately show ?thesis
    by (simp add: stream_id_score_sid index_score_def seq_scale_def f64_of_int_exact m_def)
qed

text \<open>Ids in order have index scores in order, strictly while the sequence stays below the scale.\<close>

lemma index_score_mono:
  assumes "i < j" "snd j < 4096"
  shows "index_score i < index_score j"
proof (cases "fst i = fst j")
  case True
  with assms show ?thesis by (cases i; cases j) (auto simp: index_score_def seq_scale_def min_def)
next
  case False
  with assms(1) have "int (fst i) + 1 \<le> int (fst j)" by (cases i; cases j) auto
  then have "(int (fst i) + 1) * 4096 \<le> int (fst j) * 4096" by simp
  moreover have "min (int (snd i)) 4095 \<le> 4095" "0 \<le> min (int (snd j)) 4095" by auto
  ultimately show ?thesis by (simp add: index_score_def seq_scale_def)
qed

subsection \<open>Positions in the ledger\<close>

definition cursor_sid :: "keyspace \<Rightarrow> string \<Rightarrow> sid" where
  "cursor_sid ks me =
     (case ks (consumer_cursor_key me) of
        Some (Str c) \<Rightarrow> (case parse_sid c of None \<Rightarrow> (0, 0) | Some i \<Rightarrow> i)
      | _ \<Rightarrow> (0, 0))"

definition cursor_text :: "keyspace \<Rightarrow> string \<Rightarrow> string option" where
  "cursor_text ks me = (case ks (consumer_cursor_key me) of Some (Str c) \<Rightarrow> Some c | _ \<Rightarrow> None)"

definition cursor_ok :: "keyspace \<Rightarrow> string \<Rightarrow> bool" where
  "cursor_ok ks me \<longleftrightarrow> ks (consumer_cursor_key me) = None \<or>
     (\<exists>i. sid_ok i \<and> ks (consumer_cursor_key me) = Some (Str (show_sid i)))"

definition entries_upto :: "sid \<Rightarrow> (sid \<times> fields) list \<Rightarrow> (sid \<times> fields) list" where
  "entries_upto c es = filter (\<lambda>e. fst e \<le> c) es"

lemma entries_after:
  assumes "sorted_wrt (<) (map fst es)"
  shows "filter (\<lambda>e. c < fst e) es = drop (length (entries_upto c es)) es"
  using assms
proof (induction es)
  case (Cons e es)
  show ?case
  proof (cases "fst e \<le> c")
    case True
    with Cons show ?thesis by (simp add: entries_upto_def)
  next
    case False
    then have "c < fst x" if "x \<in> set (e # es)" for x
      using Cons.prems that by (auto intro: less_trans)
    then have "filter (\<lambda>e. c < fst e) (e # es) = e # es" "entries_upto c (e # es) = []"
      by (auto simp: entries_upto_def filter_empty_conv not_le intro!: filter_eq_self)
    then show ?thesis by simp
  qed
qed simp

lemma entries_upto_nth:
  assumes "sorted_wrt (<) (map fst es)" "k < length es"
  shows "entries_upto (fst (es ! k)) es = take (Suc k) es"
  using assms
proof (induction es arbitrary: k)
  case (Cons e es)
  show ?case
  proof (cases k)
    case 0
    have "\<not> fst x \<le> fst e" if "x \<in> set es" for x using Cons.prems(1) that by auto
    then show ?thesis using 0 by (simp add: entries_upto_def filter_empty_conv)
  next
    case (Suc j)
    have "es ! j \<in> set es" using Cons.prems Suc by simp
    then have "fst e \<le> fst (es ! j)" using Cons.prems by (auto intro: less_imp_le)
    with Cons.IH [of j] Cons.prems Suc show ?thesis by (simp add: entries_upto_def)
  qed
qed simp

subsection \<open>The views as folds\<close>

definition zset_at :: "keyspace \<Rightarrow> string \<Rightarrow> (f64 \<times> string) list" where
  "zset_at ks k = (case as_zset (ks k) of None \<Rightarrow> [] | Some z \<Rightarrow> z)"

definition history_content :: "keyspace \<Rightarrow> string \<Rightarrow> string \<rightharpoonup> f64" where
  "history_content ks k =
     (if \<exists>p b. k = player_history_key p b then z_map (zset_at ks k) else Map.empty)"

definition history_fold :: "event \<Rightarrow> (string \<Rightarrow> string \<rightharpoonup> f64) \<Rightarrow> (string \<Rightarrow> string \<rightharpoonup> f64)" where
  "history_fold e v =
     (let k = player_history_key (ev_player e) (ev_board e)
      in case stream_id_score (ev_id e) of Inl _ \<Rightarrow> v | Inr d \<Rightarrow> v(k := (v k)(ev_id e \<mapsto> d)))"

definition daily_content :: "keyspace \<Rightarrow> string \<Rightarrow> string \<rightharpoonup> f64" where
  "daily_content ks k =
     (if \<exists>d. k = activity_daily_key d then z_map (zset_at ks k) else Map.empty)"

definition daily_fold :: "event \<Rightarrow> (string \<Rightarrow> string \<rightharpoonup> f64) \<Rightarrow> (string \<Rightarrow> string \<rightharpoonup> f64)" where
  "daily_fold e v =
     (let k = activity_daily_key (format_date (ev_created e))
      in v(k := (v k)(ev_player e \<mapsto> (case v k (ev_player e) of None \<Rightarrow> Fin 1 | Some c \<Rightarrow> f64_add c (Fin 1)))))"

text \<open>Writes to the secondary sorted sets only.\<close>

definition only_z :: "keyspace \<Rightarrow> keyspace \<Rightarrow> bool" where
  "only_z ks ks' \<longleftrightarrow> (\<forall>k. \<not> is_zkey k \<longrightarrow> ks' k = ks k)"

lemma only_z_refl [simp]: "only_z ks ks"
  by (simp add: only_z_def)

lemma only_z_trans: "only_z a b \<Longrightarrow> only_z b c \<Longrightarrow> only_z a c"
  by (simp add: only_z_def)

lemma only_z_upd: "is_zkey k \<Longrightarrow> only_z ks (ks(k := v))"
  by (auto simp: only_z_def)

lemma only_z_core: "only_z ks ks' \<Longrightarrow> same_core ks ks'"
  by (simp add: only_z_def same_core_def)

lemma aux_zset:
  assumes "aux_inv ks" "is_zkey k"
  shows "as_zset (ks k) = Some (zset_at ks k)" "z_ok (zset_at ks k)" "NaN \<notin> fst ` set (zset_at ks k)"
proof -
  obtain z where "as_zset (ks k) = Some z" "z_ok z" "NaN \<notin> fst ` set z"
    using assms unfolding aux_inv_def by blast
  then show "as_zset (ks k) = Some (zset_at ks k)" "z_ok (zset_at ks k)" "NaN \<notin> fst ` set (zset_at ks k)"
    by (simp_all add: zset_at_def)
qed

lemma zset_at_upd [simp]: "zset_at (ks(k \<mapsto> ZSet z)) l = (if l = k then z else zset_at ks l)"
  by (simp add: zset_at_def)

lemma doc_history_write:
  assumes aux: "aux_inv ks" and sc: "stream_id_score (ev_id e) = Inr d" "d \<noteq> NaN"
  shows "\<exists>ks'. zadd_c (doc_redis i) (player_history_key (ev_player e) (ev_board e)) d (ev_id e) ks = (Inr (), ks') \<and>
    only_z ks ks' \<and> aux_inv ks' \<and> history_content ks' = history_fold e (history_content ks)"
proof -
  let ?k = "player_history_key (ev_player e) (ev_board e)"
  let ?ks = "ks(?k \<mapsto> ZSet (z_add d (ev_id e) (zset_at ks ?k)))"
  have run: "zadd_c (doc_redis i) ?k d (ev_id e) ks = (Inr (), ?ks)"
    using aux_zset [OF aux, of ?k] sc by (simp add: doc_cmds)
  have "aux_inv ?ks" using doc_zadd_aux [OF aux, of ?k i d "ev_id e"] run by simp
  moreover have "history_content ?ks = history_fold e (history_content ks)"
    using sc aux_zset [OF aux, of ?k] by (auto simp: history_content_def history_fold_def Let_def fun_eq_iff)
  ultimately show ?thesis using run by (auto intro!: only_z_upd)
qed

lemma stream_id_score_not_NaN: "stream_id_score s = Inr d \<Longrightarrow> d \<noteq> NaN"
  by (auto simp: stream_id_score_def Let_def split: option.splits prod.splits)

lemma doc_history_run:
  assumes "aux_inv ks" "\<And>e. e \<in> set evs \<Longrightarrow> \<exists>d. stream_id_score (ev_id e) = Inr d"
  shows "\<exists>cmds ks'. res_map (history_cmd (doc_redis i)) evs = Inr cmds \<and>
    run_cmds cmds [] ks = (map Inr (replicate (length evs) ()), ks') \<and> only_z ks ks' \<and> aux_inv ks' \<and>
    history_content ks' = fold history_fold evs (history_content ks)"
  using assms
proof (induction evs arbitrary: ks)
  case (Cons e evs)
  then obtain d where d: "stream_id_score (ev_id e) = Inr d" by auto
  from doc_history_write [OF Cons.prems(1) d stream_id_score_not_NaN [OF d], of i]
  obtain ks1 where ks1: "zadd_c (doc_redis i) (player_history_key (ev_player e) (ev_board e)) d (ev_id e) ks = (Inr (), ks1)"
    "only_z ks ks1" "aux_inv ks1" "history_content ks1 = history_fold e (history_content ks)" by blast
  from Cons.IH [OF ks1(3)] Cons.prems(2) obtain cmds ks' where
    "res_map (history_cmd (doc_redis i)) evs = Inr cmds"
    "run_cmds cmds [] ks1 = (map Inr (replicate (length evs) ()), ks')" "only_z ks1 ks'" "aux_inv ks'"
    "history_content ks' = fold history_fold evs (history_content ks1)" by auto
  note IH = this
  have "history_cmd (doc_redis i) e =
      Inr (zadd_c (doc_redis i) (player_history_key (ev_player e) (ev_board e)) d (ev_id e))"
    using d by (simp add: history_cmd_def)
  with IH ks1 only_z_trans [OF ks1(2) IH(3)] show ?case by simp
qed simp

lemma doc_apply_player_history:
  assumes "aux_inv ks" "\<And>e. e \<in> set evs \<Longrightarrow> \<exists>d. stream_id_score (ev_id e) = Inr d"
  shows "\<exists>ks'. apply_player_history (doc_redis i) evs (quiet ks) = (Inr (), quiet ks') \<and> only_z ks ks' \<and>
    aux_inv ks' \<and> history_content ks' = fold history_fold evs (history_content ks)"
proof -
  from doc_history_run [OF assms, where i = i] obtain cmds ks' where c:
    "res_map (history_cmd (doc_redis i)) evs = Inr cmds"
    "run_cmds cmds [] ks = (map Inr (replicate (length evs) ()), ks')" "only_z ks ks'" "aux_inv ks'"
    "history_content ks' = fold history_fold evs (history_content ks)" by blast
  from pipeline_quiet [OF c(2)] c show ?thesis by (auto simp: apply_player_history_def io_bind_def)
qed

lemma f64_add_one_not_NaN: "c \<noteq> NaN \<Longrightarrow> f64_add c (Fin 1) \<noteq> NaN"
  by (cases c) simp_all

lemma doc_daily_write:
  assumes aux: "aux_inv ks"
  shows "\<exists>ks'. run_cmds (daily_cmds (doc_redis i) ttl e) [] ks = ([Inr (), Inr ()], ks') \<and>
    only_z ks ks' \<and> aux_inv ks' \<and> daily_content ks' = daily_fold e (daily_content ks)"
proof -
  let ?k = "activity_daily_key (format_date (ev_created e))" and ?p = "ev_player e"
  let ?z = "zset_at ks ?k"
  let ?d = "case z_map ?z ?p of None \<Rightarrow> Fin 1 | Some c \<Rightarrow> f64_add c (Fin 1)"
  let ?ks = "ks(?k \<mapsto> ZSet (z_add ?d ?p ?z))"
  note z = aux_zset [OF aux, of ?k, simplified]
  have "c \<noteq> NaN" if "z_map ?z ?p = Some c" for c
    using z(3) z_map_in [OF that] by force
  then have "?d \<noteq> NaN" by (auto split: option.split dest: f64_add_one_not_NaN)
  then have run: "zincrby_c (doc_redis i) ?k (Fin 1) ?p ks = (Inr ?d, ?ks)"
    using z(1) by (simp add: doc_cmds Let_def)
  then have "run_cmds (daily_cmds (doc_redis i) ttl e) [] ks = ([Inr (), Inr ()], ?ks)"
    by (simp add: daily_cmds_def Let_def map_cmd_def io_bind_def) (simp add: doc_cmds)
  moreover have "aux_inv ?ks" using doc_zincr_aux [OF aux, of ?k i "Fin 1" ?p] run by simp
  moreover have "daily_content ?ks = daily_fold e (daily_content ks)"
    using z(2) by (auto simp: daily_content_def daily_fold_def Let_def fun_eq_iff)
  ultimately show ?thesis by (auto intro!: only_z_upd)
qed

lemma run_cmds_append:
  "run_cmds (xs @ ys) [] s = (let (a, s1) = run_cmds xs [] s; (b, s2) = run_cmds ys [] s1 in (a @ b, s2))"
  by (induction xs arbitrary: s) (simp_all add: Let_def case_prod_beta)

lemma doc_apply_daily:
  assumes "aux_inv ks"
  shows "\<exists>ks'. apply_daily_counts (doc_redis i) ttl evs (quiet ks) = (Inr (), quiet ks') \<and> only_z ks ks' \<and>
    aux_inv ks' \<and> daily_content ks' = fold daily_fold evs (daily_content ks)"
proof -
  have "\<exists>ks'. run_cmds (concat (map (daily_cmds (doc_redis i) ttl) evs)) [] ks =
      (map Inr (replicate (2 * length evs) ()), ks') \<and> only_z ks ks' \<and> aux_inv ks' \<and>
      daily_content ks' = fold daily_fold evs (daily_content ks)"
    using assms
  proof (induction evs arbitrary: ks)
    case (Cons e evs)
    from doc_daily_write [OF Cons.prems, of i ttl e] obtain ks1 where ks1:
      "run_cmds (daily_cmds (doc_redis i) ttl e) [] ks = ([Inr (), Inr ()], ks1)" "only_z ks ks1"
      "aux_inv ks1" "daily_content ks1 = daily_fold e (daily_content ks)" by blast
    from Cons.IH [OF ks1(3)] ks1 only_z_trans [OF ks1(2)] show ?case
      by (fastforce simp: run_cmds_append)
  qed simp
  then obtain ks' where r: "run_cmds (concat (map (daily_cmds (doc_redis i) ttl) evs)) [] ks =
      (map Inr (replicate (2 * length evs) ()), ks')" "only_z ks ks'" "aux_inv ks'"
      "daily_content ks' = fold daily_fold evs (daily_content ks)" by blast
  from pipeline_quiet [OF r(1)] r show ?thesis by (auto simp: apply_daily_counts_def io_bind_def)
qed

subsection \<open>Applying a batch again\<close>

text \<open>The index holds, under each id of the batch, the score of that id: a second fold changes nothing.\<close>

lemma history_fold_at:
  "history_fold e v k i =
    (if k = player_history_key (ev_player e) (ev_board e) \<and> i = ev_id e \<and> (\<exists>d. stream_id_score i = Inr d)
     then Some (projr (stream_id_score i)) else v k i)"
  by (auto simp: history_fold_def Let_def split: sum.split)

lemma fold_history_ids:
  "fold history_fold evs v k i =
    (if (\<exists>e \<in> set evs. k = player_history_key (ev_player e) (ev_board e) \<and> i = ev_id e) \<and> (\<exists>d. stream_id_score i = Inr d)
     then Some (projr (stream_id_score i)) else v k i)"
  by (induction evs arbitrary: v) (auto simp: history_fold_at)

lemma fold_history_again: "fold history_fold evs (fold history_fold evs v) = fold history_fold evs v"
  by (intro ext) (auto simp: fold_history_ids)

subsection \<open>The stores meet the consumer's interface\<close>

definition tail_ok :: "ext \<Rightarrow> string \<Rightarrow> keyspace \<Rightarrow> bool" where
  "tail_ok X me ks \<longleftrightarrow> world_inv X {} ks \<and> cursor_ok ks me \<and> (\<forall>e \<in> set (ledger_of ks). sid_indexable (fst e))"

definition tail_log :: "ext \<Rightarrow> keyspace \<Rightarrow> (string \<times> (serr + event)) list" where
  "tail_log X ks = map (decode_entry X \<circ> to_msg) (ledger_of ks)"

definition tail_pos :: "string \<Rightarrow> keyspace \<Rightarrow> nat" where
  "tail_pos me ks = length (entries_upto (cursor_sid ks me) (ledger_of ks))"

lemma cursor_head_sid [simp]: "parse_sid cursor_head = Some (0, 0)"
  by (simp add: cursor_head_def parse_sid_def parse_uint64_def parse_nat_def digit_val_def)

lemma cursor_text_parse:
  "cursor_ok ks me \<Longrightarrow> parse_sid (case cursor_text ks me of None \<Rightarrow> cursor_head | Some s \<Rightarrow> s) = Some (cursor_sid ks me)"
  by (auto simp: cursor_ok_def cursor_text_def cursor_sid_def)

lemma tail_ok_stream: "tail_ok X me ks \<Longrightarrow> stream_ok (ledger_of ks) \<and> as_stream (ks ledger_key) = Some (ledger_of ks)"
  by (simp add: tail_ok_def world_inv_def store_inv_def ledger_inv_def ledger_sound_def)

lemma doc_load_cursor:
  "cursor_ok ks me \<Longrightarrow> load_cursor (doc_redis i) me (quiet ks) = (Inr (cursor_text ks me), quiet ks)"
  by (auto simp: load_cursor_def call_quiet doc_cmds cursor_ok_def cursor_text_def)

lemma doc_read_batch:
  assumes ok: "tail_ok X me ks" and n: "0 < n"
  shows "read_ledger_batch X (doc_redis i) (case cursor_text ks me of None \<Rightarrow> cursor_head | Some s \<Rightarrow> s) n blk (quiet ks) =
    (Inr (batch_of (take (nat n) (drop (tail_pos me ks) (tail_log X ks)))), quiet ks)"
proof -
  let ?ms = "take (nat n) (drop (tail_pos me ks) (ledger_of ks))"
  have "cursor_ok ks me" using ok by (simp add: tail_ok_def)
  note cur = cursor_text_parse [OF this]
  have es: "filter (\<lambda>e. cursor_sid ks me < fst e) (ledger_of ks) = drop (tail_pos me ks) (ledger_of ks)"
    using entries_after tail_ok_stream [OF ok] by (simp add: stream_ok_def tail_pos_def)
  have "xread_c (doc_redis i) ledger_key (case cursor_text ks me of None \<Rightarrow> cursor_head | Some s \<Rightarrow> s) n ks =
      (Inr (if ?ms = [] then None else Some (map to_msg ?ms)), ks)"
    using tail_ok_stream [OF ok] cur es by (simp add: doc_cmds Let_def)
  moreover have "take (nat n) (drop (tail_pos me ks) (tail_log X ks)) = map (decode_entry X) (map to_msg ?ms)"
    by (simp add: tail_log_def take_map drop_map)
  ultimately show ?thesis
    by (cases "?ms = []") (simp_all add: read_ledger_batch_def io_bind_def call_quiet del: take_eq_Nil drop_eq_Nil)
qed

lemma doc_save_cursor:
  "save_cursor (doc_redis i) me c (quiet ks) = (Inr (), quiet (ks(consumer_cursor_key me \<mapsto> Str c)))"
  by (simp add: save_cursor_def call_quiet doc_cmds)

lemma world_inv_cursor:
  assumes "world_inv X {} ks" shows "world_inv X {} (ks(consumer_cursor_key me \<mapsto> Str c))"
proof -
  have "aux_inv (ks(consumer_cursor_key me \<mapsto> Str c))"
    using assms by (simp add: world_inv_def aux_inv_cursor)
  from core_step_world [OF same_core_cursor this assms] show ?thesis by simp
qed

lemma ledger_of_cursor [simp]: "ledger_of (ks(consumer_cursor_key me \<mapsto> v)) = ledger_of ks"
  by (rule ledger_of_upd) simp

lemma tail_ok_save:
  assumes ok: "tail_ok X me ks" and k: "0 < k" "k \<le> length (ledger_of ks)"
  defines "ks' \<equiv> ks(consumer_cursor_key me \<mapsto> Str (show_sid (fst (ledger_of ks ! (k - 1)))))"
  shows "tail_ok X me ks'" "tail_pos me ks' = k"
proof -
  let ?i = "fst (ledger_of ks ! (k - 1))"
  note st = tail_ok_stream [OF ok]
  have "ledger_of ks ! (k - 1) \<in> set (ledger_of ks)" using k by (intro nth_mem) simp
  then have i: "sid_ok ?i" using st by (auto simp: stream_ok_def)
  show "tail_ok X me ks'"
  proof -
    have "cursor_ok ks' me"
      unfolding cursor_ok_def ks'_def by (rule disjI2, rule exI [of _ ?i]) (use i in simp)
    with ok world_inv_cursor [of X ks] show ?thesis by (simp add: tail_ok_def ks'_def)
  qed
  have "cursor_sid ks' me = ?i" using i by (simp add: cursor_sid_def ks'_def)
  then show "tail_pos me ks' = k"
    using k st entries_upto_nth [of "ledger_of ks" "k - 1"]
    by (simp add: tail_pos_def ks'_def stream_ok_def)
qed

lemma tail_ok_only_z:
  assumes "tail_ok X me ks" "only_z ks ks'" "aux_inv ks'"
  shows "tail_ok X me ks' \<and> ledger_of ks' = ledger_of ks \<and> cursor_sid ks' me = cursor_sid ks me \<and>
    cursor_text ks' me = cursor_text ks me"
proof -
  have cur: "ks' (consumer_cursor_key me) = ks (consumer_cursor_key me)"
    using assms(2) by (simp add: only_z_def)
  note core = only_z_core [OF assms(2)]
  have "world_inv X {} ks'" using core_step_world [OF core assms(3)] assms(1) by (simp add: tail_ok_def)
  with cur assms(1) same_core_inv(4) [OF core] show ?thesis
    by (simp add: tail_ok_def cursor_ok_def cursor_sid_def cursor_text_def)
qed

lemma tail_log_indexable:
  assumes "tail_ok X me ks" "e \<in> set (log_events (tail_log X ks))"
  shows "\<exists>d. stream_id_score (ev_id e) = Inr d"
proof -
  obtain x where x: "x \<in> set (ledger_of ks)" "entry_to_event X (to_msg x) = Inr e"
    using assms(2) by (auto simp: set_log_events tail_log_def decode_entry_def)
  then have "ev_id e = show_sid (fst x)" using entry_to_event_Inr [OF x(2)] by (simp add: to_msg_def)
  with x(1) assms(1) show ?thesis by (auto simp: tail_ok_def stream_id_score_sid)
qed

lemma tail_pos_le: "tail_pos me ks \<le> length (tail_log X ks)"
  by (simp add: tail_pos_def tail_log_def entries_upto_def)

lemma io_bind_lift:
  "io_bind (io_lift (Inl e)) f = io_fail e" "io_bind (io_lift (Inr x)) f = f x"
  by (rule ext, simp add: io_bind_def)+

locale ledger_server = redis_server R view for R :: "'s redis" and view :: "'s \<Rightarrow> keyspace" +
  fixes X :: ext and L :: "(sid \<times> fields) list"
begin

text \<open>While the consumer works alone the ledger stays the same list \<open>L\<close>.\<close>

definition quiet_ok :: "string \<Rightarrow> 's world \<Rightarrow> bool" where
  "quiet_ok me w \<longleftrightarrow> (\<exists>s. w = quiet s \<and> tail_ok X me (view s) \<and> ledger_of (view s) = L)"

lemma qsim_load: "qsim view (load_cursor R me) (load_cursor (doc_redis i) me)"
  unfolding load_cursor_def by (rule qsim_call) (rule law_get)

lemma qsim_save: "qsim view (save_cursor R me c) (save_cursor (doc_redis i) me c)"
  unfolding save_cursor_def by (rule qsim_call) (rule law_set)

lemma qsim_read:
  "parse_sid a = Some j \<Longrightarrow> 0 < n \<Longrightarrow> qsim view (read_ledger_batch X R a n blk) (read_ledger_batch X (doc_redis i) a n blk)"
  unfolding read_ledger_batch_def by (auto intro!: qsim_bind qsim_call law_xread split: option.split)

lemma qsim_history: "qsim view (apply_player_history R evs) (apply_player_history (doc_redis i) evs)"
proof -
  have "rel_sum (=) (list_all2 (\<lambda>c c'. \<forall>s. obs view (c s) = c' (view s)))
      (res_map (history_cmd R) evs) (res_map (history_cmd (doc_redis i)) evs)"
  proof (induction evs)
    case (Cons e evs)
    show ?case
    proof (cases "stream_id_score (ev_id e)")
      case (Inl x)
      then have "history_cmd R e = Inl x" "history_cmd (doc_redis i) e = Inl x"
        by (simp_all add: history_cmd_def)
      then show ?thesis by simp
    next
      case (Inr d)
      let ?k = "player_history_key (ev_player e) (ev_board e)"
      have "history_cmd R e = Inr (zadd_c R ?k d (ev_id e))"
        "history_cmd (doc_redis i) e = Inr (zadd_c (doc_redis i) ?k d (ev_id e))"
        using Inr by (simp_all add: history_cmd_def)
      with Cons show ?thesis
        by (cases "res_map (history_cmd R) evs"; cases "res_map (history_cmd (doc_redis i)) evs")
          (simp_all add: law_zadd)
    qed
  qed simp
  then show ?thesis
    by (cases "res_map (history_cmd R) evs"; cases "res_map (history_cmd (doc_redis i)) evs")
      (auto simp: apply_player_history_def io_bind_lift intro!: qsim_bind qsim_pipeline)
qed

lemma qsim_daily:
  assumes "0 < ttl" shows "qsim view (apply_daily_counts R ttl evs) (apply_daily_counts (doc_redis i) ttl evs)"
proof -
  have "list_all2 (\<lambda>c c'. \<forall>s. obs view (c s) = c' (view s))
      (concat (map (daily_cmds R ttl) evs)) (concat (map (daily_cmds (doc_redis i) ttl) evs))"
  proof (induction evs)
    case (Cons e evs)
    have "list_all2 (\<lambda>c c'. \<forall>s. obs view (c s) = c' (view s)) (daily_cmds R ttl e) (daily_cmds (doc_redis i) ttl e)"
      using assms by (auto simp: daily_cmds_def Let_def map_cmd_def intro!: obs_bind law_zincrby law_expire)
    with Cons show ?case by (simp add: list_all2_appendI)
  qed simp
  then show ?thesis unfolding apply_daily_counts_def by (auto intro!: qsim_bind qsim_pipeline)
qed

text \<open>The operations of the store on a quiet world.\<close>

lemma tail_load:
  assumes "quiet_ok me w"
  shows "\<exists>w'. cs_load (ledger_store X R) me w = (Inr (cursor_text (view (srv w)) me), w') \<and>
    quiet_ok me w' \<and> view (srv w') = view (srv w)"
proof -
  obtain s where w: "w = quiet s" and ok: "tail_ok X me (view s)" "ledger_of (view s) = L"
    using assms by (auto simp: quiet_ok_def)
  then have "cursor_ok (view s) me" by (simp add: tail_ok_def)
  then obtain s' where "load_cursor R me (quiet s) = (Inr (cursor_text (view s) me), quiet s')" "view s' = view s"
    by (rule qsimD [OF qsim_load doc_load_cursor])
  with ok show ?thesis by (auto simp: w ledger_store_def quiet_ok_def)
qed

lemma tail_read:
  assumes "quiet_ok me w" "0 < n"
  shows "\<exists>w'. cs_read (ledger_store X R) (case cursor_text (view (srv w)) me of None \<Rightarrow> cursor_head | Some s \<Rightarrow> s) n blk w =
      (Inr (batch_of (take (nat n) (drop (tail_pos me (view (srv w))) (tail_log X (view (srv w)))))), w') \<and>
    quiet_ok me w' \<and> view (srv w') = view (srv w)"
proof -
  obtain s where w: "w = quiet s" and ok: "tail_ok X me (view s)" "ledger_of (view s) = L"
    using assms by (auto simp: quiet_ok_def)
  then have cur: "cursor_ok (view s) me" by (simp add: tail_ok_def)
  obtain s' where "read_ledger_batch X R (case cursor_text (view s) me of None \<Rightarrow> cursor_head | Some s \<Rightarrow> s) n blk (quiet s) =
      (Inr (batch_of (take (nat n) (drop (tail_pos me (view s)) (tail_log X (view s))))), quiet s')"
    "view s' = view s"
    by (rule qsimD [OF qsim_read [OF cursor_text_parse [OF cur] assms(2)] doc_read_batch [OF ok(1) assms(2)]])
  with ok show ?thesis by (auto simp: w ledger_store_def quiet_ok_def)
qed

lemma tail_save:
  assumes "quiet_ok me w" "tail_pos me (view (srv w)) < k" "k \<le> length (tail_log X (view (srv w)))"
  shows "\<exists>w'. cs_save (ledger_store X R) me (fst (tail_log X (view (srv w)) ! (k - 1))) w = (Inr (), w') \<and>
    quiet_ok me w' \<and> tail_log X (view (srv w')) = tail_log X (view (srv w)) \<and> tail_pos me (view (srv w')) = k \<and>
    (\<exists>c. view (srv w') = (view (srv w))(consumer_cursor_key me \<mapsto> Str c))"
proof -
  obtain s where w: "w = quiet s" and ok: "tail_ok X me (view s)" "ledger_of (view s) = L"
    using assms by (auto simp: quiet_ok_def)
  have k: "0 < k" "k \<le> length (ledger_of (view s))" using assms by (auto simp: w tail_log_def)
  have i: "fst (tail_log X (view s) ! (k - 1)) = show_sid (fst (ledger_of (view s) ! (k - 1)))"
    using k by (simp add: tail_log_def decode_entry_def to_msg_def)
  obtain s' where "save_cursor R me (show_sid (fst (ledger_of (view s) ! (k - 1)))) (quiet s) = (Inr (), quiet s')"
    "view s' = (view s)(consumer_cursor_key me \<mapsto> Str (show_sid (fst (ledger_of (view s) ! (k - 1)))))"
    by (rule qsimD [OF qsim_save doc_save_cursor])
  with tail_ok_save [OF ok(1) k] i ok(2) show ?thesis
    by (auto simp: w ledger_store_def quiet_ok_def tail_log_def)
qed

lemma tail_apply:
  assumes "quiet_ok me w" and sim: "qsim view m m'"
    and run: "\<And>s. w = quiet s \<Longrightarrow> tail_ok X me (view s) \<Longrightarrow>
      \<exists>ks'. m' (quiet (view s)) = (Inr (), quiet ks') \<and> only_z (view s) ks' \<and> aux_inv ks' \<and> Q ks'"
  shows "\<exists>w'. m w = (Inr (), w') \<and> quiet_ok me w' \<and> tail_log X (view (srv w')) = tail_log X (view (srv w)) \<and>
    cursor_text (view (srv w')) me = cursor_text (view (srv w)) me \<and>
    tail_pos me (view (srv w')) = tail_pos me (view (srv w)) \<and> Q (view (srv w'))"
proof -
  obtain s where w: "w = quiet s" and ok: "tail_ok X me (view s)" "ledger_of (view s) = L"
    using assms by (auto simp: quiet_ok_def)
  from run [OF w ok(1)] obtain ks' where ks': "m' (quiet (view s)) = (Inr (), quiet ks')"
    "only_z (view s) ks'" "aux_inv ks'" "Q ks'" by blast
  obtain s' where "m (quiet s) = (Inr (), quiet s')" "view s' = ks'"
    by (rule qsimD [OF sim ks'(1)])
  with ks' tail_ok_only_z [OF ok(1) ks'(2,3)] ok(2) show ?thesis
    by (auto simp: w quiet_ok_def tail_log_def tail_pos_def)
qed

lemma quiet_events:
  assumes "quiet_ok me w" "set evs \<subseteq> set (log_events (tail_log X (view (srv w))))" "e \<in> set evs"
  shows "\<exists>d. stream_id_score (ev_id e) = Inr d"
  using assms tail_log_indexable [of X me] by (auto simp: quiet_ok_def)

end

lemma content_cursor [simp]:
  "history_content (ks(consumer_cursor_key me \<mapsto> v)) = history_content ks"
  "daily_content (ks(consumer_cursor_key me \<mapsto> v)) = daily_content ks"
  by (auto simp: history_content_def daily_content_def zset_at_def fun_eq_iff)

sublocale ledger_server \<subseteq> history: ledger_tail "ledger_store X R" "apply_player_history R" player_history_id
    "quiet_ok player_history_id" "\<lambda>w. tail_log X (view (srv w))"
    "\<lambda>w. cursor_text (view (srv w)) player_history_id" "\<lambda>w. tail_pos player_history_id (view (srv w))"
    "\<lambda>w. history_content (view (srv w))" history_fold
proof
  fix w n blk evs k
  assume ok: "quiet_ok player_history_id w"
  show "\<exists>w'. cs_load (ledger_store X R) player_history_id w = (Inr (cursor_text (view (srv w)) player_history_id), w') \<and>
      quiet_ok player_history_id w' \<and> tail_log X (view (srv w')) = tail_log X (view (srv w)) \<and>
      cursor_text (view (srv w')) player_history_id = cursor_text (view (srv w)) player_history_id \<and>
      tail_pos player_history_id (view (srv w')) = tail_pos player_history_id (view (srv w)) \<and>
      history_content (view (srv w')) = history_content (view (srv w))"
    using tail_load [OF ok] by metis
  show "\<exists>w'. cs_read (ledger_store X R)
        (case cursor_text (view (srv w)) player_history_id of None \<Rightarrow> cursor_head | Some s \<Rightarrow> s) n blk w =
      (Inr (batch_of (take (nat n) (drop (tail_pos player_history_id (view (srv w))) (tail_log X (view (srv w)))))), w') \<and>
      quiet_ok player_history_id w' \<and> tail_log X (view (srv w')) = tail_log X (view (srv w)) \<and>
      cursor_text (view (srv w')) player_history_id = cursor_text (view (srv w)) player_history_id \<and>
      tail_pos player_history_id (view (srv w')) = tail_pos player_history_id (view (srv w)) \<and>
      history_content (view (srv w')) = history_content (view (srv w))" if "0 < n"
    using tail_read [OF ok that, of blk] by metis
  show "\<exists>w'. apply_player_history R evs w = (Inr (), w') \<and> quiet_ok player_history_id w' \<and>
      tail_log X (view (srv w')) = tail_log X (view (srv w)) \<and>
      cursor_text (view (srv w')) player_history_id = cursor_text (view (srv w)) player_history_id \<and>
      tail_pos player_history_id (view (srv w')) = tail_pos player_history_id (view (srv w)) \<and>
      history_content (view (srv w')) = fold history_fold evs (history_content (view (srv w)))"
    if evs: "set evs \<subseteq> set (log_events (tail_log X (view (srv w))))"
    by (rule tail_apply [OF ok qsim_history, where i1 = "(0, 1)"])
      (use doc_apply_player_history quiet_events [OF ok evs] in \<open>auto simp: tail_ok_def world_inv_def\<close>)
  show "\<exists>w'. cs_save (ledger_store X R) player_history_id (fst (tail_log X (view (srv w)) ! (k - 1))) w = (Inr (), w') \<and>
      quiet_ok player_history_id w' \<and> tail_log X (view (srv w')) = tail_log X (view (srv w)) \<and>
      tail_pos player_history_id (view (srv w')) = k \<and>
      history_content (view (srv w')) = history_content (view (srv w))"
    if "tail_pos player_history_id (view (srv w)) < k" "k \<le> length (tail_log X (view (srv w)))"
    using tail_save [OF ok that] by (metis content_cursor(1))
  show "tail_pos player_history_id (view (srv w)) \<le> length (tail_log X (view (srv w)))"
    by (rule tail_pos_le)
qed

sublocale ledger_server \<subseteq> daily: ledger_tail "ledger_store X R" "apply_daily_counts R daily_ttl" daily_activity_id
    "quiet_ok daily_activity_id" "\<lambda>w. tail_log X (view (srv w))"
    "\<lambda>w. cursor_text (view (srv w)) daily_activity_id" "\<lambda>w. tail_pos daily_activity_id (view (srv w))"
    "\<lambda>w. daily_content (view (srv w))" daily_fold
proof
  fix w n blk evs k
  assume ok: "quiet_ok daily_activity_id w"
  show "\<exists>w'. cs_load (ledger_store X R) daily_activity_id w = (Inr (cursor_text (view (srv w)) daily_activity_id), w') \<and>
      quiet_ok daily_activity_id w' \<and> tail_log X (view (srv w')) = tail_log X (view (srv w)) \<and>
      cursor_text (view (srv w')) daily_activity_id = cursor_text (view (srv w)) daily_activity_id \<and>
      tail_pos daily_activity_id (view (srv w')) = tail_pos daily_activity_id (view (srv w)) \<and>
      daily_content (view (srv w')) = daily_content (view (srv w))"
    using tail_load [OF ok] by metis
  show "\<exists>w'. cs_read (ledger_store X R)
        (case cursor_text (view (srv w)) daily_activity_id of None \<Rightarrow> cursor_head | Some s \<Rightarrow> s) n blk w =
      (Inr (batch_of (take (nat n) (drop (tail_pos daily_activity_id (view (srv w))) (tail_log X (view (srv w)))))), w') \<and>
      quiet_ok daily_activity_id w' \<and> tail_log X (view (srv w')) = tail_log X (view (srv w)) \<and>
      cursor_text (view (srv w')) daily_activity_id = cursor_text (view (srv w)) daily_activity_id \<and>
      tail_pos daily_activity_id (view (srv w')) = tail_pos daily_activity_id (view (srv w)) \<and>
      daily_content (view (srv w')) = daily_content (view (srv w))" if "0 < n"
    using tail_read [OF ok that, of blk] by metis
  show "\<exists>w'. apply_daily_counts R daily_ttl evs w = (Inr (), w') \<and> quiet_ok daily_activity_id w' \<and>
      tail_log X (view (srv w')) = tail_log X (view (srv w)) \<and>
      cursor_text (view (srv w')) daily_activity_id = cursor_text (view (srv w)) daily_activity_id \<and>
      tail_pos daily_activity_id (view (srv w')) = tail_pos daily_activity_id (view (srv w)) \<and>
      daily_content (view (srv w')) = fold daily_fold evs (daily_content (view (srv w)))"
    if evs: "set evs \<subseteq> set (log_events (tail_log X (view (srv w))))"
    by (rule tail_apply [OF ok qsim_daily, where i1 = "(0, 1)"])
      (use doc_apply_daily in \<open>auto simp: tail_ok_def world_inv_def daily_ttl_def\<close>)
  show "\<exists>w'. cs_save (ledger_store X R) daily_activity_id (fst (tail_log X (view (srv w)) ! (k - 1))) w = (Inr (), w') \<and>
      quiet_ok daily_activity_id w' \<and> tail_log X (view (srv w')) = tail_log X (view (srv w)) \<and>
      tail_pos daily_activity_id (view (srv w')) = k \<and>
      daily_content (view (srv w')) = daily_content (view (srv w))"
    if "tail_pos daily_activity_id (view (srv w)) < k" "k \<le> length (tail_log X (view (srv w)))"
    using tail_save [OF ok that] by (metis content_cursor(2))
  show "tail_pos daily_activity_id (view (srv w)) \<le> length (tail_log X (view (srv w)))"
    by (rule tail_pos_le)
qed

subsection \<open>Catching up\<close>

context ledger_server
begin

lemma history_catch_up:
  assumes "tail_ok X player_history_id (view s)" and "ledger_of (view s) = L"
    and "length L \<le> tail_pos player_history_id (view s) + 10 * k"
  shows "\<exists>s'. run_consumer (new_player_history_consumer X R) (replicate k awake) (quiet s) = (False, quiet s') \<and>
    tail_ok X player_history_id (view s') \<and> ledger_of (view s') = L \<and> tail_pos player_history_id (view s') = length L \<and>
    history_content (view s') =
      fold history_fold (log_events (drop (tail_pos player_history_id (view s)) (tail_log X (view s))))
        (history_content (view s))"
proof -
  have ok: "quiet_ok player_history_id (quiet s)" using assms(1,2) by (simp add: quiet_ok_def)
  have len: "length (tail_log X (view (srv (quiet s)))) \<le> tail_pos player_history_id (view (srv (quiet s))) + 10 * k"
    using assms(2,3) by (simp add: tail_log_def)
  have "history.tail_consumer default_block_duration = new_player_history_consumer X R"
    by (simp add: history.tail_consumer_def new_player_history_consumer_def)
  with history.catch_up [OF ok len, of default_block_duration] show ?thesis
    by (elim exE conjE) (simp add: quiet_ok_def tail_log_def assms(2), metis quiet_sel(1))
qed

lemma daily_catch_up:
  assumes "tail_ok X daily_activity_id (view s)" and "ledger_of (view s) = L"
    and "length L \<le> tail_pos daily_activity_id (view s) + 10 * k"
  shows "\<exists>s'. run_consumer (new_daily_activity_consumer X R) (replicate k awake) (quiet s) = (False, quiet s') \<and>
    tail_ok X daily_activity_id (view s') \<and> ledger_of (view s') = L \<and> tail_pos daily_activity_id (view s') = length L \<and>
    daily_content (view s') =
      fold daily_fold (log_events (drop (tail_pos daily_activity_id (view s)) (tail_log X (view s))))
        (daily_content (view s))"
proof -
  have ok: "quiet_ok daily_activity_id (quiet s)" using assms(1,2) by (simp add: quiet_ok_def)
  have len: "length (tail_log X (view (srv (quiet s)))) \<le> tail_pos daily_activity_id (view (srv (quiet s))) + 10 * k"
    using assms(2,3) by (simp add: tail_log_def)
  have "daily.tail_consumer default_block_duration = new_daily_activity_consumer X R"
    by (simp add: daily.tail_consumer_def new_daily_activity_consumer_def)
  with daily.catch_up [OF ok len, of default_block_duration] show ?thesis
    by (elim exE conjE) (simp add: quiet_ok_def tail_log_def assms(2), metis quiet_sel(1))
qed

end

text \<open>After a crash between the writes and the cursor: a batch applied again leaves the index as it was.\<close>

lemma history_batch_idempotent:
  assumes "redis_server R view" and "world_inv X {} (view s)"
    and "\<forall>e \<in> set evs. \<exists>d. stream_id_score (ev_id e) = Inr d"
  shows "\<exists>s1 s2. apply_player_history R evs (quiet s) = (Inr (), quiet s1) \<and>
    apply_player_history R evs (quiet s1) = (Inr (), quiet s2) \<and>
    history_content (view s1) = fold history_fold evs (history_content (view s)) \<and>
    history_content (view s2) = history_content (view s1)"
proof -
  have aux: "aux_inv (view s)" using assms(2) by (simp add: world_inv_def)
  note sim = ledger_server.qsim_history [OF ledger_server.intro [OF assms(1)]]
  obtain ks1 where ks1: "apply_player_history (doc_redis (0, 1)) evs (quiet (view s)) = (Inr (), quiet ks1)" "aux_inv ks1"
    "history_content ks1 = fold history_fold evs (history_content (view s))"
    using doc_apply_player_history [OF aux, of evs "(0, 1)"] assms(3) by auto
  from qsim_result [OF sim ks1(1)] obtain s1 where
    s1: "apply_player_history R evs (quiet s) = (Inr (), quiet s1)" "view s1 = ks1" by blast
  obtain ks2 where ks2: "apply_player_history (doc_redis (0, 1)) evs (quiet (view s1)) = (Inr (), quiet ks2)"
    "history_content ks2 = fold history_fold evs (history_content (view s1))"
    using doc_apply_player_history [OF ks1(2), of evs "(0, 1)"] assms(3) s1(2) by auto
  from qsim_result [OF sim ks2(1)] obtain s2 where
    "apply_player_history R evs (quiet s1) = (Inr (), quiet s2)" "view s2 = ks2" by blast
  with s1 ks1(3) ks2(2) show ?thesis by (auto simp: fold_history_again)
qed

interpretation mem_ledger: ledger_server mem_redis m_keys X L for X L
  by unfold_locales

end
