(* ===== verification/Standings.thy ===== *)
theory Standings
  imports Clients
begin

section \<open>What the board reads return (\<open>storage/score_repo.go\<close>)\<close>

text \<open>
  The specification of a leaderboard is \<open>is_ranking\<close>: every scored player once, ordered by score
  and then by player id, both descending, with the position as rank. Such a list is unique. Live
  pages are slices of the ranking of the whole ledger, time travel pages of the ranking of the
  entries before the cutoff, and a standing is its player's row.
\<close>

subsection \<open>Rankings\<close>

definition is_ranking :: "(string \<rightharpoonup> int) \<Rightarrow> standing list \<Rightarrow> bool" where
  "is_ranking m rows \<longleftrightarrow>
     sorted_wrt (\<lambda>a b. (st_score b, st_player b) < (st_score a, st_player a)) rows \<and>
     distinct (map st_player rows) \<and>
     (\<forall>p n. m p = Some n \<longleftrightarrow> (\<exists>row \<in> set rows. st_player row = p \<and> st_score row = n)) \<and>
     map st_rank rows = map int [1..<Suc (length rows)]"

lemma rank_rows_map:
  "map (\<lambda>row. (st_score row, st_player row)) (rank_rows r xs) = xs"
  "map st_rank (rank_rows r xs) = map (\<lambda>i. r + int i) [0..<length xs]"
proof -
  show "map (\<lambda>row. (st_score row, st_player row)) (rank_rows r xs) = xs"
    by (induction xs arbitrary: r) simp_all
  show "map st_rank (rank_rows r xs) = map (\<lambda>i. r + int i) [0..<length xs]"
  proof (induction xs arbitrary: r)
    case (Cons x xs)
    have "[0..<length (x # xs)] = 0 # map Suc [0..<length xs]" by (simp add: upt_conv_Cons map_Suc_upt del: upt_Suc)
    then show ?case using Cons [of "r + 1"] by (simp add: comp_def algebra_simps del: upt_Suc)
  qed simp
qed

lemma rank_rows_ranking:
  assumes "sorted xs" "distinct (map snd xs)" "\<And>p n. m p = Some n \<longleftrightarrow> (n, p) \<in> set xs"
  shows "is_ranking m (rank_rows 1 (rev xs))"
proof -
  let ?rows = "rank_rows 1 (rev xs)"
  have key: "map (\<lambda>row. (st_score row, st_player row)) ?rows = rev xs" by (rule rank_rows_map)
  have "distinct xs" using assms(2) by (simp add: distinct_map)
  then have "sorted_wrt (<) xs" using assms(1) by (simp add: strict_sorted_iff)
  then have "sorted_wrt (\<lambda>x y. y < x) (map (\<lambda>row. (st_score row, st_player row)) ?rows)"
    unfolding key sorted_wrt_rev .
  then have "sorted_wrt (\<lambda>a b. (st_score b, st_player b) < (st_score a, st_player a)) ?rows"
    by (simp add: sorted_wrt_map)
  moreover have "map st_player ?rows = map snd (rev xs)"
    by (metis (no_types, lifting) key list.map_comp comp_apply snd_conv map_eq_conv)
  then have "distinct (map st_player ?rows)" using assms(2) by (simp add: rev_map [symmetric])
  moreover have "m p = Some n \<longleftrightarrow> (\<exists>row \<in> set ?rows. st_player row = p \<and> st_score row = n)" for p n
  proof -
    have "(n, p) \<in> set xs \<longleftrightarrow> (n, p) \<in> set (map (\<lambda>row. (st_score row, st_player row)) ?rows)"
      unfolding key by simp
    also have "\<dots> \<longleftrightarrow> (\<exists>row \<in> set ?rows. st_player row = p \<and> st_score row = n)" by auto
    finally show ?thesis using assms(3) by simp
  qed
  moreover have "map st_rank ?rows = map int [1..<Suc (length ?rows)]"
    unfolding rank_rows_map(2) by (simp add: map_Suc_upt [symmetric] comp_def del: upt_Suc)
  ultimately show ?thesis by (simp add: is_ranking_def)
qed

lemma is_ranking_unique:
  assumes "is_ranking m xs" "is_ranking m ys"
  shows "xs = ys"
proof -
  let ?key = "\<lambda>row. (st_score row, st_player row)"
  have sorted: "sorted_wrt (<) (rev (map ?key zs))" if "is_ranking m zs" for zs
    using that by (simp add: is_ranking_def sorted_wrt_rev sorted_wrt_map)
  have set: "set (map ?key zs) = {(n, p). m p = Some n}" if "is_ranking m zs" for zs
    using that by (auto simp: is_ranking_def)
  have "rev (map ?key xs) = rev (map ?key ys)"
    using sorted [OF assms(1)] sorted [OF assms(2)] set [OF assms(1)] set [OF assms(2)]
    by (intro sorted_distinct_set_eq) (simp_all add: strict_sorted_iff)
  then have keys: "map ?key xs = map ?key ys" by simp
  then have len: "length xs = length ys" by (metis length_map)
  then have ranks: "map st_rank xs = map st_rank ys" using assms by (simp add: is_ranking_def)
  show ?thesis
  proof (rule nth_equalityI [OF len])
    fix i assume i: "i < length xs"
    have "?key (xs ! i) = ?key (ys ! i)" "st_rank (xs ! i) = st_rank (ys ! i)"
      using arg_cong [OF keys, of "\<lambda>l. l ! i"] arg_cong [OF ranks, of "\<lambda>l. l ! i"] i len by simp_all
    then show "xs ! i = ys ! i" by (intro standing.equality) simp_all
  qed
qed

subsection \<open>A leaderboard's sorted set\<close>

lemma zset_ints:
  assumes "z_ok z" "z_map z = as_scores m"
  obtains xs where "z = map (\<lambda>row. (Fin (of_int (fst row)), snd row)) xs" "sorted xs"
    "distinct (map snd xs)" "\<And>p n. m p = Some n \<longleftrightarrow> (n, p) \<in> set xs"
proof
  let ?f = "\<lambda>row. (Fin (of_int (fst row)), snd row)"
  define xs where "xs = map (\<lambda>e. (the (m (snd e)), snd e)) z"
  have e: "m (snd e) = Some (the (m (snd e))) \<and> fst e = Fin (of_int (the (m (snd e))))" if "e \<in> set z" for e
  proof -
    have "z_map z (snd e) = Some (fst e)" using z_map_mem [of z "fst e" "snd e"] assms(1) that by (simp add: z_ok_def)
    then show ?thesis using assms(2) by (auto simp: as_scores_def)
  qed
  show z: "z = map ?f xs" using e by (auto simp: xs_def comp_def prod_eq_iff intro!: map_idI [symmetric])
  have "sorted (map ?f xs)" using assms(1) z by (simp add: z_ok_def)
  then show "sorted xs" by (auto simp: sorted_map less_eq_prod_def elim!: sorted_wrt_mono_rel [rotated])
  show "distinct (map snd xs)" using assms(1) by (simp add: xs_def comp_def z_ok_def)
  show "m p = Some n \<longleftrightarrow> (n, p) \<in> set xs" for p n
  proof
    assume m: "m p = Some n"
    then have "z_map z p = Some (Fin (of_int n))" by (simp add: assms(2) as_scores_def)
    from z_map_in [OF this] m show "(n, p) \<in> set xs" by (force simp: xs_def)
  next
    assume "(n, p) \<in> set xs"
    then obtain x where "x \<in> set z" "n = the (m (snd x))" "p = snd x" by (auto simp: xs_def)
    with e [of x] show "m p = Some n" by simp
  qed
qed

subsection \<open>Pages of the live leaderboard\<close>

lemma z_slice_page:
  assumes "0 < limit" "0 \<le> offset"
  shows "z_slice offset (offset + limit - 1) xs = slice (nat offset) (nat (offset + limit)) xs"
proof -
  have le: "nat offset \<le> nat (offset + limit)" using assms by simp
  show ?thesis
  proof (cases "int (length xs) \<le> offset")
    case True
    then have "slice (nat offset) (nat (offset + limit)) xs = []" by (simp add: slice_def)
    moreover have "z_slice offset (offset + limit - 1) xs = []"
      using True assms by (simp add: z_slice_def Let_def)
    ultimately show ?thesis by simp
  next
    case False
    have "nat (min (int (length xs) - 1) (offset + limit - 1)) + 1 = min (nat (offset + limit)) (length xs)"
      using False assms by (simp add: min_def) linarith
    moreover have "\<not> min (int (length xs) - 1) (offset + limit - 1) < offset"
      using False assms by simp
    ultimately show ?thesis
      using False assms slice_clip [of "nat offset" "nat (offset + limit)" xs]
      by (simp add: z_slice_def Let_def)
  qed
qed

lemma z_rank_Some:
  "(d, p) \<in> set z \<Longrightarrow> \<exists>r. z_rank p z = Some r \<and> r < length z \<and> snd (z ! r) = p"
proof (induction z)
  case (Cons e z)
  then show ?case by (cases "snd e = p") force+
qed simp

lemma z_rank_None: "p \<notin> snd ` set z \<Longrightarrow> z_rank p z = None"
  by (induction z) auto

lemma find_rank_row:
  "find (\<lambda>row. st_player row = p) (rank_rows r ys) = Some row \<Longrightarrow>
    r \<le> st_rank row \<and> (st_score row, p) \<in> set ys \<and> st_player row = p"
proof (induction ys arbitrary: r)
  case (Cons y ys)
  show ?case
  proof (cases "snd y = p")
    case True
    with Cons.prems have "row = \<lparr>st_player = p, st_score = fst y, st_rank = r\<rparr>" by simp
    with True show ?thesis by (cases y) simp
  next
    case False
    with Cons.prems have "find (\<lambda>row. st_player row = p) (rank_rows (r + 1) ys) = Some row" by simp
    from Cons.IH [OF this] show ?thesis by simp
  qed
qed simp

lemma z_rank_rows:
  "z_rank p (map (\<lambda>row. (Fin (of_int (fst row)), snd row)) ys) =
    (case find (\<lambda>row. st_player row = p) (rank_rows r ys) of
       None \<Rightarrow> None | Some row \<Rightarrow> Some (nat (st_rank row - r)))"
proof (induction ys arbitrary: r)
  case (Cons y ys)
  show ?case
  proof (cases "snd y = p")
    case False
    show ?thesis
    proof (cases "find (\<lambda>row. st_player row = p) (rank_rows (r + 1) ys)")
      case None
      with False Cons [of "r + 1"] show ?thesis by simp
    next
      case (Some row)
      with find_rank_row [OF Some] False Cons [of "r + 1"] show ?thesis
        by (simp add: Suc_nat_eq_nat_zadd1 algebra_simps)
    qed
  qed simp
qed simp

lemma world_leaderboard:
  assumes "world_inv X UNIV ks"
  obtains z where "as_zset (ks (leaderboard_key b)) = Some z" "z_ok z"
    "z_map z = as_scores (board_scores X b (ledger_of ks))" "scores_bounded (board_scores X b (ledger_of ks))"
  using assms ledger_inv_bounded [of X UNIV ks b]
  by (auto simp: world_inv_def store_inv_def ledger_inv_def projection_ok_def)

lemma world_ledger:
  assumes "world_inv X B ks"
  shows "as_stream (ks ledger_key) = Some (ledger_of ks)" "b \<in> B \<Longrightarrow> ledger_sound X {b} (ledger_of ks)"
    "stream_ok (ledger_of ks)" "e \<in> set (ledger_of ks) \<Longrightarrow> \<exists>ev. entry_to_event X (to_msg e) = Inr ev"
  using assms by (auto simp: world_inv_def store_inv_def ledger_inv_def ledger_sound_def)

lemma rows_in_order:
  assumes "z_ok z" "z_map z = as_scores m" "scores_bounded m"
  obtains xs where "rev z = map (\<lambda>row. (Fin (of_int (fst row)), snd row)) xs" "is_ranking m (rank_rows 1 xs)"
    "\<And>row. row \<in> set xs \<Longrightarrow> is_int64 (fst row)" "\<And>p n. m p = Some n \<longleftrightarrow> (n, p) \<in> set xs"
proof -
  obtain xs where xs: "z = map (\<lambda>row. (Fin (of_int (fst row)), snd row)) xs" "sorted xs" "distinct (map snd xs)"
    "\<And>p n. m p = Some n \<longleftrightarrow> (n, p) \<in> set xs"
    by (rule zset_ints [OF assms(1,2)]) blast
  have "is_int64 (fst row)" if "row \<in> set xs" for row
    using that xs(4) [of "snd row" "fst row"] assms(3) score_int64 by (auto simp: scores_bounded_def)
  with xs rank_rows_ranking [OF xs(2,3,4)] that [of "rev xs"] show ?thesis by (simp add: rev_map)
qed

theorem doc_list_standings:
  assumes inv: "world_inv X UNIV ks" and page: "0 < limit" "0 \<le> offset" "offset + limit < 2 ^ 63"
  shows "\<exists>rows. is_ranking (board_scores X b (ledger_of ks)) rows \<and>
    list_standings (doc_redis i) b limit offset (quiet ks) =
      (Inr (slice (nat offset) (nat (offset + limit)) rows, int (length rows)), quiet ks)"
proof -
  obtain z where z: "as_zset (ks (leaderboard_key b)) = Some z" "z_ok z"
    "z_map z = as_scores (board_scores X b (ledger_of ks))" "scores_bounded (board_scores X b (ledger_of ks))"
    by (rule world_leaderboard [OF inv])
  obtain xs where xs: "rev z = map (\<lambda>row. (Fin (of_int (fst row)), snd row)) xs"
    "is_ranking (board_scores X b (ledger_of ks)) (rank_rows 1 xs)" "\<And>row. row \<in> set xs \<Longrightarrow> is_int64 (fst row)"
    by (rule rows_in_order [OF z(2-4)]) blast
  let ?s = "slice (nat offset) (nat (offset + limit))"
  have wrap: "wrap64 (offset + limit - 1) = offset + limit - 1" using page by (simp add: is_int64_def)
  have pg: "z_slice offset (offset + limit - 1) (rev z) = map (\<lambda>row. (Fin (of_int (fst row)), snd row)) (?s xs)"
    unfolding xs(1) z_slice_page [OF page(1,2)] slice_map ..
  have "set (?s xs) \<subseteq> set xs" by (auto simp: slice_def dest: in_set_takeD in_set_dropD)
  then have "standing_rows (offset + 1) (map (\<lambda>row. (Fin (of_int (fst row)), snd row)) (?s xs)) =
      rank_rows (offset + 1) (?s xs)"
    using xs(3) by (intro standing_rows_int) blast
  then have rows: "standing_rows (offset + 1) (z_slice offset (offset + limit - 1) (rev z)) = ?s (rank_rows 1 xs)"
    unfolding pg slice_rank_rows using page(2) by (simp add: add.commute)
  have "length z = length xs" using arg_cong [OF xs(1), of length] by simp
  moreover have "pipeline [map_cmd PCard (zcard_c (doc_redis i) (leaderboard_key b)),
      map_cmd PRange (zrange_c (doc_redis i) (leaderboard_key b) offset (offset + limit - 1) True)] (quiet ks) =
      (Inr [PCard (int (length z)), PRange (z_slice offset (offset + limit - 1) (rev z))], quiet ks)"
    by (rule pipeline_reads) (simp add: z(1) doc_cmds map_cmd_def io_bind_def)
  ultimately show ?thesis
    using page(1) rows xs(2)
    by (intro exI [of _ "rank_rows 1 xs"]) (simp add: list_standings_def wrap io_bind_def)
qed

theorem doc_get_standing:
  assumes inv: "world_inv X UNIV ks"
  shows "\<exists>rows. is_ranking (board_scores X b (ledger_of ks)) rows \<and>
    get_standing (doc_redis i) p b (quiet ks) =
      (case find (\<lambda>row. st_player row = p) rows of
         None \<Rightarrow> Inl ErrNotFound | Some row \<Rightarrow> Inr (row, int (length rows)), quiet ks)"
proof -
  let ?m = "board_scores X b (ledger_of ks)"
  obtain z where z: "as_zset (ks (leaderboard_key b)) = Some z" "z_ok z" "z_map z = as_scores ?m" "scores_bounded ?m"
    by (rule world_leaderboard [OF inv])
  obtain xs where xs: "rev z = map (\<lambda>row. (Fin (of_int (fst row)), snd row)) xs" "is_ranking ?m (rank_rows 1 xs)"
    "\<And>row. row \<in> set xs \<Longrightarrow> is_int64 (fst row)" "\<And>p n. ?m p = Some n \<longleftrightarrow> (n, p) \<in> set xs"
    by (rule rows_in_order [OF z(2-4)]) blast
  have len: "length z = length xs" using arg_cong [OF xs(1), of length] by simp
  have pipe: "pipeline [map_cmd PRank (zrevrank_c (doc_redis i) (leaderboard_key b) p),
      map_cmd PCard (zcard_c (doc_redis i) (leaderboard_key b))] (quiet ks) =
      (Inr [PRank (doc_zrevrank p z), PCard (int (length z))], quiet ks)"
    by (rule pipeline_reads) (simp add: z(1) doc_cmds map_cmd_def io_bind_def)
  show ?thesis
  proof (cases "find (\<lambda>row. st_player row = p) (rank_rows 1 xs)")
    case None
    then have "doc_zrevrank p z = None" using z_rank_rows [of p xs 1] by (simp add: doc_zrevrank_def xs(1))
    with pipe None xs(2) show ?thesis
      by (intro exI [of _ "rank_rows 1 xs"]) (simp add: get_standing_def io_bind_def)
  next
    case (Some rw)
    note rw = find_rank_row [OF Some]
    then have "?m p = Some (st_score rw)" using xs(4) by blast
    then have "z_map z p = Some (Fin (of_int (st_score rw)))" by (simp add: z(3) as_scores_def)
    then have "doc_zrevrank p z = Some (st_rank rw - 1, Fin (of_int (st_score rw)))"
      using z_rank_rows [of p xs 1] Some rw by (simp add: doc_zrevrank_def xs(1))
    moreover have "is_int64 (st_score rw)" using xs(3) rw by force
    moreover have "rw = \<lparr>st_player = p, st_score = st_score rw, st_rank = st_rank rw - 1 + 1\<rparr>" using rw by simp
    ultimately show ?thesis
      using pipe Some xs(2) len
      by (intro exI [of _ "rank_rows 1 xs"]) (simp add: get_standing_def io_bind_def)
  qed
qed

subsection \<open>Time travel\<close>

lemma int64_bounded: "\<bar>x\<bar> \<le> 2 * score_max \<Longrightarrow> is_int64 x"
  by (auto simp: is_int64_def score_max_def)

lemma replay_scores_ledger:
  assumes "\<forall>e \<in> set es. \<exists>ev. entry_to_event X (to_msg e) = Inr ev"
    and "bounded_replay (map_of scores) (board_events X b es)" "distinct (map fst scores)"
  shows "\<exists>scores'. replay_scores X b (map to_msg es) scores = Inr scores' \<and> distinct (map fst scores') \<and>
    map_of scores' = foldl replay1 (map_of scores) (board_events X b es)"
  using assms
proof (induction es arbitrary: scores)
  case (Cons e es)
  then obtain ev where ev: "entry_to_event X (to_msg e) = Inr ev" by auto
  note ev' = entry_to_event_Inr [OF ev]
  have evs: "board_events X b (e # es) = (if ev_board ev = b then ev # board_events X b es else board_events X b es)"
    using ev by (simp add: board_events_def events_of_def)
  show ?case
  proof (cases "ev_board ev = b")
    case False
    with Cons ev' evs show ?thesis by simp
  next
    case True
    have bd: "scores_bounded (map_of scores)" "bounded_replay (replay1 (map_of scores) ev) (board_events X b es)"
      using Cons.prems(2) True by (simp_all add: evs bounded_replay_Cons)
    let ?n = "new_score (map_of scores) (ev_type ev) (ev_player ev) (ev_amount ev)"
    have upd: "map_of (AList.update (ev_player ev) ?n scores) = replay1 (map_of scores) ev"
      by (simp add: update_conv' replay1_new_score)
    have "replay_scores X b (map to_msg (e # es)) scores =
        replay_scores X b (map to_msg es) (AList.update (ev_player ev) ?n scores)"
    proof (cases "ev_type ev = event_set")
      case True
      with ev ev' \<open>ev_board ev = b\<close> show ?thesis by (simp add: new_score_def)
    next
      case False
      define cur where "cur = (case map_of scores (ev_player ev) of None \<Rightarrow> 0 | Some c \<Rightarrow> c)"
      have "\<bar>cur\<bar> \<le> score_max" "\<bar>ev_amount ev\<bar> \<le> score_max"
        using bd(1) ev' by (auto simp: cur_def scores_bounded_def score_validate_abs score_max_def split: option.split)
      then have "wrap64 (cur + ev_amount ev) = cur + ev_amount ev" by (intro wrap64_id int64_bounded) linarith
      with False ev ev' \<open>ev_board ev = b\<close> show ?thesis
        by (auto simp: Let_def cur_def [symmetric] new_score_def)
    qed
    moreover have "distinct (map fst (AList.update (ev_player ev) ?n scores))"
      using Cons.prems(3) by (rule distinct_update)
    ultimately show ?thesis
      using Cons.IH [of "AList.update (ev_player ev) ?n scores"] Cons.prems(1) bd(2) True
      by (simp add: upd evs)
  qed
qed (simp add: board_events_def)

lemma sorted_standings_ranking:
  assumes "distinct (map fst scores)"
  shows "is_ranking (map_of scores) (sorted_standings scores)"
  unfolding sorted_standings_def
proof (rule rank_rows_ranking)
  have "distinct (map snd (map prod.swap scores))" using assms by (simp add: comp_def)
  then show "distinct (map snd (sort (map prod.swap scores)))"
    by (metis distinct_map distinct_sort set_sort)
  show "map_of scores p = Some n \<longleftrightarrow> (n, p) \<in> set (sort (map prod.swap scores))" for p n
    using map_of_eq_Some_iff [OF assms, of p n] by (force simp: prod.swap_def)
qed simp

text \<open>The entries strictly before an instant, to the millisecond.\<close>

definition entries_before :: "time \<Rightarrow> (sid \<times> fields) list \<Rightarrow> (sid \<times> fields) list" where
  "entries_before before es = filter (\<lambda>e. int (fst (fst e)) < unix_milli before) es"

lemma entries_before_take:
  assumes "stream_ok es" shows "\<exists>k. entries_before before es = take k es"
proof -
  have "entries_before before es = takeWhile (\<lambda>e. int (fst (fst e)) < unix_milli before) es"
    using assms
  proof (induction es)
    case (Cons e es)
    have "\<not> int (fst (fst x)) < unix_milli before"
      if "\<not> int (fst (fst e)) < unix_milli before" "x \<in> set es" for x
    proof -
      have "fst e < fst x" using Cons.prems that(2) by (auto simp: stream_ok_def)
      then have "fst (fst e) \<le> fst (fst x)" by (cases "fst e"; cases "fst x") auto
      with that(1) show ?thesis by linarith
    qed
    then have "filter (\<lambda>e. int (fst (fst e)) < unix_milli before) es = []"
      if "\<not> int (fst (fst e)) < unix_milli before" using that by (simp add: filter_empty_conv)
    moreover have "stream_ok es" using Cons.prems by (simp add: stream_ok_def)
    ultimately show ?case
      using Cons.IH by (cases "int (fst (fst e)) < unix_milli before") (simp_all add: entries_before_def)
  qed (simp add: entries_before_def)
  then show ?thesis by (metis takeWhile_eq_take)
qed

lemma ledger_sound_take: "ledger_sound X B es \<Longrightarrow> ledger_sound X B (take k es)"
  unfolding ledger_sound_def
  by (auto simp: stream_ok_def sorted_wrt_take take_map [symmetric] min_def dest: in_set_takeD)

lemma as_of_bound:
  assumes "0 < unix_milli before" "unix_milli before < 2 ^ 63"
  shows "xbound (as_of_end_id before) = Some (True, (nat (unix_milli before), 0))"
proof -
  have "as_of_end_id before = CHR ''('' # show_sid (nat (unix_milli before), 0)"
    using assms by (simp add: as_of_end_id_def format_int_def show_sid_def) (simp add: show_nat_0)
  then show ?thesis using assms by (simp add: sid_ok_def nat_less_iff)
qed

lemma in_interval_before:
  assumes "stream_ok es" "0 < unix_milli before"
  shows "in_interval (False, (0, 0)) (True, (nat (unix_milli before), 0)) es = entries_before before es"
  unfolding in_interval_def entries_before_def
  using assms by (intro filter_cong) (auto simp: above_def below_def)

lemma standings_page_ok:
  assumes "0 < limit" "0 \<le> offset" "offset + limit < 2 ^ 63"
  shows "standings_page rows limit offset =
    Inr (slice (nat offset) (nat (offset + limit)) rows, int (length rows))"
proof -
  have wrap: "wrap64 (offset + limit) = offset + limit" using assms by (simp add: is_int64_def)
  have "slice (nat offset) (nat (offset + limit)) rows = []" if "int (length rows) \<le> offset"
    using that by (simp add: slice_def)
  moreover have "nat (min (offset + limit) (int (length rows))) = min (nat (offset + limit)) (length rows)"
    by (auto simp: min_def nat_le_iff)
  ultimately show ?thesis
    using assms by (auto simp: standings_page_def wrap Let_def slice_clip)
qed

theorem doc_standings_as_of:
  assumes led: "as_stream (ks ledger_key) = Some (ledger_of ks)" "ledger_sound X {b} (ledger_of ks)"
    and page: "0 < limit" "0 \<le> offset" "offset + limit < 2 ^ 63"
    and t: "0 < unix_milli before" "unix_milli before < 2 ^ 63"
  shows "\<exists>rows. is_ranking (board_scores X b (entries_before before (ledger_of ks))) rows \<and>
    list_standings_as_of X (doc_redis i) b before limit offset (quiet ks) =
      (Inr (slice (nat offset) (nat (offset + limit)) rows, int (length rows)), quiet ks)"
proof -
  let ?es = "entries_before before (ledger_of ks)"
  from led(2) have ok: "stream_ok (ledger_of ks)" by (rule ledger_sound_stream)
  then obtain k where "?es = take k (ledger_of ks)" using entries_before_take by blast
  with ledger_sound_take [OF led(2)] have wf: "ledger_sound X {b} ?es" by simp
  have read: "call (xrange_c (doc_redis i) ledger_key ''-'' (as_of_end_id before) None) (quiet ks) =
      (Inr (map to_msg ?es), quiet ks)"
    using led(1) as_of_bound [OF t] in_interval_before [OF ok t(1)]
    by (simp add: t not_le call_quiet doc_cmds limit_count_def)
  have "bounded_replay (map_of []) (board_events X b ?es)" using ledger_sound_bounded [OF wf] by simp
  then obtain scores where scores: "replay_scores X b (map to_msg ?es) [] = Inr scores" "distinct (map fst scores)"
    "map_of scores = board_scores X b ?es"
    using replay_scores_ledger [of ?es X "[]" b] wf by (auto simp: ledger_sound_def board_scores_def replay_def)
  with read sorted_standings_ranking [OF scores(2)] standings_page_ok [OF page, of "sorted_standings scores"]
  show ?thesis
    by (intro exI [of _ "sorted_standings scores"]) (simp add: list_standings_as_of_def io_bind_def)
qed

subsection \<open>The global event feed\<close>

lemma res_map_ledger:
  assumes "\<forall>e \<in> set es. \<exists>ev. entry_to_event X (to_msg e) = Inr ev"
  shows "res_map (entry_to_event X) (map to_msg es) = Inr (events_of X es)"
  using assms by (induction es) (auto simp: events_of_def)

theorem doc_list_events_after:
  assumes inv: "world_inv X B ks" and i: "sid_ok after" "after \<noteq> sid_max" and limit: "0 < limit"
  shows "list_events_after X (doc_redis j) (show_sid after) limit (quiet ks) =
    (Inr (events_of X (take (nat limit) (filter (\<lambda>e. after < fst e) (ledger_of ks)))), quiet ks)"
proof -
  let ?es = "take (nat limit) (filter (\<lambda>e. after < fst e) (ledger_of ks))"
  have led: "as_stream (ks ledger_key) = Some (ledger_of ks)" "ledger_sound X B (ledger_of ks)"
    using inv by (simp_all add: world_inv_def store_inv_def ledger_inv_def)
  then have ok: "stream_ok (ledger_of ks)" by (simp add: ledger_sound_def)
  have "in_interval (True, after) (False, sid_max) (ledger_of ks) = filter (\<lambda>e. after < fst e) (ledger_of ks)"
    unfolding in_interval_def using ok
    by (intro filter_cong) (auto simp: above_def below_def stream_ok_def intro: sid_le_max)
  then have read: "call (xrange_c (doc_redis j) ledger_key (''('' @ show_sid after) ''+'' (Some limit)) (quiet ks) =
      (Inr (map to_msg ?es), quiet ks)"
    using led(1) i by (simp add: call_quiet doc_cmds limit_count_def)
  have "\<forall>e \<in> set ?es. \<exists>ev. entry_to_event X (to_msg e) = Inr ev"
    using led(2) by (auto simp: ledger_sound_def dest!: in_set_takeD)
  with read limit show ?thesis
    by (simp add: list_events_after_def io_bind_def res_map_ledger)
qed

context redis_server
begin

lemma qsim_list_standings: "qsim view (list_standings R b limit offset) (list_standings (doc_redis i) b limit offset)"
  unfolding list_standings_def map_cmd_def
  by (auto intro!: qsim_bind qsim_call qsim_pipeline obs_bind law_zcard law_zrange
      simp del: io_ret_apply io_fail_apply split: list.split pipe_val.split)

lemma qsim_get_standing: "qsim view (get_standing R p b) (get_standing (doc_redis i) p b)"
  unfolding get_standing_def map_cmd_def
  by (intro qsim_bind qsim_pipeline)
    (auto intro!: obs_bind law_zcard law_zrevrank
      simp del: io_ret_apply io_fail_apply split: list.split pipe_val.split option.split)

lemma qsim_as_of:
  assumes "0 < unix_milli before" "unix_milli before < 2 ^ 63"
  shows "qsim view (list_standings_as_of X R b before limit offset) (list_standings_as_of X (doc_redis i) b before limit offset)"
  unfolding list_standings_as_of_def
  by (intro qsim_bind qsim_call qsim_lift law_xrange [OF xbound_ends(1) as_of_bound [OF assms]])
    (use assms in \<open>auto simp: sid_max_def\<close>)

lemma qsim_list_events_after:
  assumes "sid_ok after" "after \<noteq> sid_max"
  shows "qsim view (list_events_after X R (show_sid after) limit) (list_events_after X (doc_redis i) (show_sid after) limit)"
  unfolding list_events_after_def using assms
  by (auto intro!: qsim_bind qsim_call qsim_lift law_xrange [where lo = "(True, after)" and hi = "(False, sid_max)"]
      simp del: io_ret_apply)

text \<open>
  A cutoff before 1970 is no stream id, and at the epoch the range has no id before its end: the
  server refuses both.
\<close>

lemma as_of_refused:
  assumes "unix_milli before \<le> 0"
  shows "\<exists>s'. list_standings_as_of X R b before limit offset (quiet s) = (Inl (ServerReply BadStreamId), quiet s') \<and> view s' = view s"
proof -
  have "bad_bound (as_of_end_id before) \<or> xbound (as_of_end_id before) = Some (True, (0, 0))"
  proof (cases "unix_milli before = 0")
    case True
    then have "as_of_end_id before = CHR ''('' # show_sid (0, 0)"
      by (simp add: as_of_end_id_def format_int_def show_sid_def) (simp add: show_nat_0)
    then show ?thesis by (simp add: sid_ok_def)
  next
    case False
    then show ?thesis
      using assms by (simp add: bad_bound_def as_of_end_id_def format_int_def Let_def parse_uint64_def parse_nat_def)
  qed
  then have "obs view (xrange_c R ledger_key ''-'' (as_of_end_id before) None s) = (Inl BadStreamId, view s)"
    using law_xrange_bad by blast
  then show ?thesis by (simp add: list_standings_as_of_def io_bind_def call_quiet obs_eq_iff)
qed

end

text \<open>With a cutoff after every entry of the ledger, time travel is the live leaderboard.\<close>

lemma as_of_now_is_live:
  assumes "redis_server R view" and "world_inv X UNIV (view s)"
    and "0 < limit" and "0 \<le> offset" and "offset + limit < 2 ^ 63"
    and "0 < unix_milli before" and "unix_milli before < 2 ^ 63"
    and "\<forall>e \<in> set (ledger_of (view s)). int (fst (fst e)) < unix_milli before"
  shows "fst (list_standings_as_of X R b before limit offset (quiet s)) = fst (list_standings R b limit offset (quiet s))"
proof -
  have "entries_before before (ledger_of (view s)) = ledger_of (view s)"
    using assms(8) by (simp add: entries_before_def filter_eq_self)
  then obtain rows where rows: "is_ranking (board_scores X b (ledger_of (view s))) rows"
    "list_standings_as_of X (doc_redis (0, 1)) b before limit offset (quiet (view s)) =
      (Inr (slice (nat offset) (nat (offset + limit)) rows, int (length rows)), quiet (view s))"
    using doc_standings_as_of [OF world_ledger(1) [OF assms(2)] world_ledger(2) [OF assms(2) UNIV_I] assms(3-7), of b "(0, 1)"] by auto
  obtain rows' where rows': "is_ranking (board_scores X b (ledger_of (view s))) rows'"
    "list_standings (doc_redis (0, 1)) b limit offset (quiet (view s)) =
      (Inr (slice (nat offset) (nat (offset + limit)) rows', int (length rows')), quiet (view s))"
    using doc_list_standings [OF assms(2-5)] by blast
  have "rows' = rows" using rows(1) rows'(1) is_ranking_unique by blast
  with qsim_result [OF redis_server.qsim_as_of [OF assms(1,6,7)] rows(2)]
    qsim_result [OF redis_server.qsim_list_standings [OF assms(1)] rows'(2)]
  show ?thesis by auto
qed

end
