(* ===== verification/HistoryRead.thy ===== *)
theory HistoryRead
  imports LedgerConsumers Standings
begin

section \<open>Reading a player's history from its index (\<open>PlayerHistory\<close>)\<close>

text \<open>
  Once the history consumer has indexed the whole ledger, \<open>PlayerHistory\<close> returns the newest events
  of the player on the board. The index orders ids by \<open>streamIDScore\<close>; while every id is below
  \<open>2^41\<close> milliseconds (the year 2039) and 4096 entries a millisecond, that is the order of the
  ledger.
\<close>

definition sid_small :: "sid \<Rightarrow> bool" where
  "sid_small i \<longleftrightarrow> fst i < 2 ^ 41 \<and> snd i < 4096"

definition decoded :: "ext \<Rightarrow> sid \<times> fields \<Rightarrow> event" where
  "decoded X e = (case entry_to_event X (to_msg e) of Inr ev \<Rightarrow> ev | Inl _ \<Rightarrow> undefined)"

definition entries_for :: "ext \<Rightarrow> string \<Rightarrow> string \<Rightarrow> (sid \<times> fields) list \<Rightarrow> (sid \<times> fields) list" where
  "entries_for X p b es = filter (\<lambda>e. ev_player (decoded X e) = p \<and> ev_board (decoded X e) = b) es"

text \<open>The view after the whole ledger has been folded.\<close>

definition indexed :: "ext \<Rightarrow> keyspace \<Rightarrow> bool" where
  "indexed X ks \<longleftrightarrow>
     history_content ks = fold history_fold (log_events (tail_log X ks)) (\<lambda>_. Map.empty)"

lemma decoded_Inr: "entry_to_event X (to_msg e) = Inr ev \<Longrightarrow> decoded X e = ev \<and> ev_id ev = show_sid (fst e)"
  using entry_to_event_Inr [of X "to_msg e" ev] by (simp add: decoded_def to_msg_def)

lemma events_of_decoded:
  "\<forall>e \<in> set es. \<exists>ev. entry_to_event X (to_msg e) = Inr ev \<Longrightarrow> events_of X es = map (decoded X) es"
  by (induction es) (auto simp: events_of_def decoded_def)

lemma log_events_ledger: "log_events (tail_log X ks) = events_of X (ledger_of ks)"
  by (simp add: log_events_def tail_log_def events_of_def decode_entry_def comp_def)

lemma index_text: "sid_small i \<Longrightarrow> stream_id_score (show_sid i) = Inr (Fin (of_int (index_score i)))"
  by (rule stream_id_score_exact) (simp_all add: sid_small_def)

definition index_entry :: "(string \<rightharpoonup> f64) \<Rightarrow> sid \<times> fields \<Rightarrow> (string \<rightharpoonup> f64)" where
  "index_entry m e = m(show_sid (fst e) \<mapsto> Fin (of_int (index_score (fst e))))"

lemma indexed_after:
  assumes "history_content ks' = fold history_fold (log_events (drop n (tail_log X ks))) (history_content ks)"
    and "n = 0" "history_content ks = (\<lambda>_. Map.empty)" "ledger_of ks' = ledger_of ks"
  shows "indexed X ks'"
  using assms by (simp add: indexed_def tail_log_def)

lemma entries_for_events:
  "\<forall>e \<in> set es. \<exists>ev. entry_to_event X (to_msg e) = Inr ev \<Longrightarrow>
    map (decoded X) (entries_for X p b es) = filter (\<lambda>e. ev_player e = p \<and> ev_board e = b) (events_of X es)"
  by (simp add: events_of_decoded entries_for_def filter_map comp_def)

text \<open>The fold at one key: the ids of its events with their index scores.\<close>

lemma fold_history_at:
  assumes "\<forall>e \<in> set es. \<exists>ev. entry_to_event X (to_msg e) = Inr ev" "\<forall>e \<in> set es. sid_small (fst e)"
    and "CHR '':'' \<notin> set p" "\<forall>e \<in> set es. CHR '':'' \<notin> set (ev_player (decoded X e))"
  shows "fold history_fold (events_of X es) v (player_history_key p b) =
    foldl index_entry (v (player_history_key p b)) (entries_for X p b es)"
  using assms
proof (induction es arbitrary: v)
  case (Cons e es)
  then obtain ev where ev: "entry_to_event X (to_msg e) = Inr ev" by auto
  let ?k = "player_history_key p b"
  note dec = decoded_Inr [OF ev]
  have keys: "player_history_key (ev_player ev) (ev_board ev) = ?k \<longleftrightarrow> ev_player ev = p \<and> ev_board ev = b"
    using Cons.prems(3,4) dec by (intro history_inject) auto
  have "stream_id_score (ev_id ev) = Inr (Fin (of_int (index_score (fst e))))"
    using Cons.prems(2) dec by (simp add: index_text)
  then have step: "history_fold ev v ?k =
      (if ev_player ev = p \<and> ev_board ev = b then index_entry (v ?k) e else v ?k)"
    using dec keys by (auto simp: history_fold_def Let_def index_entry_def)
  have "events_of X (e # es) = ev # events_of X es" using ev by (simp add: events_of_def)
  moreover have "fold history_fold (events_of X es) (history_fold ev v) ?k =
      foldl index_entry (history_fold ev v ?k) (entries_for X p b es)"
    using Cons.IH [of "history_fold ev v"] Cons.prems by simp
  ultimately show ?case using dec by (simp add: step entries_for_def)
qed (simp add: entries_for_def events_of_def)

lemma foldl_index_entry:
  "distinct (map fst es) \<Longrightarrow> foldl index_entry m es =
    m ++ map_of (map (\<lambda>e. (show_sid (fst e), Fin (of_int (index_score (fst e))))) es)"
proof (induction es arbitrary: m)
  case (Cons e es)
  then have "fst e \<notin> fst ` set es" by simp
  then have "show_sid (fst e) \<notin> dom (map_of (map (\<lambda>e. (show_sid (fst e), Fin (of_int (index_score (fst e))))) es))"
    unfolding dom_map_of_conv_image_fst by (force simp: image_iff)
  note new = map_add_upd_left [OF this]
  have "foldl index_entry m (e # es) = foldl index_entry (index_entry m e) es" by simp
  also have "\<dots> = index_entry m e ++
      map_of (map (\<lambda>e. (show_sid (fst e), Fin (of_int (index_score (fst e))))) es)"
    using Cons.prems by (intro Cons.IH) simp
  also have "\<dots> = m ++ map_of (map (\<lambda>e. (show_sid (fst e), Fin (of_int (index_score (fst e))))) (e # es))"
    unfolding index_entry_def new list.map map_of.simps fst_conv snd_conv map_add_upd ..
  finally show ?case .
qed simp

lemma index_zset:
  assumes es: "stream_ok es" "\<forall>e \<in> set es. sid_small (fst e)"
    and z: "z_ok z" "z_map z = map_of (map (\<lambda>e. (show_sid (fst e), Fin (of_int (index_score (fst e))))) es)"
  shows "z = map (\<lambda>e. (Fin (of_int (index_score (fst e))), show_sid (fst e))) es"
proof -
  let ?z = "map (\<lambda>e. (Fin (of_int (index_score (fst e))), show_sid (fst e))) es"
  have dist: "distinct (map snd ?z)"
    using stream_ok_distinct [OF es(1)] by (auto simp: comp_def distinct_map inj_on_def)
  have "sorted_wrt (\<lambda>x y. fst x < fst y) es" using es(1) by (simp add: stream_ok_def sorted_wrt_map)
  then have "sorted_wrt (\<lambda>x y. index_score (fst x) < index_score (fst y)) es"
    using es(2) by (elim sorted_wrt_mono_rel [rotated]) (auto intro: index_score_mono simp: sid_small_def)
  then have "sorted_wrt (\<lambda>x y. (Fin (of_int (index_score (fst x))), show_sid (fst x)) \<le>
      (Fin (of_int (index_score (fst y))), show_sid (fst y))) es"
    by (elim sorted_wrt_mono_rel [rotated]) (auto simp: less_eq_prod_def less_f64_def)
  then have "sorted ?z" by (simp add: sorted_map)
  with dist have "z_ok ?z" by (simp add: z_ok_def)
  moreover have "z_map ?z = map_of (map (\<lambda>e. (show_sid (fst e), Fin (of_int (index_score (fst e))))) es)"
    by (simp add: z_map_def comp_def)
  then have "z_map z = z_map ?z" by (simp add: z(2))
  ultimately show ?thesis using z(1) z_map_inject by blast
qed

lemma entry_by_id:
  assumes "stream_ok es" "e \<in> set es"
  shows "in_interval (False, fst e) (False, fst e) es = [e]"
proof -
  have "distinct es" using stream_ok_distinct [OF assms(1)] by (simp add: distinct_map)
  have "in_interval (False, fst e) (False, fst e) es = filter (\<lambda>x. x = e) es"
    unfolding in_interval_def
  proof (rule filter_cong [OF refl])
    fix x assume "x \<in> set es"
    then show "(above (False, fst e) (fst x) \<and> below (False, fst e) (fst x)) = (x = e)"
      using stream_ok_distinct [OF assms(1)] assms(2)
      by (auto simp: above_def below_def distinct_map inj_on_def dest: antisym)
  qed
  also have "\<dots> = [e]"
    using \<open>distinct es\<close> assms(2) by (induction es) (auto simp: filter_empty_conv)
  finally show ?thesis .
qed

lemma history_events_single:
  "(\<And>e. e \<in> set es \<Longrightarrow> entry_to_event X (to_msg e) = Inr (decoded X e)) \<Longrightarrow>
    history_events X (map (\<lambda>e. [to_msg e]) es) = Inr (map (decoded X) es)"
  by (induction es) auto

theorem doc_player_history:
  assumes inv: "world_inv X B ks" and idx: "indexed X ks" and limit: "0 < limit"
    and small: "\<forall>e \<in> set (ledger_of ks). sid_small (fst e)"
    and colon: "CHR '':'' \<notin> set p" "\<forall>e \<in> set (ledger_of ks). CHR '':'' \<notin> set (ev_player (decoded X e))"
  shows "\<exists>rows. call (zrange_c (doc_redis i) (player_history_key p b) 0 (limit - 1) True) (quiet ks) = (Inr rows, quiet ks) \<and>
    (\<forall>j \<in> set (map snd rows). \<exists>i. sid_ok i \<and> j = show_sid i) \<and>
    player_history X (doc_redis i) p b limit (quiet ks) =
      (Inr (take (nat limit) (rev (map (decoded X) (entries_for X p b (ledger_of ks))))), quiet ks)"
proof -
  let ?es = "ledger_of ks" and ?k = "player_history_key p b"
  let ?mine = "entries_for X p b ?es"
  let ?pg = "take (nat limit) (rev ?mine)"
  have led: "as_stream (ks ledger_key) = Some ?es" "ledger_sound X B ?es"
    using inv by (simp_all add: world_inv_def store_inv_def ledger_inv_def)
  then have ok: "stream_ok ?es" and dec: "\<forall>e \<in> set ?es. \<exists>ev. entry_to_event X (to_msg e) = Inr ev"
    by (auto simp: ledger_sound_def)
  have mine: "set ?mine \<subseteq> set ?es" "stream_ok ?mine"
    using ok by (auto simp: entries_for_def stream_ok_def sorted_wrt_map sorted_wrt_filter)
  have aux: "aux_inv ks" using inv by (simp add: world_inv_def)
  note z = aux_zset [OF aux, of ?k, simplified]
  have "z_map (zset_at ks ?k) = history_content ks ?k" by (auto simp: history_content_def)
  also have "\<dots> = foldl index_entry Map.empty ?mine"
    using idx fold_history_at [OF dec small colon, of "\<lambda>_. Map.empty" b]
    by (simp add: indexed_def log_events_ledger)
  also have "\<dots> = map_of (map (\<lambda>e. (show_sid (fst e), Fin (of_int (index_score (fst e))))) ?mine)"
    using foldl_index_entry [OF stream_ok_distinct [OF mine(2)], of Map.empty] by simp
  finally have zs: "zset_at ks ?k = map (\<lambda>e. (Fin (of_int (index_score (fst e))), show_sid (fst e))) ?mine"
    using index_zset [OF mine(2) _ z(2)] small mine(1) by blast
  have page: "call (zrange_c (doc_redis i) ?k 0 (limit - 1) True) (quiet ks) =
      (Inr (map (\<lambda>e. (Fin (of_int (index_score (fst e))), show_sid (fst e))) ?pg), quiet ks)"
    using z(1) z_slice_page [OF limit order_refl, of "rev (zset_at ks ?k)"]
    by (simp add: call_quiet doc_cmds zs slice_def rev_map take_map)
  have pg: "set ?pg \<subseteq> set ?es" using mine(1) set_take_subset [of "nat limit" "rev ?mine"] by auto
  have "pipeline (map (\<lambda>j. xrange_c (doc_redis i) ledger_key j j None) (map (\<lambda>e. show_sid (fst e)) ?pg)) (quiet ks) =
      (Inr (map (\<lambda>e. [to_msg e]) ?pg), quiet ks)"
  proof (rule pipeline_reads)
    have "xrange_c (doc_redis i) ledger_key (show_sid (fst e)) (show_sid (fst e)) None ks = (Inr [to_msg e], ks)"
      if "e \<in> set ?pg" for e
      using that pg led(1) ok entry_by_id [OF ok, of e]
      by (auto simp: doc_cmds limit_count_def stream_ok_def)
    then show "list_all2 (\<lambda>c v. c ks = (Inr v, ks))
        (map (\<lambda>j. xrange_c (doc_redis i) ledger_key j j None) (map (\<lambda>e. show_sid (fst e)) ?pg))
        (map (\<lambda>e. [to_msg e]) ?pg)"
      by (simp add: list_all2_map1 list_all2_map2 list_all2_same)
  qed
  moreover have "entry_to_event X (to_msg e) = Inr (decoded X e)" if "e \<in> set ?pg" for e
    using that pg dec decoded_Inr by blast
  then have "history_events X (map (\<lambda>e. [to_msg e]) ?pg) = Inr (map (decoded X) ?pg)"
    by (rule history_events_single)
  moreover have "map (decoded X) ?pg = take (nat limit) (rev (map (decoded X) ?mine))"
    by (simp add: take_map rev_map)
  ultimately have "player_history X (doc_redis i) p b limit (quiet ks) =
      (Inr (take (nat limit) (rev (map (decoded X) ?mine))), quiet ks)"
    using page limit
    by (cases "?pg = []")
      (simp_all add: player_history_def io_bind_def Let_def comp_def del: take_eq_Nil take_eq_Nil2)
  moreover have "\<forall>j \<in> set (map snd (map (\<lambda>e. (Fin (of_int (index_score (fst e))) :: f64, show_sid (fst e))) ?pg)).
      \<exists>i. sid_ok i \<and> j = show_sid i"
    using pg ok by (force simp: stream_ok_def)
  ultimately show ?thesis using page by (simp only: rev_map) blast
qed

context redis_server
begin

lemma qsim_player_history_pipe:
  assumes "\<forall>j \<in> set ids. \<exists>i. sid_ok i \<and> j = show_sid i"
  shows "qsim view (pipeline (map (\<lambda>j. xrange_c R ledger_key j j None) ids))
    (pipeline (map (\<lambda>j. xrange_c (doc_redis i) ledger_key j j None) ids))"
proof (rule qsim_pipeline, simp add: list_all2_conv_all_nth, intro allI impI)
  fix n s assume "n < length ids"
  then obtain j where j: "sid_ok j" "ids ! n = show_sid j" using assms by force
  show "obs view (xrange_c R ledger_key (ids ! n) (ids ! n) None s) =
      xrange_c (doc_redis i) ledger_key (ids ! n) (ids ! n) None (view s)"
    by (rule law_xrange [where lo = "(False, j)" and hi = "(False, j)"]) (simp_all add: j)
qed

lemma player_history_pointed:
  assumes inv: "world_inv X B (view s)" and idx: "indexed X (view s)" and limit: "0 < limit"
    and small: "\<forall>e \<in> set (ledger_of (view s)). sid_small (fst e)"
    and colon: "CHR '':'' \<notin> set p" "\<forall>e \<in> set (ledger_of (view s)). CHR '':'' \<notin> set (ev_player (decoded X e))"
  shows "\<exists>s'. player_history X R p b limit (quiet s) =
      (Inr (take (nat limit) (rev (map (decoded X) (entries_for X p b (ledger_of (view s)))))), quiet s') \<and>
    view s' = view s"
proof -
  let ?i = "(0, 1) :: sid"
  from doc_player_history [OF assms, of ?i b] obtain rows where rows:
    "call (zrange_c (doc_redis ?i) (player_history_key p b) 0 (limit - 1) True) (quiet (view s)) = (Inr rows, quiet (view s))"
    "\<forall>j \<in> set (map snd rows). \<exists>i. sid_ok i \<and> j = show_sid i"
    "player_history X (doc_redis ?i) p b limit (quiet (view s)) =
      (Inr (take (nat limit) (rev (map (decoded X) (entries_for X p b (ledger_of (view s)))))), quiet (view s))" by blast
  have first: "qsim view (call (zrange_c R (player_history_key p b) 0 (limit - 1) True))
      (call (zrange_c (doc_redis ?i) (player_history_key p b) 0 (limit - 1) True))"
    by (intro qsim_call law_zrange)
  note pipe = qsim_player_history_pipe [OF rows(2), of ?i]
  have not: "\<not> limit \<le> 0" using limit by simp
  from rows(3) show ?thesis
    unfolding player_history_def if_not_P [OF not]
    by (rule qsim_result_bind [OF first rows(1), rotated])
      (use pipe in \<open>simp add: Let_def qsim_bind\<close>)
qed

end

end
