(* ===== verification/DailyRead.thy ===== *)
theory DailyRead
  imports LedgerConsumers Standings
begin

section \<open>What the daily counters hold, and how they are listed\<close>

text \<open>
  Folding the ledger from empty counters leaves, for each day, the number of events of each player
  on it; \<open>ListDailyActivity\<close> returns the first rows of that day's players ordered by descending
  count, ties by descending id.
\<close>

definition day_count :: "event list \<Rightarrow> string \<Rightarrow> string \<Rightarrow> nat" where
  "day_count evs d p = length (filter (\<lambda>e. format_date (ev_created e) = d \<and> ev_player e = p) evs)"

definition is_activity :: "(string \<Rightarrow> nat) \<Rightarrow> (string \<times> int) list \<Rightarrow> bool" where
  "is_activity counts rows \<longleftrightarrow>
     sorted_wrt (\<lambda>x y. (snd y, fst y) < (snd x, fst x)) rows \<and>
     (\<forall>p c. (p, c) \<in> set rows \<longleftrightarrow> 0 < counts p \<and> c = int (counts p))"

text \<open>The view after the whole ledger has been counted once.\<close>

definition counted :: "ext \<Rightarrow> keyspace \<Rightarrow> bool" where
  "counted X ks \<longleftrightarrow> daily_content ks = fold daily_fold (log_events (tail_log X ks)) (\<lambda>_. Map.empty)"

lemma counted_after:
  assumes "daily_content ks' = fold daily_fold (log_events (drop n (tail_log X ks))) (daily_content ks)"
    and "n = 0" "daily_content ks = (\<lambda>_. Map.empty)" "ledger_of ks' = ledger_of ks"
  shows "counted X ks'"
  using assms by (simp add: counted_def tail_log_def)

lemma day_count_append [simp]: "day_count (xs @ ys) d p = day_count xs d p + day_count ys d p"
  by (simp add: day_count_def)

lemma day_count_Nil [simp]: "day_count [] d p = 0"
  by (simp add: day_count_def)

lemma day_count_single [simp]:
  "day_count [e] d p = (if format_date (ev_created e) = d \<and> ev_player e = p then 1 else 0)"
  by (simp add: day_count_def)

lemma day_count_le: "day_count evs d p \<le> length evs"
  by (simp add: day_count_def)

lemma fold_daily_at:
  assumes "length evs \<le> 2 ^ 53"
  shows "fold daily_fold evs (\<lambda>_. Map.empty) (activity_daily_key d) p =
    (if day_count evs d p = 0 then None else Some (Fin (of_nat (day_count evs d p))))"
  using assms
proof (induction evs rule: rev_induct)
  case (snoc e evs)
  let ?v = "fold daily_fold evs (\<lambda>_. Map.empty)"
  have IH: "?v (activity_daily_key d) p =
      (if day_count evs d p = 0 then None else Some (Fin (of_nat (day_count evs d p))))"
    using snoc by simp
  have "int (day_count evs d p) + 1 \<le> 2 ^ 53"
    using snoc.prems day_count_le [of evs d p] by simp
  then have add: "f64_add (Fin (of_nat (day_count evs d p))) (Fin 1) = Fin (of_nat (day_count evs d p) + 1)"
    using f64_add_int [of "int (day_count evs d p)" 1] by simp
  show ?case
  proof (cases "format_date (ev_created e) = d \<and> ev_player e = p")
    case True
    then have "daily_fold e ?v (activity_daily_key d) p =
        Some (case ?v (activity_daily_key d) p of None \<Rightarrow> Fin 1 | Some c \<Rightarrow> f64_add c (Fin 1))"
      by (auto simp: daily_fold_def Let_def)
    with True IH add show ?thesis by (auto simp: add.commute)
  next
    case False
    then have "daily_fold e ?v (activity_daily_key d) p = ?v (activity_daily_key d) p"
      by (auto simp: daily_fold_def Let_def)
    with False IH show ?thesis by auto
  qed
qed simp

lemma f64_to_int_count [simp]: "trunc_rat (of_nat n) = int n"
  using trunc_rat_int [of "int n"] by simp

lemma activity_rows:
  assumes z: "z_ok z" "\<And>p. z_map z p = (if counts p = 0 then None else Some (Fin (of_nat (counts p))))"
  shows "is_activity counts (map (\<lambda>x. (snd x, f64_to_int (fst x))) (rev z))"
proof -
  let ?f = "\<lambda>x. (snd x, f64_to_int (fst x))"
  have val: "x \<in> set z \<longleftrightarrow> 0 < counts (snd x) \<and> fst x = Fin (of_nat (counts (snd x)))" for x
  proof -
    have "x \<in> set z \<longleftrightarrow> z_map z (snd x) = Some (fst x)"
      using z(1) z_map_mem [of z "fst x" "snd x"] by (auto simp: z_ok_def z_map_def dest: map_of_SomeD)
    with z(2) show ?thesis by auto
  qed
  have "sorted_wrt (<) z" using z(1) by (auto simp: z_ok_def strict_sorted_iff distinct_map)
  then have "sorted_wrt (\<lambda>x y. (snd (?f x), fst (?f x)) < (snd (?f y), fst (?f y))) z"
    by (elim sorted_wrt_mono_rel [rotated]) (auto simp: val less_prod_def less_f64_def)
  then have "sorted_wrt (\<lambda>x y. (snd y, fst y) < (snd x, fst x)) (map ?f (rev z))"
    by (simp add: sorted_wrt_map sorted_wrt_rev)
  moreover have "(p, c) \<in> set (map ?f (rev z)) \<longleftrightarrow> 0 < counts p \<and> c = int (counts p)" for p c
  proof
    assume "0 < counts p \<and> c = int (counts p)"
    then have "(Fin (of_nat (counts p)), p) \<in> set z" "?f (Fin (of_nat (counts p)), p) = (p, c)"
      by (simp_all add: val)
    from imageI [OF this(1), of ?f] this(2) show "(p, c) \<in> set (map ?f (rev z))" by simp
  next
    assume "(p, c) \<in> set (map ?f (rev z))"
    then obtain x where "x \<in> set z" "?f x = (p, c)" by fastforce
    then show "0 < counts p \<and> c = int (counts p)" by (auto simp: val)
  qed
  ultimately show ?thesis by (simp add: is_activity_def)
qed

theorem doc_list_daily_activity:
  assumes inv: "world_inv X B ks" and cnt: "counted X ks" "length (ledger_of ks) \<le> 2 ^ 53" and limit: "0 < limit"
  obtains rows where "is_activity (day_count (events_of X (ledger_of ks)) d) rows"
    "list_daily_activity (doc_redis i) d limit (quiet ks) = (Inr (take (nat limit) rows), quiet ks)"
proof -
  let ?k = "activity_daily_key d" and ?evs = "events_of X (ledger_of ks)"
  have aux: "aux_inv ks" using inv by (simp add: world_inv_def)
  note z = aux_zset [OF aux, of ?k, simplified]
  have ev: "log_events (tail_log X ks) = ?evs"
    by (simp add: log_events_def tail_log_def events_of_def decode_entry_def comp_def)
  have "length ?evs \<le> 2 ^ 53"
    using cnt(2) length_batch [of "tail_log X ks"] unfolding ev by (simp add: tail_log_def)
  from fold_daily_at [OF this] have "daily_content ks ?k p =
      (if day_count ?evs d p = 0 then None else Some (Fin (of_nat (day_count ?evs d p))))" for p
    using cnt(1) by (simp add: counted_def ev)
  then have "z_map (zset_at ks ?k) p =
      (if day_count ?evs d p = 0 then None else Some (Fin (of_nat (day_count ?evs d p))))" for p
    unfolding daily_content_def by auto
  from activity_rows [OF z(2) this] have "is_activity (day_count ?evs d) (map (\<lambda>x. (snd x, f64_to_int (fst x))) (rev (zset_at ks ?k)))" .
  moreover have "call (zrange_c (doc_redis i) ?k 0 (limit - 1) True) (quiet ks) =
      (Inr (take (nat limit) (rev (zset_at ks ?k))), quiet ks)"
    using z(1) z_slice_page [OF limit order_refl, of "rev (zset_at ks ?k)"]
    by (simp add: call_quiet doc_cmds slice_def)
  ultimately show ?thesis
    by (intro that) (auto simp: list_daily_activity_def io_bind_def take_map)
qed

context redis_server
begin

lemma qsim_list_daily: "qsim view (list_daily_activity R d limit) (list_daily_activity (doc_redis i) d limit)"
  unfolding list_daily_activity_def by (intro qsim_bind qsim_call law_zrange qsim_ret)

end

end
