(* ===== verification/WriteRuns.thy ===== *)
theory WriteRuns
  imports Clients
begin

section \<open>Score writes in use: scores, retries and other clients\<close>

text \<open>
  What an applied write does to the boards' scores, what a retry after a lost reply leaves behind,
  and that a write keeps the store's invariant whatever the network and the other clients do.
\<close>

subsection \<open>The scores after a write\<close>

lemma wrote_scores:
  assumes "wrote X op p b n rq idem ks ks'" "writable X op p b n rq"
  shows "board_scores X c (ledger_of ks') =
    (if c = b then (board_scores X b (ledger_of ks))(p \<mapsto> new_score (board_scores X b (ledger_of ks)) op p n)
     else board_scores X c (ledger_of ks))"
proof -
  obtain i where es: "ledger_of ks' = ledger_of ks @ [(i, ledger_fields op p b (format_int n) rq)]"
    using wrote_ledger [OF assms(1)] by blast
  have "entry_to_event X (to_msg (i, ledger_fields op p b (format_int n) rq)) = Inr (event_of i op p b n rq)"
    using assms(2) by (rule entry_to_event_ledger)
  from board_scores_snoc [OF this, of c "ledger_of ks"] show ?thesis
    by (simp add: es replay1_event_of)
qed

text \<open>The record of an applied write answers the same request again, and refuses another.\<close>

lemma decide_answers:
  assumes "idem_record ks b p idem = Some (record_value e op (format_int n))" "CHR ''|'' \<notin> set e" "CHR ''|'' \<notin> set op"
  shows "reply_of (decide m ks op' p b n' idem) =
    (if op' = op \<and> n' = n then Inr () else Inl ErrIdempotencyConflict)"
    and "decide m ks op' p b n' idem \<noteq> None"
  using check_record_value [OF assms(2,3)] assms(1)
  by (simp_all add: decide_def reply_of_def decode_apply_def lua_result_def apply_code_defs)

context redis_server
begin

subsection \<open>A lost reply and a retry\<close>

lemma call_lost:
  assumes "call c \<lparr>srv = s, net = [Xch [] (Some k)]\<rparr> = (r, w)"
  shows "r = Inl NoReply \<and> w = quiet (if k = 0 then s else snd (c s))"
  using assms by (cases k) (auto simp: call_def exchange_def quiet_def split: prod.splits)

lemma apply_event_lost:
  assumes "apply_event R op p b n rq idem \<lparr>srv = s, net = [Xch [] (Some k)]\<rparr> = (r, w)"
  shows "r = Inl NoReply \<and> w = quiet (if k = 0 then s else
    snd (apply_score_event R (score_keys_for p b) (score_args_for op p b n rq idem) s))"
proof -
  obtain r1 w1 where c: "call (apply_score_event R (score_keys_for p b) (score_args_for op p b n rq idem))
      \<lparr>srv = s, net = [Xch [] (Some k)]\<rparr> = (r1, w1)" by fastforce
  from call_lost [OF this] assms c show ?thesis by (auto simp: apply_event_def io_bind_def)
qed

text \<open>The lost call ran or did not; the retry then finds its record or decides afresh.\<close>

lemma retry_outcome:
  assumes inv: "world_inv X (- U) (view s)" and b: "b \<notin> U"
    and w: "writable X op p b n rq" "writable X op p b n rq'"
    and room: "last_sid (ledger_of (view s)) < sid_max" and idem: "idem \<noteq> []"
    and first: "apply_event R op p b n rq idem \<lparr>srv = s, net = [Xch [] (Some k)]\<rparr> = (r1, w1)"
    and others: "(client_step X R view U)\<^sup>*\<^sup>* (srv w1) s2"
    and kept: "\<And>v. idem_record (view (srv w1)) b p idem = Some v \<Longrightarrow> idem_record (view s2) b p idem = Some v"
    and room2: "last_sid (ledger_of (view s2)) < sid_max"
    and second: "apply_event R op p b n rq' idem (quiet s2) = (r2, w2)"
  shows "r1 = Inl NoReply \<and>
    (wrote X op p b n rq idem (view s) (view (srv w1)) \<and> r2 = Inr () \<and> view (srv w2) = view s2 \<or>
     view (srv w1) = view s \<and>
       r2 = reply_of (decide (board_scores X b (ledger_of (view s2))) (view s2) op p b n idem) \<and>
       (if decide (board_scores X b (ledger_of (view s2))) (view s2) op p b n idem = None
        then wrote X op p b n rq' idem (view s2) (view (srv w2)) else view (srv w2) = view s2))"
proof -
  let ?run = "apply_score_event R (score_keys_for p b) (score_args_for op p b n rq idem) s"
  have cov: "b \<in> - U \<or> board_state_of ks b = Some board_closed" for ks using b by simp
  have st: "store_inv X (- U) (view s)" "score_validate n" using inv w by (simp_all add: world_inv_def writable_def)
  have r1: "r1 = Inl NoReply" "srv w1 = (if k = 0 then s else snd ?run)"
    using apply_event_lost [OF first] by simp_all
  have ran: "view (srv w1) = view s \<or> wrote X op p b n rq idem (view s) (view (srv w1))"
    using script_run [OF st room cov, where op = op and p = p and rq = rq and idem = idem] r1(2) by (auto split: if_splits)
  have inv1: "world_inv X (- U) (view (srv w1))"
    using ran wrote_world_inv [OF _ inv w(1)] b inv by auto
  have inv2: "store_inv X (- U) (view s2)"
    using client_steps_world [OF others inv1] by (simp add: world_inv_def)
  note retry = apply_event_quiet [OF inv2 st(2) room2 cov, where op = op and p = p and rq = rq' and idem = idem, unfolded second]
  show ?thesis
  proof (cases "wrote X op p b n rq idem (view s) (view (srv w1))")
    case True
    then obtain e where e: "idem_record (view (srv w1)) b p idem = Some (record_value e op (format_int n))" "CHR ''|'' \<notin> set e"
      using wrote_idem [OF _ idem] by blast
    have "decide m (view s2) op p b n idem \<noteq> None" "reply_of (decide m (view s2) op p b n idem) = Inr ()" for m
      using decide_answers [OF kept [OF e(1)] e(2) writable_op [OF w(1)], where m = m and n' = n and op' = op] by simp_all
    with retry True r1(1) show ?thesis by auto
  next
    case False
    with ran retry r1(1) show ?thesis by auto
  qed
qed

end

subsection \<open>With other clients at work\<close>

definition room :: "keyspace \<Rightarrow> bool" where
  "room ks \<longleftrightarrow> last_sid (ledger_of ks) < sid_max"

text \<open>While ids last, the other clients take client steps, and leave an id to assign.\<close>

definition clients :: "ext \<Rightarrow> 's redis \<Rightarrow> ('s \<Rightarrow> keyspace) \<Rightarrow> string set \<Rightarrow> 's \<Rightarrow> 's \<Rightarrow> bool" where
  "clients X R view U s s' \<longleftrightarrow>
     (room (view s) \<longrightarrow> (client_step X R view U)\<^sup>*\<^sup>* s s' \<and> room (view s'))"

context redis_server
begin

lemma stable_world: "stable (clients X R view U) (\<lambda>s. world_inv X (- U) (view s) \<and> room (view s))"
  unfolding stable_def clients_def using client_steps_world [of X U _ _ "- U"] by blast

lemma triple_apply_event:
  assumes w: "writable X op p b n rq"
  shows "triple (clients X R view U) (\<lambda>s. world_inv X (- U) (view s) \<and> room (view s))
    (apply_event R op p b n rq idem) (\<lambda>_ s. world_inv X (- U) (view s)) (\<lambda>s. world_inv X (- U) (view s))"
  unfolding apply_event_def
proof (rule triple_bind)
  show "triple (clients X R view U) (\<lambda>s. world_inv X (- U) (view s) \<and> room (view s))
      (call (apply_score_event R (score_keys_for p b) (score_args_for op p b n rq idem)))
      (\<lambda>_ s. world_inv X (- U) (view s)) (\<lambda>s. world_inv X (- U) (view s))"
  proof (rule triple_call [OF stable_world])
    fix s r s' assume s: "world_inv X (- U) (view s) \<and> room (view s)"
      and run: "apply_score_event R (score_keys_for p b) (score_args_for op p b n rq idem) s = (r, s')"
    have "client_step X R view U s (snd (apply_score_event R (score_keys_for p b) (score_args_for op p b n rq idem) s))"
      using s w by (intro step_score) (simp_all add: room_def)
    with run s client_step_world [of X U s s' "- U"]
    show "world_inv X (- U) (view s') \<and> (\<forall>x. r = Inr x \<longrightarrow> world_inv X (- U) (view s'))" by simp
  qed simp
qed (auto intro!: triple_lift)

end

end
