(* ===== verification/ConsumerNetwork.thy ===== *)
theory ConsumerNetwork
  imports HistoryRead DailyRead WriteRuns "HOL-Library.Multiset"
begin

section \<open>The consumers on a network that loses messages, beside other clients\<close>

text \<open>
  A pass of a consumer loads the cursor, reads a batch, applies it and saves the cursor; between any
  two commands other clients may write, and any exchange may be cut part way. The view is then the
  fold of a list of events that holds every event up to the saved cursor, at least once, and none
  that is not in the ledger: a batch may be applied again, but no event is lost.
\<close>

subsection \<open>What the others do, and what is kept\<close>

definition ids_indexable :: "keyspace \<Rightarrow> bool" where
  "ids_indexable ks \<longleftrightarrow> (\<forall>e \<in> set (ledger_of ks). sid_indexable (fst e))"

text \<open>
  While ids stay indexable, the others take client steps, rebuilds of any board included, that leave
  this consumer's cursor and \<open>content\<close> alone: no second instance of the consumer runs, and what
  \<open>content\<close> reads does not expire. The other consumer's passes are among these steps, and for the daily
  counters, where \<open>content\<close> is one day, so is the expiry of every other day.
\<close>

definition beside :: "ext \<Rightarrow> 's redis \<Rightarrow> ('s \<Rightarrow> keyspace) \<Rightarrow> string \<Rightarrow> (keyspace \<Rightarrow> 'v) \<Rightarrow> 's \<Rightarrow> 's \<Rightarrow> bool" where
  "beside X R view me content s s' \<longleftrightarrow>
     (ids_indexable (view s) \<longrightarrow> (client_step X R view UNIV)\<^sup>*\<^sup>* s s' \<and> ids_indexable (view s') \<and>
       view s' (consumer_cursor_key me) = view s (consumer_cursor_key me) \<and> content (view s') = content (view s))"

definition tail_inv :: "ext \<Rightarrow> string \<Rightarrow> keyspace \<Rightarrow> bool" where
  "tail_inv X me ks \<longleftrightarrow> tail_ok X me ks \<and> cursor_sid ks me \<le> last_sid (ledger_of ks)"

definition behind :: "ext \<Rightarrow> string \<Rightarrow> keyspace \<Rightarrow> event list" where
  "behind X me ks = log_events (take (tail_pos me ks) (tail_log X ks))"

definition delivered :: "ext \<Rightarrow> string \<Rightarrow> (keyspace \<Rightarrow> 'v) \<Rightarrow> (event \<Rightarrow> 'v \<Rightarrow> 'v) \<Rightarrow> 'v \<Rightarrow> keyspace \<Rightarrow> bool" where
  "delivered X me content fold_event v0 ks \<longleftrightarrow>
     (\<exists>evs. mset (behind X me ks) \<subseteq># mset evs \<and> set evs \<subseteq> set (log_events (tail_log X ks)) \<and>
       content ks = fold fold_event evs v0)"

lemma delivered_start:
  "tail_pos me ks = 0 \<Longrightarrow> content ks = v0 \<Longrightarrow> delivered X me content f v0 ks"
  unfolding delivered_def by (intro exI [of _ "[]"]) (simp add: behind_def)

lemma tail_inv_start:
  assumes "tail_ok X me ks" "ks (consumer_cursor_key me) = None"
  shows "tail_inv X me ks"
proof -
  have "(0, 0) \<le> (i :: sid)" for i by (cases i) (auto simp: less_eq_prod_def)
  with assms show ?thesis by (simp add: tail_inv_def cursor_sid_def)
qed

lemma tail_pos_start:
  assumes "tail_ok X me ks" "ks (consumer_cursor_key me) = None" shows "tail_pos me ks = 0"
proof -
  have "\<not> fst e \<le> (0, 0)" if "e \<in> set (ledger_of ks)" for e
    using that tail_ok_stream [OF assms(1)] by (auto simp: stream_ok_def not_le)
  then show ?thesis using assms(2) by (simp add: tail_pos_def cursor_sid_def entries_upto_def filter_empty_conv)
qed

text \<open>The cursor's position does not move while the ledger grows.\<close>

lemma last_sid_greatest:
  assumes "stream_ok es" "e \<in> set es" shows "fst e \<le> last_sid es"
  using assms by (induction es) (auto simp: stream_ok_def last_sid_def less_imp_le)

lemma entries_upto_grown:
  assumes "stream_ok (es @ new)" "c \<le> last_sid es"
  shows "entries_upto c (es @ new) = entries_upto c es"
proof -
  have "last_sid es < fst e" if "e \<in> set new" for e
    using that assms(1) by (cases "es = []") (auto simp: stream_ok_def last_sid_def sorted_wrt_append)
  with assms(2) have "filter (\<lambda>e. fst e \<le> c) new = []"
    by (auto simp: filter_empty_conv not_le intro: le_less_trans)
  then show ?thesis by (simp add: entries_upto_def)
qed

lemma last_sid_grown:
  assumes "stream_ok (es @ new)" shows "last_sid es \<le> last_sid (es @ new)"
proof (cases "es = []")
  case True
  have "(0, 0) \<le> (i :: sid)" for i by (cases i) (auto simp: less_eq_prod_def)
  with True show ?thesis by (simp add: last_sid_def)
next
  case False
  then have "last es \<in> set (es @ new)" by simp
  from last_sid_greatest [OF assms this] False show ?thesis by (simp add: last_sid_def)
qed

lemma tail_inv_stream: "tail_inv X me ks \<Longrightarrow> stream_ok (ledger_of ks)"
  using tail_ok_stream [of X me ks] by (simp add: tail_inv_def)

lemma tail_inv_grown:
  assumes inv: "tail_inv X me ks" and world: "world_inv X {} ks'" and grows: "ledger_of ks' = ledger_of ks @ new"
    and cur: "ks' (consumer_cursor_key me) = ks (consumer_cursor_key me)" and ids: "ids_indexable ks'"
  shows "tail_inv X me ks'" "tail_pos me ks' = tail_pos me ks"
    "tail_log X ks' = tail_log X ks @ map (decode_entry X \<circ> to_msg) new"
proof -
  have c: "cursor_sid ks' me = cursor_sid ks me" "cursor_ok ks' me = cursor_ok ks me"
    by (simp_all add: cursor_sid_def cursor_ok_def cur)
  have ok: "tail_ok X me ks'" using inv world ids c by (simp add: tail_inv_def tail_ok_def ids_indexable_def)
  then have st: "stream_ok (ledger_of ks @ new)" using tail_ok_stream grows by metis
  have le: "cursor_sid ks me \<le> last_sid (ledger_of ks)" using inv by (simp add: tail_inv_def)
  with last_sid_grown [OF st] have "cursor_sid ks' me \<le> last_sid (ledger_of ks')" by (simp add: c grows)
  with ok show "tail_inv X me ks'" by (simp add: tail_inv_def)
  show "tail_pos me ks' = tail_pos me ks" by (simp add: tail_pos_def c grows entries_upto_grown [OF st le])
  show "tail_log X ks' = tail_log X ks @ map (decode_entry X \<circ> to_msg) new" by (simp add: tail_log_def grows)
qed


text \<open>A condition on the keyspace that the consumer's own writes to its view, and the others, respect.\<close>

definition view_stable :: "(keyspace \<Rightarrow> bool) \<Rightarrow> bool" where
  "view_stable F \<longleftrightarrow> (\<forall>ks ks'. F ks \<longrightarrow> only_z ks ks' \<longrightarrow> aux_inv ks' \<longrightarrow> F ks') \<and>
     (\<forall>ks. F ks \<longrightarrow> aux_inv ks \<and> ids_indexable ks)"

text \<open>
  The interface of a consumer's apply function under disturbance: it folds a prefix of the batch into
  the view, all of it when it reports success, and leaves everything else.
\<close>

locale tail_network = redis_server R view for R :: "'s redis" and view :: "'s \<Rightarrow> keyspace" +
  fixes X :: ext and me :: string and apply_fn :: "event list \<Rightarrow> ('s, unit) go"
    and content :: "keyspace \<Rightarrow> 'v" and fold_event :: "event \<Rightarrow> 'v \<Rightarrow> 'v"
  assumes content_cursor: "content (ks(consumer_cursor_key me \<mapsto> x)) = content ks"
    and apply_prefix: "view_stable F \<Longrightarrow> stable (beside X R view me content) (\<lambda>s. F (view s)) \<Longrightarrow>
      (\<And>e. e \<in> set evs \<Longrightarrow> \<exists>d. stream_id_score (ev_id e) = Inr d) \<Longrightarrow>
      triple (beside X R view me content) (\<lambda>s. F (view s) \<and> content (view s) = v) (apply_fn evs)
        (\<lambda>_ s. F (view s) \<and> content (view s) = fold fold_event evs v)
        (\<lambda>s. F (view s) \<and> (\<exists>n. content (view s) = fold fold_event (take n evs) v))"
begin

definition net_consumer :: "int \<Rightarrow> ('s world, serr) consumer" where
  "net_consumer blk = \<lparr>cn_id = me, cn_store = ledger_store X R, cn_apply = apply_fn, cn_block = blk\<rparr>"

definition kept :: "'v \<Rightarrow> 's \<Rightarrow> bool" where
  "kept v0 s \<longleftrightarrow> tail_inv X me (view s) \<and> delivered X me content fold_event v0 (view s)"

lemma beside_grown:
  assumes "beside X R view me content s s'" "tail_inv X me (view s)"
  obtains new where "ledger_of (view s') = ledger_of (view s) @ new" "tail_inv X me (view s')"
    "tail_pos me (view s') = tail_pos me (view s)"
    "tail_log X (view s') = tail_log X (view s) @ map (decode_entry X \<circ> to_msg) new"
    "view s' (consumer_cursor_key me) = view s (consumer_cursor_key me)" "content (view s') = content (view s)"
proof -
  have "ids_indexable (view s)" using assms(2) by (simp add: tail_inv_def tail_ok_def ids_indexable_def)
  then have b: "(client_step X R view UNIV)\<^sup>*\<^sup>* s s'" "ids_indexable (view s')"
    "view s' (consumer_cursor_key me) = view s (consumer_cursor_key me)" "content (view s') = content (view s)"
    using assms(1) by (simp_all add: beside_def)
  have "world_inv X {} (view s)" using assms(2) by (simp add: tail_inv_def tail_ok_def)
  from client_steps_world [OF b(1) this Int_empty_right] obtain new where
    w: "world_inv X {} (view s')" "ledger_of (view s') = ledger_of (view s) @ new"
    by (auto simp: ledger_grows_def)
  from tail_inv_grown [OF assms(2) w b(3,2)] w b that show thesis by blast
qed

text \<open>The batch ahead of the cursor stays what it was when it was read.\<close>

definition ahead :: "(sid \<times> fields) list \<Rightarrow> event list \<Rightarrow> keyspace \<Rightarrow> bool" where
  "ahead es evs ks \<longleftrightarrow> tail_inv X me ks \<and> take (length es) (drop (tail_pos me ks) (ledger_of ks)) = es \<and>
     mset (behind X me ks) \<subseteq># mset evs \<and> set evs \<subseteq> set (log_events (tail_log X ks))"

lemma pos_in_log: "tail_pos me ks \<le> length (ledger_of ks)"
  by (simp add: tail_pos_def entries_upto_def)

lemma behind_grown:
  "tail_pos me ks' = tail_pos me ks \<Longrightarrow> tail_log X ks' = tail_log X ks @ new \<Longrightarrow> behind X me ks' = behind X me ks"
  using tail_pos_le [of me ks X] by (simp add: behind_def)

lemma take_length_take: "take (length (take n xs)) xs = take n xs"
  by (cases "n \<le> length xs") simp_all

lemma take_drop_grown:
  assumes "take (length es) (drop n xs) = es" "n \<le> length xs"
  shows "take (length es) (drop n (xs @ ys)) = es"
proof -
  have "length es \<le> length (drop n xs)" using arg_cong [OF assms(1), of length] by (simp add: min_def split: if_splits)
  with assms show ?thesis by simp
qed

lemma stable_ahead: "stable (beside X R view me content) (\<lambda>s. ahead es evs (view s))"
  unfolding stable_def
proof (intro allI impI)
  fix s s' assume a: "ahead es evs (view s)" and b: "beside X R view me content s s'"
  then have "tail_inv X me (view s)" by (simp add: ahead_def)
  from beside_grown [OF b this] obtain new where n: "ledger_of (view s') = ledger_of (view s) @ new"
    "tail_inv X me (view s')" "tail_pos me (view s') = tail_pos me (view s)"
    "tail_log X (view s') = tail_log X (view s) @ map (decode_entry X \<circ> to_msg) new" by blast
  have t: "take (length es) (drop (tail_pos me (view s)) (ledger_of (view s) @ new)) = es"
    using take_drop_grown [OF _ pos_in_log] a by (simp add: ahead_def)
  with a n behind_grown [OF n(3,4)] show "ahead es evs (view s')" by (auto simp: ahead_def)
qed

lemma ahead_view: "view_stable (ahead es evs)"
  unfolding view_stable_def
proof (intro conjI allI impI)
  fix ks ks' assume a: "ahead es evs ks" and z: "only_z ks ks'" "aux_inv ks'"
  have "tail_ok X me ks" using a by (simp add: ahead_def tail_inv_def)
  from tail_ok_only_z [OF this z] a show "ahead es evs ks'"
    by (simp add: ahead_def tail_inv_def tail_pos_def tail_log_def behind_def)
next
  fix ks assume "ahead es evs ks"
  then show "aux_inv ks" "ids_indexable ks"
    by (simp_all add: ahead_def tail_inv_def tail_ok_def world_inv_def ids_indexable_def)
qed

lemma ahead_kept:
  assumes "ahead es evs (view s)" "content (view s) = fold fold_event (evs @ ys) v0"
    and "set ys \<subseteq> set (log_events (map (decode_entry X \<circ> to_msg) es))"
  shows "kept v0 s"
proof -
  have "set es \<subseteq> set (ledger_of (view s))"
    using assms(1) set_take_subset [of "length es" "drop (tail_pos me (view s)) (ledger_of (view s))"]
      set_drop_subset [of "tail_pos me (view s)" "ledger_of (view s)"] by (auto simp: ahead_def)
  then have "set ys \<subseteq> set (log_events (tail_log X (view s)))"
    using assms(3) by (fastforce simp: set_log_events tail_log_def)
  moreover have "mset (behind X me (view s)) \<subseteq># mset (evs @ ys)"
    using assms(1) by (simp add: ahead_def subset_mset.add_increasing2)
  ultimately show ?thesis
    using assms(1,2) by (auto simp: kept_def ahead_def delivered_def intro!: exI [of _ "evs @ ys"])
qed

lemma stable_kept: "stable (beside X R view me content) (kept v0)"
  unfolding stable_def
proof (intro allI impI)
  fix s s' assume k: "kept v0 s" and b: "beside X R view me content s s'"
  then obtain evs where evs: "ahead [] evs (view s)" "content (view s) = fold fold_event evs v0"
    by (auto simp: kept_def delivered_def ahead_def)
  moreover have "ahead [] evs (view s')" using stable_ahead evs(1) b unfolding stable_def by blast
  moreover have "content (view s') = content (view s)"
    using k beside_grown [OF b] by (auto simp: kept_def)
  ultimately show "kept v0 s'" using ahead_kept [of "[]" evs s' "[]" v0] by simp
qed

lemma kept_view: "view s' = view s \<Longrightarrow> kept v0 s' = kept v0 s"
  by (simp add: kept_def)

lemma triple_load:
  "triple (beside X R view me content) (kept v0) (load_cursor R me)
    (\<lambda>found s. kept v0 s \<and> found = cursor_text (view s) me) (kept v0)"
  unfolding load_cursor_def
proof (rule triple_call [OF stable_kept])
  fix s r s' assume k: "kept v0 s" and run: "get_c R (consumer_cursor_key me) s = (r, s')"
  have "cursor_ok (view s) me" using k by (simp add: kept_def tail_inv_def tail_ok_def)
  then have "get_c (doc_redis (0, 1)) (consumer_cursor_key me) (view s) = (Inr (cursor_text (view s) me), view s)"
    by (auto simp: doc_cmds cursor_ok_def cursor_text_def)
  then have "obs view (get_c R (consumer_cursor_key me) s) = (Inr (cursor_text (view s) me), view s)"
    by (simp add: law_get [of _ _ "(0, 1)"])
  then have r: "r = Inr (cursor_text (view s) me)" "view s' = view s" by (simp_all add: run)
  from k kept_view [OF r(2)] show "kept v0 s' \<and> (\<forall>x. r = Inr x \<longrightarrow> kept v0 s' \<and> x = cursor_text (view s') me)"
    by (simp add: r)
qed

lemma stable_kept_cursor: "stable (beside X R view me content) (\<lambda>s. kept v0 s \<and> c = cursor_text (view s) me)"
proof -
  have "cursor_text (view s') me = cursor_text (view s) me"
    if "kept v0 s" "beside X R view me content s s'" for s s'
  proof -
    have "tail_inv X me (view s)" using that(1) by (simp add: kept_def)
    from beside_grown [OF that(2) this] have "view s' (consumer_cursor_key me) = view s (consumer_cursor_key me)"
      by blast
    then show ?thesis by (simp add: cursor_text_def)
  qed
  with stable_kept [of v0] show ?thesis unfolding stable_def by metis
qed

text \<open>What a read returns is ahead of the cursor, and stays so.\<close>

lemma triple_read:
  assumes n: "0 < n"
  shows "triple (beside X R view me content) (\<lambda>s. kept v0 s \<and> c = cursor_text (view s) me)
    (read_ledger_batch X R (case c of None \<Rightarrow> cursor_head | Some t \<Rightarrow> t) n blk)
    (\<lambda>b s. \<exists>es evs. b = batch_of (map (decode_entry X \<circ> to_msg) es) \<and>
      ahead es evs (view s) \<and> content (view s) = fold fold_event evs v0) (kept v0)"
  unfolding read_ledger_batch_def
proof (rule triple_bind)
  let ?a = "case c of None \<Rightarrow> cursor_head | Some t \<Rightarrow> t"
  show "triple (beside X R view me content) (\<lambda>s. kept v0 s \<and> c = cursor_text (view s) me)
      (call (xread_c R ledger_key ?a n))
      (\<lambda>m s. \<exists>es evs. m = (if es = [] then None else Some (map to_msg es)) \<and>
        ahead es evs (view s) \<and> content (view s) = fold fold_event evs v0) (kept v0)"
  proof (rule triple_call [OF stable_kept_cursor])
    fix s r s' assume k: "kept v0 s \<and> c = cursor_text (view s) me" and run: "xread_c R ledger_key ?a n s = (r, s')"
    let ?es = "take (nat n) (drop (tail_pos me (view s)) (ledger_of (view s)))"
    have ok: "tail_ok X me (view s)" using k by (simp add: kept_def tail_inv_def)
    then have "cursor_ok (view s) me" by (simp add: tail_ok_def)
    then have cur: "parse_sid ?a = Some (cursor_sid (view s) me)" using cursor_text_parse k by simp
    have es: "filter (\<lambda>e. cursor_sid (view s) me < fst e) (ledger_of (view s)) =
        drop (tail_pos me (view s)) (ledger_of (view s))"
      using entries_after tail_ok_stream [OF ok] by (simp add: stream_ok_def tail_pos_def)
    have "xread_c (doc_redis (0, 1)) ledger_key ?a n (view s) =
        (Inr (if ?es = [] then None else Some (map to_msg ?es)), view s)"
      using tail_ok_stream [OF ok] cur es by (simp add: doc_cmds Let_def)
    then have "obs view (xread_c R ledger_key ?a n s) = (Inr (if ?es = [] then None else Some (map to_msg ?es)), view s)"
      by (simp only: law_xread [OF cur n, of ledger_key s "(0, 1)"])
    then have r: "r = Inr (if ?es = [] then None else Some (map to_msg ?es))" "view s' = view s"
      by (simp_all only: run obs_pair prod.inject)
    obtain evs where evs: "mset (behind X me (view s)) \<subseteq># mset evs"
      "set evs \<subseteq> set (log_events (tail_log X (view s)))" "content (view s) = fold fold_event evs v0"
      using k by (auto simp: kept_def delivered_def)
    have "take (length ?es) (drop (tail_pos me (view s)) (ledger_of (view s))) = ?es"
      by (simp only: take_length_take)
    with evs k have "ahead ?es evs (view s')" by (simp add: ahead_def kept_def r)
    then have "\<exists>es evs. (if ?es = [] then None else Some (map to_msg ?es)) = (if es = [] then None else Some (map to_msg es)) \<and>
        ahead es evs (view s') \<and> content (view s') = fold fold_event evs v0"
      using evs(3) unfolding r(2) by blast
    with r(1) k kept_view [OF r(2)] show "kept v0 s' \<and> (\<forall>x. r = Inr x \<longrightarrow> (\<exists>es evs.
        x = (if es = [] then None else Some (map to_msg es)) \<and> ahead es evs (view s') \<and>
        content (view s') = fold fold_event evs v0))"
      by blast
  qed simp
next
  fix m
  show "triple (beside X R view me content)
      (\<lambda>s. \<exists>es evs. m = (if es = [] then None else Some (map to_msg es)) \<and>
        ahead es evs (view s) \<and> content (view s) = fold fold_event evs v0)
      (case m of None \<Rightarrow> io_ret (batch_of []) | Some ms \<Rightarrow> io_ret (batch_of (map (decode_entry X) ms)))
      (\<lambda>b s. \<exists>es evs. b = batch_of (map (decode_entry X \<circ> to_msg) es) \<and>
        ahead es evs (view s) \<and> content (view s) = fold fold_event evs v0) (kept v0)"
  proof (cases m)
    case None
    then show ?thesis
      by (auto intro!: triple_ret split: if_splits) (rule exI [of _ "[]"], auto)
  next
    case (Some ms)
    then show ?thesis by (auto intro!: triple_ret split: if_splits)
  qed
qed

text \<open>Saving the cursor after the batch has been folded in.\<close>

lemma saved_kept:
  assumes a: "ahead es evs (view s)" "es \<noteq> []"
    and c: "content (view s) = fold fold_event (evs @ log_events (map (decode_entry X \<circ> to_msg) es)) v0"
    and s': "view s' = (view s)(consumer_cursor_key me \<mapsto> Str (show_sid (fst (last es))))"
  shows "kept v0 s'"
proof -
  let ?ks = "view s" and ?L = "ledger_of (view s)"
  define k where "k = tail_pos me ?ks + length es"
  have ok: "tail_ok X me ?ks" and es: "take (length es) (drop (tail_pos me ?ks) ?L) = es"
    using a by (simp_all add: ahead_def tail_inv_def)
  have "length es \<le> length (drop (tail_pos me ?ks) ?L)"
    using arg_cong [OF es, of length] by (simp add: min_def split: if_splits)
  then have k: "0 < k" "k \<le> length ?L" using a(2) pos_in_log [of ?ks] by (auto simp: k_def)
  have "last es = es ! (length es - 1)" using a(2) by (rule last_conv_nth)
  also have "\<dots> = ?L ! (k - 1)"
  proof -
    have "tail_pos me ?ks + (length es - 1) = k - 1" using a(2) by (cases es) (simp_all add: k_def)
    then show ?thesis using a(2) k by (subst es [symmetric]) (simp add: k_def)
  qed
  finally have last: "last es = ?L ! (k - 1)" .
  note save = tail_ok_save [OF ok k]
  have "cursor_ok (view s') me" "tail_ok X me (view s')" and pos: "tail_pos me (view s') = k"
    using save by (simp_all add: s' last tail_ok_def)
  moreover have led: "ledger_of (view s') = ?L" by (simp add: s')
  moreover have "cursor_sid (view s') me = fst (?L ! (k - 1))"
  proof -
    have "sid_ok (fst (?L ! (k - 1)))" using tail_ok_stream [OF ok] k by (simp add: stream_ok_def)
    then show ?thesis by (simp add: cursor_sid_def s' last)
  qed
  moreover have "fst (?L ! (k - 1)) \<le> last_sid ?L"
    using tail_ok_stream [OF ok] k by (intro last_sid_greatest) simp_all
  ultimately have inv: "tail_inv X me (view s')" by (simp add: tail_inv_def)
  have log: "tail_log X (view s') = tail_log X ?ks" by (simp add: tail_log_def led)
  have "take k (tail_log X ?ks) =
      take (tail_pos me ?ks) (tail_log X ?ks) @ map (decode_entry X \<circ> to_msg) es"
    by (simp add: k_def take_add tail_log_def take_map drop_map es)
  then have "behind X me (view s') = behind X me ?ks @ log_events (map (decode_entry X \<circ> to_msg) es)"
    by (simp add: behind_def pos log)
  moreover have "content (view s') = content ?ks" by (simp add: s' content_cursor)
  moreover have "set (log_events (map (decode_entry X \<circ> to_msg) es)) \<subseteq> set (log_events (tail_log X ?ks))"
  proof -
    have "set es \<subseteq> set ?L"
      using set_take_subset [of "length es" "drop (tail_pos me ?ks) ?L"] set_drop_subset [of "tail_pos me ?ks" ?L]
      by (simp add: es)
    then show ?thesis by (fastforce simp: set_log_events tail_log_def)
  qed
  ultimately have "delivered X me content fold_event v0 (view s')"
    using a(1) c unfolding delivered_def ahead_def log
    by (intro exI [of _ "evs @ log_events (map (decode_entry X \<circ> to_msg) es)"]) simp
  with inv show ?thesis by (simp add: kept_def)
qed

lemma stable_applied:
  "stable (beside X R view me content) (\<lambda>s. ahead es evs (view s) \<and> content (view s) = v)"
  unfolding stable_def
proof (intro allI impI)
  fix s s' assume a: "ahead es evs (view s) \<and> content (view s) = v" and b: "beside X R view me content s s'"
  then have "tail_inv X me (view s)" by (simp add: ahead_def)
  from beside_grown [OF b this] have "content (view s') = content (view s)" by blast
  moreover have "ahead es evs (view s')" using stable_ahead a b unfolding stable_def by blast
  ultimately show "ahead es evs (view s') \<and> content (view s') = v" using a by simp
qed

lemma triple_save:
  assumes "es \<noteq> []"
  shows "triple (beside X R view me content)
    (\<lambda>s. ahead es evs (view s) \<and>
      content (view s) = fold fold_event (evs @ log_events (map (decode_entry X \<circ> to_msg) es)) v0)
    (save_cursor R me (fst (last (map (decode_entry X \<circ> to_msg) es)))) (\<lambda>_. kept v0) (kept v0)"
  unfolding save_cursor_def
proof (rule triple_call [OF stable_applied])
  fix s r s'
  assume a: "ahead es evs (view s) \<and>
      content (view s) = fold fold_event (evs @ log_events (map (decode_entry X \<circ> to_msg) es)) v0"
    and run: "set_c R (consumer_cursor_key me) (fst (last (map (decode_entry X \<circ> to_msg) es))) s = (r, s')"
  have "fst (last (map (decode_entry X \<circ> to_msg) es)) = show_sid (fst (last es))"
    using assms by (simp add: last_map decode_entry_def to_msg_def)
  then have "view s' = (view s)(consumer_cursor_key me \<mapsto> Str (show_sid (fst (last es))))"
    using obs_snd [OF law_set [of "consumer_cursor_key me" "show_sid (fst (last es))" s "(0, 1)"]] run
    by (simp add: doc_cmds)
  with saved_kept [of es evs s v0 s'] a assms show "kept v0 s' \<and> (\<forall>x. r = Inr x \<longrightarrow> kept v0 s')" by simp
qed (auto intro!: ahead_kept)

lemma ahead_events:
  assumes "ahead es evs (view s)" "e \<in> set (log_events (map (decode_entry X \<circ> to_msg) es))"
  shows "\<exists>d. stream_id_score (ev_id e) = Inr d"
proof (rule tail_log_indexable)
  show "tail_ok X me (view s)" using assms(1) by (simp add: ahead_def tail_inv_def)
  have "set es \<subseteq> set (ledger_of (view s))"
    using assms(1) set_take_subset [of "length es" "drop (tail_pos me (view s)) (ledger_of (view s))"]
      set_drop_subset [of "tail_pos me (view s)" "ledger_of (view s)"] by (auto simp: ahead_def)
  with assms(2) show "e \<in> set (log_events (tail_log X (view s)))"
    by (fastforce simp: set_log_events tail_log_def)
qed

lemma triple_apply:
  "triple (beside X R view me content)
    (\<lambda>s. ahead es evs (view s) \<and> content (view s) = fold fold_event evs v0)
    (if 0 < length (log_events (map (decode_entry X \<circ> to_msg) es))
     then apply_fn (log_events (map (decode_entry X \<circ> to_msg) es)) else io_ret ())
    (\<lambda>_ s. ahead es evs (view s) \<and>
      content (view s) = fold fold_event (evs @ log_events (map (decode_entry X \<circ> to_msg) es)) v0) (kept v0)"
proof (cases "log_events (map (decode_entry X \<circ> to_msg) es) = []")
  case True
  then show ?thesis by (simp add: triple_ret)
next
  case False
  let ?ys = "log_events (map (decode_entry X \<circ> to_msg) es)"
  have "triple (beside X R view me content)
    (\<lambda>s. ahead es evs (view s) \<and> content (view s) = fold fold_event evs v0) (apply_fn ?ys)
    (\<lambda>_ s. ahead es evs (view s) \<and> content (view s) = fold fold_event (evs @ ?ys) v0) (kept v0)"
  proof (rule triple_vacuous [where A = "\<forall>e \<in> set ?ys. \<exists>d. stream_id_score (ev_id e) = Inr d"])
    assume ys: "\<forall>e \<in> set ?ys. \<exists>d. stream_id_score (ev_id e) = Inr d"
    show "triple (beside X R view me content)
      (\<lambda>s. ahead es evs (view s) \<and> content (view s) = fold fold_event evs v0) (apply_fn ?ys)
      (\<lambda>_ s. ahead es evs (view s) \<and> content (view s) = fold fold_event (evs @ ?ys) v0) (kept v0)"
    proof (rule triple_weaken [OF apply_prefix [OF ahead_view stable_ahead]])
      fix s assume "ahead es evs (view s) \<and> (\<exists>n. content (view s) =
          fold fold_event (take n ?ys) (fold fold_event evs v0))"
      then obtain n where "ahead es evs (view s)" "content (view s) = fold fold_event (evs @ take n ?ys) v0"
        by auto
      with set_take_subset [of n ?ys] ahead_kept show "kept v0 s" by blast
    qed (use ys in auto)
  qed (use ahead_events in blast)
  with False show ?thesis by simp
qed

text \<open>One pass, whatever happens to its exchanges.\<close>

theorem triple_pass:
  "triple (beside X R view me content) (kept v0) (process_once (net_consumer blk)) (\<lambda>_. kept v0) (kept v0)"
proof -
  have batch: "triple (beside X R view me content)
      (\<lambda>s. b = batch_of (map (decode_entry X \<circ> to_msg) es) \<and>
        (ahead es evs (view s) \<and> content (view s) = fold fold_event evs v0))
      (let n = length (bt_events b) + length (bt_rejected b)
       in if n = 0 then io_ret 0
          else io_bind (if 0 < length (bt_events b) then apply_fn (bt_events b) else io_ret ()) (\<lambda>_.
            io_bind (save_cursor R me (bt_last b)) (\<lambda>_. io_ret n)))
      (\<lambda>_. kept v0) (kept v0)" for b es evs
  proof (rule triple_pure)
    assume b: "b = batch_of (map (decode_entry X \<circ> to_msg) es)"
    show "triple (beside X R view me content)
      (\<lambda>s. ahead es evs (view s) \<and> content (view s) = fold fold_event evs v0)
      (let n = length (bt_events b) + length (bt_rejected b)
       in if n = 0 then io_ret 0
          else io_bind (if 0 < length (bt_events b) then apply_fn (bt_events b) else io_ret ()) (\<lambda>_.
            io_bind (save_cursor R me (bt_last b)) (\<lambda>_. io_ret n)))
      (\<lambda>_. kept v0) (kept v0)"
    proof (cases "es = []")
      case True
      then show ?thesis
        using ahead_kept [of "[]" evs _ "[]" v0]
        by (auto simp: b batch_of_def log_rejected_def intro!: triple_ret)
    next
      case False
      have f: "bt_events b = log_events (map (decode_entry X \<circ> to_msg) es)"
        "bt_last b = fst (last (map (decode_entry X \<circ> to_msg) es))"
        using False by (simp_all add: b batch_of_def)
      have n: "length (log_events (map (decode_entry X \<circ> to_msg) es)) + length (bt_rejected b) = length es"
        using length_batch [of "map (decode_entry X \<circ> to_msg) es"] by (simp add: b batch_of_def)
      have "length es \<noteq> 0" using False by simp
      note not = if_not_P [OF this]
      show ?thesis
        unfolding Let_def f n not
        by (intro triple_bind [OF triple_apply] triple_bind [OF triple_save [OF False]] triple_ret)
    qed
  qed
  show ?thesis
    unfolding process_once_def net_consumer_def consumer.simps ledger_store_def consumer_store.simps Let_def
    by (rule triple_bind [OF triple_load], rule triple_bind [OF triple_read])
      (simp add: batch_count_def, intro triple_ex batch [unfolded Let_def])
qed

theorem rounds_kept:
  assumes "others_do (beside X R view me content) w" "kept v0 (srv w)"
    and "run_consumer (net_consumer blk) rds w = (b, w')"
  shows "kept v0 (srv w')"
proof -
  have "others_do (beside X R view me content) (snd (run_consumer (net_consumer blk) rds w)) \<and>
    kept v0 (srv (snd (run_consumer (net_consumer blk) rds w)))"
  proof (rule run_consumer_invariant)
    fix w assume w: "others_do (beside X R view me content) w \<and> kept v0 (srv w)"
    obtain r w1 where run: "process_once (net_consumer blk) w = (r, w1)" by fastforce
    note t = tripleD [OF triple_pass conjunct1 [OF w] conjunct2 [OF w] run]
    show "others_do (beside X R view me content) (snd (process_once (net_consumer blk) w)) \<and>
        kept v0 (srv (snd (process_once (net_consumer blk) w)))"
      using t run by (cases r) auto
  qed (use assms in simp)
  with assms(3) show ?thesis by simp
qed

end

subsection \<open>Both consumers\<close>

lemma view_stableD: "view_stable F \<Longrightarrow> F ks \<Longrightarrow> only_z ks ks' \<Longrightarrow> aux_inv ks' \<Longrightarrow> F ks'"
  "view_stable F \<Longrightarrow> F ks \<Longrightarrow> aux_inv ks" "view_stable F \<Longrightarrow> F ks \<Longrightarrow> ids_indexable ks"
  unfolding view_stable_def by blast+

text \<open>Under a stable condition the view stays what it is while the others work.\<close>

lemma stable_content:
  assumes "view_stable F" "stable (beside X R view me content) (\<lambda>s. F (view s))"
  shows "stable (beside X R view me content) (\<lambda>s. F (view s) \<and> content (view s) = v)"
  unfolding stable_def
proof (intro allI impI)
  fix s s' assume P: "F (view s) \<and> content (view s) = v" and b: "beside X R view me content s s'"
  have "F (view s')" using assms(2) P b unfolding stable_def by blast
  moreover have "content (view s') = content (view s)"
    using P b view_stableD(3) [OF assms(1)] by (simp add: beside_def)
  ultimately show "F (view s') \<and> content (view s') = v" using P by simp
qed

lemma nth_concat_pairs:
  "n < 2 * length xs \<Longrightarrow> concat (map (\<lambda>x. [f x, g x]) xs) ! n =
    (if even n then f (xs ! (n div 2)) else g (xs ! (n div 2)))"
proof (induction xs arbitrary: n)
  case (Cons x xs)
  then show ?case by (cases n rule: nat.exhaust; cases "n - 1") auto
qed simp

lemma nth_daily_cmds:
  "n < 2 * length evs \<Longrightarrow> concat (map (daily_cmds R ttl) evs) ! n =
    (let e = evs ! (n div 2); k = activity_daily_key (format_date (ev_created e))
     in if even n then map_cmd (\<lambda>_. ()) (zincrby_c R k (Fin 1) (ev_player e)) else expire_c R k ttl)"
  unfolding daily_cmds_def Let_def by (rule nth_concat_pairs)

lemma res_map_history:
  "(\<And>e. e \<in> set evs \<Longrightarrow> \<exists>d. stream_id_score (ev_id e) = Inr d) \<Longrightarrow>
    res_map (history_cmd R) evs = Inr (map (\<lambda>e. zadd_c R (player_history_key (ev_player e) (ev_board e))
      (projr (stream_id_score (ev_id e))) (ev_id e)) evs)"
  by (induction evs) (force simp: history_cmd_def)+

text \<open>
  The daily counters are followed one day at a time: a day's key may expire while the others are kept.
\<close>

definition day_only :: "string \<Rightarrow> (string \<Rightarrow> string \<rightharpoonup> f64) \<Rightarrow> (string \<Rightarrow> string \<rightharpoonup> f64)" where
  "day_only d v k = (if k = activity_daily_key d then v k else Map.empty)"

definition day_content :: "string \<Rightarrow> keyspace \<Rightarrow> string \<Rightarrow> string \<rightharpoonup> f64" where
  "day_content d ks = day_only d (daily_content ks)"

definition day_fold :: "string \<Rightarrow> event \<Rightarrow> (string \<Rightarrow> string \<rightharpoonup> f64) \<Rightarrow> (string \<Rightarrow> string \<rightharpoonup> f64)" where
  "day_fold d e v = (if format_date (ev_created e) = d then daily_fold e v else v)"

lemma day_only_empty [simp]: "day_only d (\<lambda>_. Map.empty) = (\<lambda>_. Map.empty)"
  by (simp add: day_only_def fun_eq_iff)

lemma daily_fold_day: "day_only d (daily_fold e v) = day_fold d e (day_only d v)"
  by (auto simp: daily_fold_def day_fold_def day_only_def Let_def fun_eq_iff)

lemma fold_daily_day: "day_only d (fold daily_fold evs v) = fold (day_fold d) evs (day_only d v)"
  by (induction evs arbitrary: v) (simp_all add: daily_fold_day)

lemma day_content_cursor: "day_content d (ks(consumer_cursor_key me \<mapsto> x)) = day_content d ks"
  by (simp add: day_content_def content_cursor)

context redis_server
begin

lemma history_command:
  assumes F: "view_stable F" "F (view s)" and d: "stream_id_score (ev_id e) = Inr d"
    and v: "history_content (view s) = v"
  defines "s' \<equiv> snd (zadd_c R (player_history_key (ev_player e) (ev_board e)) d (ev_id e) s)"
  shows "F (view s')" "history_content (view s') = history_fold e v"
proof -
  from doc_history_write [OF view_stableD(2) [OF F] d stream_id_score_not_NaN [OF d], of "(0, 1)"]
  obtain ks' where "zadd_c (doc_redis (0, 1)) (player_history_key (ev_player e) (ev_board e)) d (ev_id e) (view s) = (Inr (), ks')"
    "only_z (view s) ks'" "aux_inv ks'" "history_content ks' = history_fold e (history_content (view s))" by blast
  moreover have "view s' = snd (zadd_c (doc_redis (0, 1)) (player_history_key (ev_player e) (ev_board e)) d (ev_id e) (view s))"
    unfolding s'_def by (rule obs_snd) (rule law_zadd)
  ultimately show "F (view s')" "history_content (view s') = history_fold e v"
    using view_stableD(1) [OF F] v by auto
qed

lemma triple_history:
  assumes F: "view_stable F" and st: "\<And>v. stable G (\<lambda>s. F (view s) \<and> history_content (view s) = v)"
    and evs: "\<And>e. e \<in> set evs \<Longrightarrow> \<exists>d. stream_id_score (ev_id e) = Inr d"
  shows "triple G (\<lambda>s. F (view s) \<and> history_content (view s) = v) (apply_player_history R evs)
    (\<lambda>_ s. F (view s) \<and> history_content (view s) = fold history_fold evs v)
    (\<lambda>s. F (view s) \<and> (\<exists>n. history_content (view s) = fold history_fold (take n evs) v))"
proof -
  let ?cmds = "map (\<lambda>e. zadd_c R (player_history_key (ev_player e) (ev_board e))
      (projr (stream_id_score (ev_id e))) (ev_id e)) evs"
  let ?J = "\<lambda>n s. F (view s) \<and> history_content (view s) = fold history_fold (take n evs) v"
  have "triple G (?J 0) (pipeline ?cmds) (\<lambda>_. ?J (length ?cmds))
    (\<lambda>s. F (view s) \<and> (\<exists>n. history_content (view s) = fold history_fold (take n evs) v))"
  proof (rule triple_pipeline_count)
    fix n s assume n: "n < length ?cmds" and J: "?J n s"
    then have "evs ! n \<in> set evs" by simp
    then obtain d where d: "stream_id_score (ev_id (evs ! n)) = Inr d" using evs by blast
    from history_command [OF F conjunct1 [OF J] d conjunct2 [OF J]] n d
    show "?J (Suc n) (snd ((?cmds ! n) s))" by (simp add: take_Suc_conv_app_nth)
  qed (use st in auto)
  then show ?thesis
    unfolding apply_player_history_def
    by (intro triple_bind_lift [OF res_map_history [OF evs]] triple_bind triple_ret) simp_all
qed

lemma daily_command:
  assumes F: "view_stable F" "F (view s)" and ttl: "0 < ttl" and v: "day_content d (view s) = v"
    and c: "n < 2 * length evs" "concat (map (daily_cmds R ttl) evs) ! n = c"
  shows "F (view (snd (c s)))"
    "day_content d (view (snd (c s))) = (if even n then day_fold d (evs ! (n div 2)) v else v)"
proof -
  let ?e = "evs ! (n div 2)"
  let ?k = "activity_daily_key (format_date (ev_created ?e))"
  from doc_daily_write [OF view_stableD(2) [OF F], of "(0, 1)" ttl ?e] obtain ks' where ks':
    "run_cmds (daily_cmds (doc_redis (0, 1)) ttl ?e) [] (view s) = ([Inr (), Inr ()], ks')"
    "only_z (view s) ks'" "aux_inv ks'" "daily_content ks' = daily_fold ?e (daily_content (view s))" by blast
  have day: "day_content d ks' = day_fold d ?e (day_content d (view s))"
    by (simp add: day_content_def ks'(4) daily_fold_day)
  have ks'_eq: "ks' = snd (zincrby_c (doc_redis (0, 1)) ?k (Fin 1) (ev_player ?e) (view s))"
    using ks'(1) by (auto simp: daily_cmds_def Let_def map_cmd_def io_bind_def doc_cmds split: option.splits if_splits)
  show "F (view (snd (c s)))"
    "day_content d (view (snd (c s))) = (if even n then day_fold d ?e v else v)"
  proof -
    have "F (view (snd (c s))) \<and> day_content d (view (snd (c s))) = (if even n then day_fold d ?e v else v)"
    proof (cases "even n")
      case True
      then have "c = map_cmd (\<lambda>_. ()) (zincrby_c R ?k (Fin 1) (ev_player ?e))"
        using c(2) nth_daily_cmds [OF c(1), of R ttl] by (simp add: Let_def)
      then have "snd (c s) = snd (zincrby_c R ?k (Fin 1) (ev_player ?e) s)"
        by (simp add: map_cmd_def io_bind_def split: prod.splits sum.splits)
      moreover have "view (snd (zincrby_c R ?k (Fin 1) (ev_player ?e) s)) = ks'"
        unfolding ks'_eq by (rule obs_snd) (rule law_zincrby)
      ultimately show ?thesis using True view_stableD(1) [OF F ks'(2,3)] day v by simp
    next
      case False
      then have "c = expire_c R ?k ttl" using c(2) nth_daily_cmds [OF c(1), of R ttl] by (simp add: Let_def)
      moreover have "view (snd (expire_c R ?k ttl s)) = view s"
        using obs_snd [OF law_expire [OF ttl, of ?k s "(0, 1)"]] by (simp add: doc_cmds)
      ultimately show ?thesis using False F(2) v by simp
    qed
    then show "F (view (snd (c s)))"
      "day_content d (view (snd (c s))) = (if even n then day_fold d ?e v else v)" by simp_all
  qed
qed

lemma triple_daily:
  assumes F: "view_stable F" and ttl: "0 < ttl"
    and st: "\<And>v. stable G (\<lambda>s. F (view s) \<and> day_content d (view s) = v)"
  shows "triple G (\<lambda>s. F (view s) \<and> day_content d (view s) = v) (apply_daily_counts R ttl evs)
    (\<lambda>_ s. F (view s) \<and> day_content d (view s) = fold (day_fold d) evs v)
    (\<lambda>s. F (view s) \<and> (\<exists>n. day_content d (view s) = fold (day_fold d) (take n evs) v))"
proof -
  let ?cmds = "concat (map (daily_cmds R ttl) evs)"
  let ?J = "\<lambda>n s. F (view s) \<and> day_content d (view s) = fold (day_fold d) (take (Suc n div 2) evs) v"
  have len: "length ?cmds = 2 * length evs" by (induction evs) (simp_all add: daily_cmds_def Let_def)
  have "triple G (?J 0) (pipeline ?cmds) (\<lambda>_. ?J (length ?cmds))
    (\<lambda>s. F (view s) \<and> (\<exists>n. day_content d (view s) = fold (day_fold d) (take n evs) v))"
  proof (rule triple_pipeline_count)
    fix n s assume n: "n < length ?cmds" and J: "?J n s"
    note c = daily_command [OF F conjunct1 [OF J] ttl conjunct2 [OF J] n [unfolded len] refl]
    show "?J (Suc n) (snd ((?cmds ! n) s))"
    proof (cases "even n")
      case True
      then have "Suc n div 2 = n div 2" "Suc (Suc n) div 2 = Suc (n div 2)" by simp_all
      with c True n len show ?thesis by (simp add: take_Suc_conv_app_nth)
    next
      case False
      then have "Suc (Suc n) div 2 = Suc n div 2" by simp
      with c False show ?thesis by simp
    qed
  qed (use st in auto)
  then show ?thesis
    unfolding apply_daily_counts_def len by (intro triple_bind triple_ret) (simp_all add: len)
qed

end

sublocale ledger_server \<subseteq> history_net: tail_network R view X player_history_id "apply_player_history R"
    history_content history_fold
proof
  fix F and evs :: "event list" and v
  assume F: "view_stable F" "stable (beside X R view player_history_id history_content) (\<lambda>s. F (view s))"
    and evs: "\<And>e. e \<in> set evs \<Longrightarrow> \<exists>d. stream_id_score (ev_id e) = Inr d"
  show "triple (beside X R view player_history_id history_content)
      (\<lambda>s. F (view s) \<and> history_content (view s) = v) (apply_player_history R evs)
      (\<lambda>_ s. F (view s) \<and> history_content (view s) = fold history_fold evs v)
      (\<lambda>s. F (view s) \<and> (\<exists>n. history_content (view s) = fold history_fold (take n evs) v))"
    by (rule triple_history [OF F(1) stable_content [OF F] evs])
qed (rule content_cursor)

sublocale ledger_server \<subseteq> daily_net: tail_network R view X daily_activity_id "apply_daily_counts R daily_ttl"
    "day_content d" "day_fold d" for d
proof
  fix F and evs :: "event list" and v
  assume F: "view_stable F" "stable (beside X R view daily_activity_id (day_content d)) (\<lambda>s. F (view s))"
  have "0 < daily_ttl" by (simp add: daily_ttl_def)
  then show "triple (beside X R view daily_activity_id (day_content d))
      (\<lambda>s. F (view s) \<and> day_content d (view s) = v) (apply_daily_counts R daily_ttl evs)
      (\<lambda>_ s. F (view s) \<and> day_content d (view s) = fold (day_fold d) evs v)
      (\<lambda>s. F (view s) \<and> (\<exists>n. day_content d (view s) = fold (day_fold d) (take n evs) v))"
    by (rule triple_daily [OF F(1) _ stable_content [OF F]])
qed (rule day_content_cursor)

subsection \<open>What the readers return after such a run\<close>

lemma log_events_split: "log_events (tail_log X ks) = behind X me ks @ log_events (drop (tail_pos me ks) (tail_log X ks))"
  unfolding behind_def by (metis append_take_drop_id log_events_append)

lemma delivered_rest:
  assumes "delivered X me content f v0 ks" "v = fold f (log_events (drop (tail_pos me ks) (tail_log X ks))) (content ks)"
  obtains evs where "mset (log_events (tail_log X ks)) \<subseteq># mset evs"
    "set evs = set (log_events (tail_log X ks))" "v = fold f evs v0"
proof -
  let ?rest = "log_events (drop (tail_pos me ks) (tail_log X ks))"
  obtain evs where evs: "mset (behind X me ks) \<subseteq># mset evs" "set evs \<subseteq> set (log_events (tail_log X ks))"
    "content ks = fold f evs v0"
    using assms(1) by (auto simp: delivered_def)
  have sub: "mset (log_events (tail_log X ks)) \<subseteq># mset (evs @ ?rest)"
    using evs(1) by (simp add: log_events_split [of X ks me])
  moreover have "set (evs @ ?rest) = set (log_events (tail_log X ks))"
  proof
    show "set (log_events (tail_log X ks)) \<subseteq> set (evs @ ?rest)" using set_mset_mono [OF sub] by simp
    show "set (evs @ ?rest) \<subseteq> set (log_events (tail_log X ks))"
      using evs(2) by (auto simp: log_events_split [of X ks me])
  qed
  moreover have "v = fold f (evs @ ?rest) v0" by (simp add: assms(2) evs(3))
  ultimately show thesis using that by blast
qed

text \<open>For the index repetition does not matter: it is determined by the set of events.\<close>

lemma fold_history_set: "set xs = set ys \<Longrightarrow> fold history_fold xs v = fold history_fold ys v"
  by (intro ext) (simp add: fold_history_ids)

text \<open>A counter stops at \<open>2^53\<close>, where adding one rounds back.\<close>

lemma f64_add_top: "f64_add (Fin (2 ^ 53)) (Fin 1) = Fin (2 ^ 53)"
proof -
  have "floorlog 2 9007199254740993 = 54" by (simp add: compute_floorlog)
  moreover have "quotient_of 9007199254740993 = (9007199254740993, 1)"
    using quotient_of_int [of 9007199254740993] by simp
  moreover have "\<lfloor>9007199254740993 / 2 :: rat\<rfloor> = 4503599627370496" by (simp add: floor_eq_iff)
  ultimately show ?thesis
    by (simp add: f64_round_def log2_rat_def Let_def pow2_def round_half_even_def)
qed

lemma fold_day_saturates:
  "fold (day_fold d) evs (\<lambda>_. Map.empty) (activity_daily_key d) p =
    (if day_count evs d p = 0 then None else Some (Fin (of_nat (min (day_count evs d p) (2 ^ 53)))))"
proof (induction evs rule: rev_induct)
  case (snoc e evs)
  let ?v = "fold (day_fold d) evs (\<lambda>_. Map.empty) (activity_daily_key d)" and ?n = "day_count evs d p"
  have add: "f64_add (Fin (of_nat (min ?n (2 ^ 53)))) (Fin 1) = Fin (of_nat (min (Suc ?n) (2 ^ 53)))"
  proof (cases "?n < 2 ^ 53")
    case True
    then have "int ?n + 1 \<le> 2 ^ 53" by simp
    then have "f64_add (Fin (of_nat ?n)) (Fin 1) = Fin (of_nat ?n + 1)"
      using f64_add_int [of "int ?n" 1] by simp
    with True show ?thesis by (simp add: add.commute)
  next
    case False
    then have "min ?n (2 ^ 53) = 2 ^ 53" "min (Suc ?n) (2 ^ 53) = 2 ^ 53" by simp_all
    with f64_add_top show ?thesis by simp
  qed
  show ?case
  proof (cases "format_date (ev_created e) = d \<and> ev_player e = p")
    case True
    then have "day_fold d e w (activity_daily_key d) p =
        Some (case w (activity_daily_key d) p of None \<Rightarrow> Fin 1 | Some c \<Rightarrow> f64_add c (Fin 1))" for w
      by (auto simp: day_fold_def daily_fold_def Let_def)
    with True snoc add show ?thesis by simp
  next
    case False
    then have "day_fold d e w (activity_daily_key d) p = w (activity_daily_key d) p" for w
      by (auto simp: day_fold_def daily_fold_def Let_def)
    with False snoc show ?thesis by auto
  qed
qed simp

lemma doc_daily_rows:
  assumes inv: "world_inv X {} ks" and cnt: "day_content d ks = fold (day_fold d) evs (\<lambda>_. Map.empty)"
    and limit: "0 < limit"
  obtains rows where "is_activity (\<lambda>p. min (day_count evs d p) (2 ^ 53)) rows"
    "list_daily_activity (doc_redis i) d limit (quiet ks) = (Inr (take (nat limit) rows), quiet ks)"
proof -
  let ?k = "activity_daily_key d"
  have aux: "aux_inv ks" using inv by (simp add: world_inv_def)
  note z = aux_zset [OF aux, of ?k, simplified]
  have "z_map (zset_at ks ?k) p = (if min (day_count evs d p) (2 ^ 53) = 0 then None
      else Some (Fin (of_nat (min (day_count evs d p) (2 ^ 53)))))" for p
    using fold_day_saturates [of d evs p] fun_cong [OF cnt, of ?k]
    unfolding day_content_def day_only_def daily_content_def by auto
  from activity_rows [OF z(2) this]
  have "is_activity (\<lambda>p. min (day_count evs d p) (2 ^ 53)) (map (\<lambda>x. (snd x, f64_to_int (fst x))) (rev (zset_at ks ?k)))" .
  moreover have "call (zrange_c (doc_redis i) ?k 0 (limit - 1) True) (quiet ks) =
      (Inr (take (nat limit) (rev (zset_at ks ?k))), quiet ks)"
    using z(1) z_slice_page [OF limit order_refl, of "rev (zset_at ks ?k)"]
    by (simp add: call_quiet doc_cmds slice_def)
  ultimately show ?thesis
    by (intro that) (auto simp: list_daily_activity_def io_bind_def take_map)
qed

lemma day_count_mset:
  assumes "mset xs \<subseteq># mset ys" shows "day_count xs d p \<le> day_count ys d p"
proof -
  have "filter_mset (\<lambda>e. format_date (ev_created e) = d \<and> ev_player e = p) (mset xs) \<subseteq>#
      filter_mset (\<lambda>e. format_date (ev_created e) = d \<and> ev_player e = p) (mset ys)"
    using assms by (rule multiset_filter_mono)
  from size_mset_mono [OF this] show ?thesis by (simp add: day_count_def mset_filter [symmetric] del: mset_filter)
qed

lemma day_count_pos: "0 < day_count xs d p \<longleftrightarrow> (\<exists>e \<in> set xs. format_date (ev_created e) = d \<and> ev_player e = p)"
  by (simp add: day_count_def filter_empty_conv)

context ledger_server
begin

lemma net_consumers:
  "history_net.net_consumer default_block_duration = new_player_history_consumer X R"
  "daily_net.net_consumer default_block_duration = new_daily_activity_consumer X R"
  by (simp_all add: history_net.net_consumer_def daily_net.net_consumer_def
      new_player_history_consumer_def new_daily_activity_consumer_def)

lemma history_rounds:
  assumes "others_do (beside X R view player_history_id history_content) w"
    and "tail_inv X player_history_id (view (srv w)) \<and>
      delivered X player_history_id history_content history_fold v0 (view (srv w))"
    and "run_consumer (new_player_history_consumer X R) rds w = (b, w')"
  shows "tail_inv X player_history_id (view (srv w')) \<and>
    delivered X player_history_id history_content history_fold v0 (view (srv w'))"
  using history_net.rounds_kept [of w v0 default_block_duration rds b w'] assms
  by (simp add: net_consumers history_net.kept_def)

lemma daily_rounds:
  assumes "others_do (beside X R view daily_activity_id (day_content d)) w"
    and "tail_inv X daily_activity_id (view (srv w)) \<and>
      delivered X daily_activity_id (day_content d) (day_fold d) v0 (view (srv w))"
    and "run_consumer (new_daily_activity_consumer X R) rds w = (b, w')"
  shows "tail_inv X daily_activity_id (view (srv w')) \<and>
    delivered X daily_activity_id (day_content d) (day_fold d) v0 (view (srv w'))"
  using daily_net.rounds_kept [of d w v0 default_block_duration rds b w'] assms
  by (simp add: net_consumers daily_net.kept_def)

lemma history_settles:
  assumes inv: "tail_inv X player_history_id (view s)"
    and del: "delivered X player_history_id history_content history_fold (\<lambda>_. Map.empty) (view s)" and L: "ledger_of (view s) = L" "length L \<le> 10 * k"
  shows "\<exists>s'. run_consumer (new_player_history_consumer X R) (replicate k awake) (quiet s) = (False, quiet s') \<and>
    world_inv X {} (view s') \<and> ledger_of (view s') = L \<and> indexed X (view s')"
proof -
  have ok: "tail_ok X player_history_id (view s)" using inv by (simp add: tail_inv_def)
  from history_catch_up [OF ok L(1), of k] L(2) obtain s' where s':
    "run_consumer (new_player_history_consumer X R) (replicate k awake) (quiet s) = (False, quiet s')"
    "tail_ok X player_history_id (view s')" "ledger_of (view s') = L"
    "history_content (view s') = fold history_fold
      (log_events (drop (tail_pos player_history_id (view s)) (tail_log X (view s)))) (history_content (view s))"
    by auto
  from delivered_rest [OF del s'(4)] obtain evs where evs: "set evs = set (log_events (tail_log X (view s)))"
    "history_content (view s') = fold history_fold evs (\<lambda>_. Map.empty)" by blast
  have "tail_log X (view s') = tail_log X (view s)" by (simp add: tail_log_def L(1) s'(3))
  then have "indexed X (view s')"
    unfolding indexed_def evs(2) using fold_history_set [OF evs(1)] by (simp only:)
  with s' show ?thesis by (auto simp: tail_ok_def)
qed

lemma daily_settles:
  assumes inv: "tail_inv X daily_activity_id (view s)"
    and del: "delivered X daily_activity_id (day_content d) (day_fold d) (\<lambda>_. Map.empty) (view s)" and L: "ledger_of (view s) = L" "length L \<le> 10 * k"
  shows "\<exists>s' evs. run_consumer (new_daily_activity_consumer X R) (replicate k awake) (quiet s) = (False, quiet s') \<and>
    world_inv X {} (view s') \<and> mset (events_of X L) \<subseteq># mset evs \<and> set evs = set (events_of X L) \<and>
    day_content d (view s') = fold (day_fold d) evs (\<lambda>_. Map.empty)"
proof -
  have ok: "tail_ok X daily_activity_id (view s)" using inv by (simp add: tail_inv_def)
  from daily_catch_up [OF ok L(1), of k] L(2) obtain s' where s':
    "run_consumer (new_daily_activity_consumer X R) (replicate k awake) (quiet s) = (False, quiet s')"
    "tail_ok X daily_activity_id (view s')"
    "daily_content (view s') = fold daily_fold
      (log_events (drop (tail_pos daily_activity_id (view s)) (tail_log X (view s)))) (daily_content (view s))"
    by auto
  have "day_content d (view s') = fold (day_fold d)
      (log_events (drop (tail_pos daily_activity_id (view s)) (tail_log X (view s)))) (day_content d (view s))"
    by (simp add: day_content_def s'(3) fold_daily_day)
  from delivered_rest [OF del this] obtain evs where
    "mset (log_events (tail_log X (view s))) \<subseteq># mset evs" "set evs = set (log_events (tail_log X (view s)))"
    "day_content d (view s') = fold (day_fold d) evs (\<lambda>_. Map.empty)" by blast
  moreover have "log_events (tail_log X (view s)) = events_of X L" by (simp add: log_events_ledger L(1))
  ultimately show ?thesis
    using s'(1,2) by (intro exI [of _ s'] exI [of _ evs]) (simp add: tail_ok_def)
qed

end

end
