(* ===== verification/ProjectionAdmin.thy ===== *)
theory ProjectionAdmin
  imports Clients
begin

section \<open>Rebuilding and verifying a projection (\<open>storage/projection_admin.go\<close>)\<close>

text \<open>
  \<open>RebuildProjection\<close> reads the ledger, drops the board's leaderboard and writes its events again,
  one command each; \<open>VerifyProjection\<close> does the same into a scratch key and compares. On a quiet
  server the rebuild ends in the replay of the board's events whatever the leaderboard held, and a
  verification reports exactly the differences. With other clients at work the rebuild needs the
  board closed and no second rebuild of it, and then nothing of theirs can come between.
\<close>

record score_mismatch =
  mm_board :: string
  mm_player :: string
  mm_live :: f64
  mm_live_present :: bool
  mm_replay :: f64
  mm_replay_present :: bool

definition require_board :: "'s redis \<Rightarrow> string \<Rightarrow> ('s, unit) go" where
  "require_board R b =
     io_bind (call (exists_c R (board_profile_key b))) (\<lambda>n.
       if n = 0 then io_fail ErrBoardNotFound else io_ret ())"

text \<open>The board's events among the entries; other boards' entries are not decoded.\<close>

fun board_events_of :: "ext \<Rightarrow> string \<Rightarrow> xmsg list \<Rightarrow> serr + event list" where
  "board_events_of X b [] = Inr []"
| "board_events_of X b (entry # entries) =
     (if get_stream_entry_value entry entry_field_board_id \<noteq> b then board_events_of X b entries
      else sum_bind (entry_to_event X entry) (\<lambda>event.
        sum_bind (board_events_of X b entries) (\<lambda>events. Inr (event # events))))"

definition read_board_events :: "ext \<Rightarrow> 's redis \<Rightarrow> string \<Rightarrow> ('s, event list) go" where
  "read_board_events X R b =
     io_bind (call (xrange_c R ledger_key ''-'' ''+'' None)) (\<lambda>entries.
       io_lift (board_events_of X b entries))"

fun fold_events :: "'s redis \<Rightarrow> string \<Rightarrow> event list \<Rightarrow> ('s, unit) go" where
  "fold_events R dest [] = io_ret ()"
| "fold_events R dest (event # events) =
     io_bind
       (if ev_type event = event_set
        then call (zadd_c R dest (f64_of_int (ev_amount event)) (ev_player event))
        else if ev_type event = event_increment
        then io_bind (call (zincrby_c R dest (f64_of_int (ev_amount event)) (ev_player event))) (\<lambda>_. io_ret ())
        else io_fail ErrInconsistent)
       (\<lambda>_. fold_events R dest events)"

definition fold_into :: "'s redis \<Rightarrow> event list \<Rightarrow> string \<Rightarrow> ('s, unit) go" where
  "fold_into R events dest = io_bind (call (del_c R dest)) (\<lambda>_. fold_events R dest events)"

definition rebuild_projection :: "ext \<Rightarrow> 's redis \<Rightarrow> string \<Rightarrow> ('s, unit) go" where
  "rebuild_projection X R b =
     io_bind (require_board R b) (\<lambda>_.
     io_bind (read_board_events X R b) (\<lambda>events.
       fold_into R events (leaderboard_key b)))"

definition zset_scores :: "'s redis \<Rightarrow> string \<Rightarrow> ('s, (string \<times> f64) list) go" where
  "zset_scores R key =
     io_bind (call (zrange_c R key 0 (- 1) False)) (\<lambda>zs. io_ret (map (\<lambda>z. (snd z, fst z)) zs))"

text \<open>The differences, live members first; Go ranges over a map, so their order is unspecified.\<close>

definition board_mismatches :: "string \<Rightarrow> (string \<times> f64) list \<Rightarrow> (string \<times> f64) list \<Rightarrow> score_mismatch list" where
  "board_mismatches b live rebuilt =
     concat (map (\<lambda>(p, d). case map_of rebuilt p of
         None \<Rightarrow> [\<lparr>mm_board = b, mm_player = p, mm_live = d, mm_live_present = True,
                   mm_replay = Fin 0, mm_replay_present = False\<rparr>]
       | Some d' \<Rightarrow> if f64_eq d' d then []
           else [\<lparr>mm_board = b, mm_player = p, mm_live = d, mm_live_present = True,
                   mm_replay = d', mm_replay_present = True\<rparr>]) live) @
     concat (map (\<lambda>(p, d). if map_of live p \<noteq> None then []
         else [\<lparr>mm_board = b, mm_player = p, mm_live = Fin 0, mm_live_present = False,
                mm_replay = d, mm_replay_present = True\<rparr>]) rebuilt)"

definition diff_board :: "'s redis \<Rightarrow> string \<Rightarrow> ('s, score_mismatch list) go" where
  "diff_board R b =
     io_bind (zset_scores R (leaderboard_key b)) (\<lambda>live.
     io_bind (zset_scores R (board_verify_key b)) (\<lambda>rebuilt.
       io_ret (board_mismatches b live rebuilt)))"

text \<open>A deferred command: it runs when the function returns, and its own error is dropped.\<close>

definition io_defer :: "('w, 'e, 'b) io \<Rightarrow> ('w, 'e, 'a) io \<Rightarrow> ('w, 'e, 'a) io" where
  "io_defer d m w = (case m w of (r, w') \<Rightarrow> (r, snd (d w')))"

definition verify_projection :: "ext \<Rightarrow> 's redis \<Rightarrow> string \<Rightarrow> ('s, score_mismatch list) go" where
  "verify_projection X R b =
     io_bind (require_board R b) (\<lambda>_.
     io_bind (read_board_events X R b) (\<lambda>events.
     io_bind (fold_into R events (board_verify_key b)) (\<lambda>_.
       io_defer (call (del_c R (board_verify_key b))) (diff_board R b))))"

subsection \<open>Any server runs these as documented\<close>

lemma qsim_defer:
  assumes "qsim v d d'" "qsim v m m'" shows "qsim v (io_defer d m) (io_defer d' m')"
proof (rule qsimI)
  fix s
  obtain r s1 where 1: "m (quiet s) = (r, quiet s1)" "m' (quiet (v s)) = (r, quiet (v s1))"
    using assms(2) unfolding qsim_def by blast
  obtain r' s2 where "d (quiet s1) = (r', quiet s2)" "d' (quiet (v s1)) = (r', quiet (v s2))"
    using assms(1) unfolding qsim_def by blast
  with 1 show "\<exists>r s'. io_defer d m (quiet s) = (r, quiet s') \<and> io_defer d' m' (quiet (v s)) = (r, quiet (v s'))"
    by (simp add: io_defer_def)
qed

context redis_server
begin

lemma qsim_require_board: "qsim view (require_board R b) (require_board (doc_redis i) b)"
  unfolding require_board_def by (auto intro!: qsim_bind qsim_call law_exists)

lemma qsim_read_board_events: "qsim view (read_board_events X R b) (read_board_events X (doc_redis i) b)"
  unfolding read_board_events_def by (intro qsim_bind qsim_call law_xrange) (auto simp: sid_max_def)

lemma qsim_fold_events: "qsim view (fold_events R dest evs) (fold_events (doc_redis i) dest evs)"
  by (induction evs)
    (auto simp del: io_ret_apply io_fail_apply intro!: qsim_bind qsim_call law_zadd law_zincrby)

lemma qsim_fold_into: "qsim view (fold_into R evs dest) (fold_into (doc_redis i) evs dest)"
  unfolding fold_into_def by (intro qsim_bind qsim_call law_del qsim_fold_events)

lemma qsim_rebuild: "qsim view (rebuild_projection X R b) (rebuild_projection X (doc_redis i) b)"
  unfolding rebuild_projection_def
  by (intro qsim_bind qsim_require_board qsim_read_board_events qsim_fold_into)

lemma qsim_zset_scores: "qsim view (zset_scores R k) (zset_scores (doc_redis i) k)"
  unfolding zset_scores_def by (intro qsim_bind qsim_call law_zrange qsim_ret)

lemma qsim_verify: "qsim view (verify_projection X R b) (verify_projection X (doc_redis i) b)"
  unfolding verify_projection_def diff_board_def
  by (intro qsim_bind qsim_require_board qsim_read_board_events qsim_fold_into qsim_defer qsim_call
      law_del qsim_zset_scores qsim_ret)

end

subsection \<open>The events of a board\<close>

lemma board_events_of_ledger:
  assumes "\<forall>e \<in> set es. \<exists>ev. entry_to_event X (to_msg e) = Inr ev"
  shows "board_events_of X b (map to_msg es) = Inr (board_events X b es)"
  using assms
proof (induction es)
  case (Cons e es)
  then obtain ev where ev: "entry_to_event X (to_msg e) = Inr ev" by auto
  have "events_of X (e # es) = ev # events_of X es" using ev by (simp add: events_of_def)
  with Cons ev entry_to_event_Inr [OF ev] show ?case by (simp add: board_events_def)
qed (simp add: board_events_def)

subsection \<open>The fold writes the replay\<close>

lemma doc_fold_step:
  assumes ty: "ev_type e = event_set \<or> ev_type e = event_increment" and n: "score_validate (ev_amount e)"
    and z: "as_zset (ks dest) = Some z" "z_map z = as_scores m" "scores_bounded m"
  shows "fold_events (doc_redis i) dest (e # evs) (quiet ks) =
    fold_events (doc_redis i) dest evs (quiet (ks(dest \<mapsto>
      ZSet (z_add (Fin (of_int (new_score m (ev_type e) (ev_player e) (ev_amount e)))) (ev_player e) z))))"
  using doc_apply_projection [of ks dest z m "ev_amount e" i "ev_player e" "ev_type e", OF z n] ty n
  by (auto simp: apply_projection_def io_bind_def call_quiet event_set_def event_increment_def
      split: prod.splits sum.splits)

lemma doc_fold_events:
  assumes "sound_events evs" "bounded_replay m evs" "as_zset (ks dest) = Some z" "z_ok z" "z_map z = as_scores m"
  shows "\<exists>ks'. fold_events (doc_redis i) dest evs (quiet ks) = (Inr (), quiet ks') \<and>
    (\<forall>k. k \<noteq> dest \<longrightarrow> ks' k = ks k) \<and> projection_ok ks' dest (foldl replay1 m evs)"
  using assms
proof (induction evs arbitrary: ks z m)
  case Nil
  then show ?case by (auto simp: projection_ok_def)
next
  case (Cons e evs)
  let ?n = "new_score m (ev_type e) (ev_player e) (ev_amount e)"
  let ?z = "z_add (Fin (of_int ?n)) (ev_player e) z"
  have e: "ev_type e = event_set \<or> ev_type e = event_increment" "score_validate (ev_amount e)"
    "sound_events evs" using Cons.prems(1) by (simp_all add: sound_events_def)
  have b: "scores_bounded m" "bounded_replay (replay1 m e) evs"
    using Cons.prems(2) by (simp_all add: bounded_replay_Cons)
  have "z_map ?z = as_scores (replay1 m e)"
    using Cons.prems(4,5) by (simp add: replay1_new_score)
  moreover have "as_zset ((ks(dest \<mapsto> ZSet ?z)) dest) = Some ?z" by simp
  ultimately have "\<exists>ks'. fold_events (doc_redis i) dest evs (quiet (ks(dest \<mapsto> ZSet ?z))) = (Inr (), quiet ks') \<and>
      (\<forall>k. k \<noteq> dest \<longrightarrow> ks' k = (ks(dest \<mapsto> ZSet ?z)) k) \<and>
      projection_ok ks' dest (foldl replay1 (replay1 m e) evs)"
    using Cons.IH [where ks = "ks(dest \<mapsto> ZSet ?z)"] e(3) b(2) z_add_ok [OF Cons.prems(4)] by blast
  with doc_fold_step [where ks = ks and dest = dest, OF e(1,2) Cons.prems(3,5) b(1), of i evs]
  show ?case by auto
qed

lemma doc_fold_into:
  assumes "sound_events evs" "bounded_replay Map.empty evs"
  shows "\<exists>ks'. fold_into (doc_redis i) evs dest (quiet ks) = (Inr (), quiet ks') \<and>
    (\<forall>k. k \<noteq> dest \<longrightarrow> ks' k = ks k) \<and> projection_ok ks' dest (replay evs)"
proof -
  have "call (del_c (doc_redis i) dest) (quiet ks) =
      (Inr (if ks dest = None then 0 else 1), quiet (ks(dest := None)))"
    by (simp add: call_quiet doc_cmds)
  with doc_fold_events [OF assms, of "ks(dest := None)" dest "[]" i] show ?thesis
    by (auto simp: fold_into_def io_bind_def replay_def z_ok_def)
qed

lemma doc_read_board_events:
  assumes "as_stream (ks ledger_key) = Some es" "ledger_wf X es"
  shows "read_board_events X (doc_redis i) b (quiet ks) = (Inr (board_events X b es), quiet ks)"
  using assms board_events_of_ledger [of es X b]
  by (simp add: read_board_events_def io_bind_def call_quiet doc_cmds limit_count_def ledger_wf_def ledger_sound_def)

lemma doc_require_board:
  "require_board (doc_redis i) b (quiet ks) =
    (if ks (board_profile_key b) = None then Inl ErrBoardNotFound else Inr (), quiet ks)"
  by (simp add: require_board_def io_bind_def call_quiet doc_cmds)

theorem doc_rebuild:
  assumes "ks (board_profile_key b) \<noteq> None" "as_stream (ks ledger_key) = Some es" "ledger_wf X es"
  shows "\<exists>ks'. rebuild_projection X (doc_redis i) b (quiet ks) = (Inr (), quiet ks') \<and>
    (\<forall>k. k \<noteq> leaderboard_key b \<longrightarrow> ks' k = ks k) \<and> projection_ok ks' (leaderboard_key b) (board_scores X b es)"
  using doc_fold_into [OF board_events_sound ledger_wf_bounded [OF assms(3)], of i b "leaderboard_key b" ks]
    doc_require_board [of i b ks] doc_read_board_events [where ks = ks, OF assms(2,3)] assms(1)
  by (auto simp: rebuild_projection_def io_bind_def board_scores_def)

lemma z_slice_all [simp]: "z_slice 0 (- 1) xs = xs"
  by (cases xs) (simp_all add: z_slice_def slice_def Let_def)

lemma doc_zset_scores:
  "as_zset (ks k) = Some z \<Longrightarrow> zset_scores (doc_redis i) k (quiet ks) = (Inr (map prod.swap z), quiet ks)"
  by (simp add: zset_scores_def io_bind_def call_quiet doc_cmds prod.swap_def)

theorem doc_verify:
  assumes "ks (board_profile_key b) \<noteq> None" "as_stream (ks ledger_key) = Some es" "ledger_wf X es"
    and live: "as_zset (ks (leaderboard_key b)) = Some live"
  shows "\<exists>z. verify_projection X (doc_redis i) b (quiet ks) =
      (Inr (board_mismatches b (map prod.swap live) (map prod.swap z)), quiet (ks(board_verify_key b := None))) \<and>
    z_ok z \<and> z_map z = as_scores (board_scores X b es)"
proof -
  from doc_fold_into [OF board_events_sound ledger_wf_bounded [OF assms(3)], of i b "board_verify_key b" ks]
  obtain ks' where ks': "fold_into (doc_redis i) (board_events X b es) (board_verify_key b) (quiet ks) = (Inr (), quiet ks')"
    "\<forall>k. k \<noteq> board_verify_key b \<longrightarrow> ks' k = ks k" "projection_ok ks' (board_verify_key b) (board_scores X b es)"
    by (auto simp: board_scores_def)
  then obtain z where z: "as_zset (ks' (board_verify_key b)) = Some z" "z_ok z" "z_map z = as_scores (board_scores X b es)"
    by (auto simp: projection_ok_def)
  have "as_zset (ks' (leaderboard_key b)) = Some live" using ks'(2) live by simp
  then have diff: "diff_board (doc_redis i) b (quiet ks') =
      (Inr (board_mismatches b (map prod.swap live) (map prod.swap z)), quiet ks')"
    using z by (simp add: diff_board_def io_bind_def doc_zset_scores)
  have "ks'(board_verify_key b := None) = ks(board_verify_key b := None)" using ks'(2) by auto
  with ks' z diff doc_require_board [of i b ks] doc_read_board_events [where ks = ks, OF assms(2,3)] assms(1)
  show ?thesis
    by (auto simp: verify_projection_def io_bind_def io_defer_def call_quiet doc_cmds)
qed

text \<open>A difference is reported exactly when the two sides disagree on some member.\<close>

lemma board_mismatches_empty:
  assumes "distinct (map fst live)" "distinct (map fst rebuilt)"
    and "\<And>p d. (p, d) \<in> set live \<union> set rebuilt \<Longrightarrow> d \<noteq> NaN"
  shows "board_mismatches b live rebuilt = [] \<longleftrightarrow> map_of live = map_of rebuilt"
proof -
  have eq: "f64_eq d' d \<longleftrightarrow> d' = d" if "(p, d) \<in> set live" "map_of rebuilt p = Some d'" for p d d'
    using assms(3) [of p d] assms(3) [of p d'] that map_of_SomeD [OF that(2)]
    by (auto simp: f64_eq_def)
  have "board_mismatches b live rebuilt = [] \<longleftrightarrow>
      (\<forall>(p, d) \<in> set live. map_of rebuilt p = Some d) \<and> (\<forall>(p, d) \<in> set rebuilt. map_of live p \<noteq> None)"
    using eq by (auto simp: board_mismatches_def split: option.splits if_splits)
  also have "\<dots> \<longleftrightarrow> map_of live = map_of rebuilt"
  proof
    assume l: "(\<forall>(p, d) \<in> set live. map_of rebuilt p = Some d) \<and> (\<forall>(p, d) \<in> set rebuilt. map_of live p \<noteq> None)"
    show "map_of live = map_of rebuilt"
    proof
      fix p show "map_of live p = map_of rebuilt p"
      proof (cases "map_of live p")
        case None
        with l have "map_of rebuilt p = None" using map_of_SomeD by (cases "map_of rebuilt p") fastforce+
        with None show ?thesis by simp
      next
        case (Some d)
        with l map_of_SomeD [OF Some] show ?thesis by auto
      qed
    qed
  next
    assume eq: "map_of live = map_of rebuilt"
    have "map_of rebuilt p = Some d" if "(p, d) \<in> set live" for p d
      using map_of_is_SomeI [OF assms(1) that] eq by simp
    moreover have "map_of live p \<noteq> None" if "(p, d) \<in> set rebuilt" for p d
      using map_of_is_SomeI [OF assms(2) that] eq by simp
    ultimately show "(\<forall>(p, d) \<in> set live. map_of rebuilt p = Some d) \<and> (\<forall>(p, d) \<in> set rebuilt. map_of live p \<noteq> None)"
      by auto
  qed
  finally show ?thesis .
qed

subsection \<open>Rebuilding a closed board while other clients work\<close>

text \<open>
  The other clients take any steps, rebuilds of the boards in \<open>U\<close> among them, that keep board \<open>b\<close>
  closed. With \<open>b\<close> itself not in \<open>U\<close> they leave its leaderboard and its events alone, and what the
  rebuild does touches nothing else.
\<close>

definition closed :: "keyspace \<Rightarrow> string \<Rightarrow> bool" where
  "closed ks b \<longleftrightarrow> board_state_of ks b = Some board_closed"

definition steps_closed :: "ext \<Rightarrow> 's redis \<Rightarrow> ('s \<Rightarrow> keyspace) \<Rightarrow> string set \<Rightarrow> string \<Rightarrow> 's \<Rightarrow> 's \<Rightarrow> bool" where
  "steps_closed X R view U b = (\<lambda>s s'. client_step X R view U s s' \<and> closed (view s') b)\<^sup>*\<^sup>*"

definition rebuilding :: "ext \<Rightarrow> string set \<Rightarrow> string \<Rightarrow> keyspace \<Rightarrow> bool" where
  "rebuilding X U b ks \<longleftrightarrow> world_inv X (- insert b U) ks \<and> ledger_sound X {b} (ledger_of ks) \<and> closed ks b"

text \<open>What a step leaves alone at a closed board.\<close>

definition board_kept :: "ext \<Rightarrow> string \<Rightarrow> keyspace \<Rightarrow> keyspace \<Rightarrow> bool" where
  "board_kept X b ks ks' \<longleftrightarrow> ks' (leaderboard_key b) = ks (leaderboard_key b) \<and>
     board_events X b (ledger_of ks') = board_events X b (ledger_of ks)"

lemma board_kept_refl [simp]: "board_kept X b ks ks"
  by (simp add: board_kept_def)

lemma board_kept_trans: "board_kept X b k1 k2 \<Longrightarrow> board_kept X b k2 k3 \<Longrightarrow> board_kept X b k1 k3"
  by (simp add: board_kept_def)

lemma same_core_kept: "same_core ks ks' \<Longrightarrow> board_kept X b ks ks'"
  using same_core_keys [of ks ks'] same_core_inv(4) [of ks ks'] by (simp add: board_kept_def)

lemma appended_kept:
  assumes ok: "writable X op p c n rq" and "c \<noteq> b"
  shows "board_kept X b ks (appended i op p c n rq idem z ks)"
proof -
  have "entry_to_event X (to_msg (i, ledger_fields op p c (format_int n) rq)) = Inr (event_of i op p c n rq)"
    using ok by (rule entry_to_event_ledger)
  then have "board_events X b (ledger_of (appended i op p c n rq idem z ks)) = board_events X b (ledger_of ks)"
    using \<open>c \<noteq> b\<close> by (simp add: appended_ledger board_events_def events_of_single)
  moreover have "appended i op p c n rq idem z ks (leaderboard_key b) = ks (leaderboard_key b)"
    using \<open>c \<noteq> b\<close> by (simp add: appended_other)
  ultimately show ?thesis by (simp add: board_kept_def)
qed

lemma leaderboard_kept: "c \<noteq> b \<Longrightarrow> board_kept X b ks (ks(leaderboard_key c := v))"
  by (simp add: board_kept_def)

text \<open>The prefixes of the ledger that concern the board are those it had.\<close>

lemma kept_sound:
  assumes "ledger_sound X {b} es" "stream_ok es'" "\<forall>e \<in> set es'. \<exists>ev. entry_to_event X (to_msg e) = Inr ev"
    and es': "es' = es @ new" and ev: "board_events X b es' = board_events X b es"
  shows "ledger_sound X {b} es'"
proof -
  have "scores_bounded (board_scores X b (take k es'))" for k
  proof (cases "k \<le> length es")
    case True
    then show ?thesis using assms(1) es' by (simp add: ledger_sound_def)
  next
    case False
    have app: "board_events X b (xs @ ys) = board_events X b xs @ board_events X b ys" for xs ys
      by (simp add: board_events_def)
    have "board_events X b new = []" using ev by (simp add: es' app)
    moreover have "board_events X b new = board_events X b (take (k - length es) new) @ board_events X b (drop (k - length es) new)"
      using app [of "take (k - length es) new" "drop (k - length es) new"] by simp
    ultimately have "board_events X b (take k es') = board_events X b es" using False by (simp add: es' app)
    moreover have "scores_bounded (board_scores X b es)"
      using assms(1) unfolding ledger_sound_def by (metis singletonI take_all_iff order_refl)
    ultimately show ?thesis by (simp add: board_scores_def)
  qed
  with assms(2,3) show ?thesis by (simp add: ledger_sound_def)
qed

lemma rebuilding_zset: "rebuilding X U b ks \<Longrightarrow> zset_ok (ks (leaderboard_key c))"
  unfolding rebuilding_def by (blast intro: world_inv_zset)

context redis_server
begin

lemma client_step_kept:
  assumes "client_step X R view U s s'" "rebuilding X U b (view s)" "b \<notin> U"
  shows "board_kept X b (view s) (view s')"
  using assms(1)
proof cases
  case (step_score op p c n rq idem)
  have inv: "world_inv X (- insert b U) (view s)" and cl: "board_state_of (view s) b = Some board_closed"
    using assms(2) by (simp_all add: rebuilding_def closed_def)
  show ?thesis
  proof (cases "c = b")
    case True
    with view_score_step [OF inv step_score(2,3), of idem] step_score cl show ?thesis by auto
  next
    case False
    with view_score_any [OF inv step_score(3), of p c op n rq idem] step_score(1) appended_kept [OF step_score(2)]
    show ?thesis by auto
  qed
next
  case (step_board bd)
  have "registry_inv (view s)" using assms(2) by (simp add: rebuilding_def world_inv_def)
  from step_board view_board_step [OF this, of bd] show ?thesis
    by (auto simp: board_kept_def board_created_other ledger_of_def)
next
  case (step_state st c)
  have "hashes_ok (view s)" using assms(2) by (simp add: rebuilding_def world_inv_def store_inv_def)
  from step_state view_state_step [OF this, of c st] show ?thesis
    by (auto simp: board_kept_def state_set_other ledger_of_def)
next
  case (step_player pf idem)
  have "players_inv (view s)" using assms(2) by (simp add: rebuilding_def world_inv_def)
  from step_player view_player_step [OF this, of pf idem] show ?thesis
    by (auto simp: board_kept_def player_created_other ledger_of_def)
next
  case (step_zadd k d m)
  have "aux_inv (view s)" using assms(2) by (simp add: rebuilding_def world_inv_def)
  from doc_zadd_aux [OF this, of k "(0, 1)" d m] step_zadd obs_snd [OF law_zadd [of k d m s "(0, 1)"]]
  show ?thesis by (auto intro: same_core_kept)
next
  case (step_zincr k d m)
  have "aux_inv (view s)" using assms(2) by (simp add: rebuilding_def world_inv_def)
  from doc_zincr_aux [OF this, of k "(0, 1)" d m] step_zincr obs_snd [OF law_zincrby [of k d m s "(0, 1)"]]
  show ?thesis by (auto intro: same_core_kept)
next
  case (step_del c)
  then show ?thesis using obs_snd [OF law_del [of _ s "(0, 1)"]]
    by (simp add: doc_cmds same_core_kept same_core_upd)
next
  case (step_expire t d)
  then show ?thesis using obs_snd [OF law_expire [of _ _ s "(0, 1)"]] by (simp add: doc_cmds)
next
  case (step_cursor c v)
  then show ?thesis using obs_snd [OF law_set [of _ _ s "(0, 1)"]]
    by (simp add: doc_cmds same_core_kept same_core_cursor)
next
  case (step_expired_field h fs P)
  then show ?thesis by (auto simp: board_kept_def ledger_of_def)
next
  case (step_expired_key d)
  then show ?thesis by (simp add: same_core_kept same_core_upd)
next
  case (step_rebuild_del c)
  have "zset_ok (view s (leaderboard_key c))" by (rule rebuilding_zset [OF assms(2)])
  from view_rebuild_step [OF this, of s'] step_rebuild_del assms(3) show ?thesis using leaderboard_kept by metis
next
  case (step_rebuild_set c d m)
  have "zset_ok (view s (leaderboard_key c))" by (rule rebuilding_zset [OF assms(2)])
  from view_rebuild_step [OF this, of s' d m] step_rebuild_set assms(3) show ?thesis using leaderboard_kept by metis
next
  case (step_rebuild_incr c d m)
  have "zset_ok (view s (leaderboard_key c))" by (rule rebuilding_zset [OF assms(2)])
  from view_rebuild_step [OF this, of s' d m] step_rebuild_incr assms(3) show ?thesis using leaderboard_kept by metis
qed

lemma client_step_rebuilding:
  assumes st: "client_step X R view U s s'" and r: "rebuilding X U b (view s)" and b: "b \<notin> U" and cl: "closed (view s') b"
  shows "rebuilding X U b (view s')"
proof -
  have inv: "world_inv X (- insert b U) (view s)" using r by (simp add: rebuilding_def)
  from client_step_world [OF st this] have 1: "world_inv X (- insert b U) (view s')" "ledger_grows (view s) (view s')" by auto
  then obtain new where "ledger_of (view s') = ledger_of (view s) @ new" by (auto simp: ledger_grows_def)
  moreover have "ledger_sound X (- insert b U) (ledger_of (view s'))"
    using 1(1) by (simp add: world_inv_def store_inv_def ledger_inv_def)
  moreover have "board_events X b (ledger_of (view s')) = board_events X b (ledger_of (view s))"
    using client_step_kept [OF st r b] by (simp add: board_kept_def)
  ultimately have "ledger_sound X {b} (ledger_of (view s'))"
    using r kept_sound [of X b "ledger_of (view s)" "ledger_of (view s')" new] by (simp add: rebuilding_def ledger_sound_def)
  with 1(1) cl show ?thesis by (simp add: rebuilding_def)
qed

lemma steps_closed_rebuilding:
  assumes "steps_closed X R view U b s s'" "rebuilding X U b (view s)" "b \<notin> U"
  shows "rebuilding X U b (view s') \<and> board_kept X b (view s) (view s')"
  using assms(1,2) unfolding steps_closed_def
proof (induction rule: rtranclp_induct)
  case (step s1 s2)
  then have 1: "rebuilding X U b (view s1)" "board_kept X b (view s) (view s1)" by auto
  with step(2) client_step_rebuilding [of X U s1 s2 b] client_step_kept [of X U s1 s2 b] assms(3)
  have "rebuilding X U b (view s2)" "board_kept X b (view s1) (view s2)" by auto
  with 1(2) show ?case by (auto intro: board_kept_trans)
qed simp

end

lemma rebuilding_leaderboard:
  assumes "rebuilding X U b ks" "zset_ok v" shows "rebuilding X U b (ks(leaderboard_key b := v))"
  using leaderboard_world [of X "- insert b U" ks b v] assms
  by (simp add: rebuilding_def closed_def board_state_of_def)

text \<open>Some of the board's events are folded, the rest are to come.\<close>

definition folded :: "ext \<Rightarrow> string set \<Rightarrow> string \<Rightarrow> event list \<Rightarrow> event list \<Rightarrow> keyspace \<Rightarrow> bool" where
  "folded X U b done todo ks \<longleftrightarrow> rebuilding X U b ks \<and> board_events X b (ledger_of ks) = done @ todo \<and>
     projection_ok ks (leaderboard_key b) (replay done)"

lemma projection_zset:
  assumes "projection_ok ks key m" shows "zset_ok (ks key)"
proof -
  obtain z where z: "as_zset (ks key) = Some z" "z_ok z" "z_map z = as_scores m"
    using assms by (auto simp: projection_ok_def)
  have "(NaN, p) \<notin> set z" for p
    using z_map_mem [of z NaN p] z(2,3) by (auto simp: z_ok_def as_scores_def)
  with z show ?thesis by (force simp: zset_ok_def)
qed

text \<open>One event folded into a sorted set that holds the replay of the events before it.\<close>

lemma fold_event_step:
  assumes wf: "ledger_sound X {b} (ledger_of ks)" and evs: "board_events X b (ledger_of ks) = done @ e # todo"
    and ok: "projection_ok ks key (replay done)"
  shows "ev_type e = event_set \<Longrightarrow> \<exists>v. zadd_c (doc_redis i) key (f64_of_int (ev_amount e)) (ev_player e) ks =
      (Inr (), ks(key \<mapsto> v)) \<and> projection_ok (ks(key \<mapsto> v)) key (replay (done @ [e]))"
    and "ev_type e = event_increment \<Longrightarrow> \<exists>d v. zincrby_c (doc_redis i) key (f64_of_int (ev_amount e)) (ev_player e) ks =
      (Inr d, ks(key \<mapsto> v)) \<and> projection_ok (ks(key \<mapsto> v)) key (replay (done @ [e]))"
    and "ev_type e = event_set \<or> ev_type e = event_increment"
proof -
  let ?m = "replay done"
  let ?n = "new_score ?m (ev_type e) (ev_player e) (ev_amount e)"
  obtain z where z: "as_zset (ks key) = Some z" "z_ok z" "z_map z = as_scores ?m"
    using ok by (auto simp: projection_ok_def)
  have "sound_events (done @ e # todo)" using board_events_sound [of X b "ledger_of ks"] evs by simp
  then have e: "ev_type e = event_set \<or> ev_type e = event_increment" "score_validate (ev_amount e)"
    by (simp_all add: sound_events_def)
  from ledger_sound_bounded [OF wf singletonI] have b: "scores_bounded ?m"
    unfolding bounded_replay_def evs replay_def by (metis append_eq_conv_conj)
  let ?ks = "ks(key \<mapsto> ZSet (z_add (Fin (of_int ?n)) (ev_player e) z))"
  have "apply_projection (doc_redis i) key (ev_player e) (ev_type e) (Fin (of_int (ev_amount e))) ks = (Inr (), ?ks)"
    by (rule doc_apply_projection [where ks = ks and key = key, OF z(1,3) b e(2)])
  then have cmds: "ev_type e = event_set \<Longrightarrow>
      zadd_c (doc_redis i) key (f64_of_int (ev_amount e)) (ev_player e) ks = (Inr (), ?ks)"
    "ev_type e = event_increment \<Longrightarrow>
      \<exists>d. zincrby_c (doc_redis i) key (f64_of_int (ev_amount e)) (ev_player e) ks = (Inr d, ?ks)"
    using e(2) by (auto simp: apply_projection_def io_bind_def event_set_def event_increment_def
        split: prod.splits sum.splits)
  have "projection_ok ?ks key (replay (done @ [e]))"
    using z z_add_ok [OF z(2)] by (auto simp: projection_ok_def replay1_new_score)
  with cmds e(1) show
    "ev_type e = event_set \<Longrightarrow> \<exists>v. zadd_c (doc_redis i) key (f64_of_int (ev_amount e)) (ev_player e) ks =
      (Inr (), ks(key \<mapsto> v)) \<and> projection_ok (ks(key \<mapsto> v)) key (replay (done @ [e]))"
    "ev_type e = event_increment \<Longrightarrow> \<exists>d v. zincrby_c (doc_redis i) key (f64_of_int (ev_amount e)) (ev_player e) ks =
      (Inr d, ks(key \<mapsto> v)) \<and> projection_ok (ks(key \<mapsto> v)) key (replay (done @ [e]))"
    "ev_type e = event_set \<or> ev_type e = event_increment" by blast+
qed

lemma folded_kept: "folded X U b done todo ks \<Longrightarrow> rebuilding X U b ks' \<Longrightarrow> board_kept X b ks ks' \<Longrightarrow> folded X U b done todo ks'"
  by (simp add: folded_def board_kept_def projection_ok_def)

lemma folded_done:
  assumes "folded X U b done [] ks" "b \<notin> U" shows "world_inv X (- U) ks"
proof -
  have "projection_ok ks (leaderboard_key b) (board_scores X b (ledger_of ks))"
    using assms(1) by (simp add: folded_def board_scores_def)
  moreover have "world_inv X (- insert b U) ks" "ledger_sound X {b} (ledger_of ks)"
    using assms(1) by (simp_all add: folded_def rebuilding_def)
  moreover have "insert b (- insert b U) = - U" using assms(2) by auto
  ultimately show ?thesis using ledger_inv_insert [of X "- insert b U" ks b] by (simp add: world_inv_def store_inv_def)
qed

lemma rebuilding_inv: "rebuilding X U b ks \<Longrightarrow> ledger_inv X (- insert b U) ks \<and> ledger_sound X {b} (ledger_of ks)"
  by (simp add: rebuilding_def world_inv_def store_inv_def)

context redis_server
begin

lemma stable_rebuilding: "b \<notin> U \<Longrightarrow> stable (steps_closed X R view U b) (\<lambda>s. rebuilding X U b (view s))"
  using steps_closed_rebuilding by (auto simp: stable_def)

lemma stable_folded: "b \<notin> U \<Longrightarrow> stable (steps_closed X R view U b) (\<lambda>s. folded X U b d t (view s))"
  unfolding stable_def
proof (intro allI impI)
  fix s s' assume b: "b \<notin> U" and f: "folded X U b d t (view s)" and st: "steps_closed X R view U b s s'"
  then have "rebuilding X U b (view s)" by (simp add: folded_def)
  from steps_closed_rebuilding [OF st this b] folded_kept [OF f] show "folded X U b d t (view s')" by blast
qed

lemma triple_fold_events:
  fixes X :: ext and b key :: string and I :: "keyspace \<Rightarrow> bool"
  defines "F \<equiv> \<lambda>d t ks. I ks \<and> board_events X b (ledger_of ks) = d @ t \<and> projection_ok ks key (replay d)"
  assumes st: "\<And>d t. stable G (\<lambda>s. F d t (view s))" and wf: "\<And>ks. I ks \<Longrightarrow> ledger_sound X {b} (ledger_of ks)"
    and upd: "\<And>ks v m. I ks \<Longrightarrow> projection_ok (ks(key \<mapsto> v)) key m \<Longrightarrow> I (ks(key \<mapsto> v)) \<and> ledger_of (ks(key \<mapsto> v)) = ledger_of ks"
  shows "triple G (\<lambda>s. F d t (view s)) (fold_events R key t) (\<lambda>_ s. F (d @ t) [] (view s)) (\<lambda>s. I (view s))"
proof (induction t arbitrary: d)
  case Nil
  show ?case unfolding fold_events.simps by (rule triple_ret) simp
next
  case (Cons e t)
  let ?P = "\<lambda>s. F d (e # t) (view s)" and ?E = "\<lambda>s. I (view s)" and ?Q = "\<lambda>s. F (d @ [e]) t (view s)"
  have I: "F d' t' ks \<Longrightarrow> I ks" for d' t' ks by (simp add: F_def)
  note step = fold_event_step [of X b _ d e t key]
  have set_cmd: "triple G ?P (call (zadd_c R key (f64_of_int (ev_amount e)) (ev_player e))) (\<lambda>_ s. ?Q s) ?E"
    if ty: "ev_type e = event_set"
  proof (rule triple_call [OF st])
    fix s r s' assume f: "?P s" and run: "zadd_c R key (f64_of_int (ev_amount e)) (ev_player e) s = (r, s')"
    from f step(1) [of "view s" "(0, 1)"] ty wf [of "view s"] obtain v where
      "zadd_c (doc_redis (0, 1)) key (f64_of_int (ev_amount e)) (ev_player e) (view s) = (Inr (), (view s)(key \<mapsto> v))"
      "projection_ok ((view s)(key \<mapsto> v)) key (replay (d @ [e]))" by (auto simp: F_def)
    with law_zadd [of key "f64_of_int (ev_amount e)" "ev_player e" s "(0, 1)"] run f upd [of "view s" v "replay (d @ [e])"]
    show "?E s' \<and> (\<forall>x. r = Inr x \<longrightarrow> ?Q s')" by (auto simp: F_def)
  qed (rule I)
  have incr_cmd: "triple G ?P (call (zincrby_c R key (f64_of_int (ev_amount e)) (ev_player e))) (\<lambda>_ s. ?Q s) ?E"
    if ty: "ev_type e = event_increment"
  proof (rule triple_call [OF st])
    fix s r s' assume f: "?P s" and run: "zincrby_c R key (f64_of_int (ev_amount e)) (ev_player e) s = (r, s')"
    from f step(2) [of "view s" "(0, 1)"] ty wf [of "view s"] obtain x v where
      "zincrby_c (doc_redis (0, 1)) key (f64_of_int (ev_amount e)) (ev_player e) (view s) = (Inr x, (view s)(key \<mapsto> v))"
      "projection_ok ((view s)(key \<mapsto> v)) key (replay (d @ [e]))" by (auto simp: F_def)
    with law_zincrby [of key "f64_of_int (ev_amount e)" "ev_player e" s "(0, 1)"] run f upd [of "view s" v "replay (d @ [e])"]
    show "?E s' \<and> (\<forall>x. r = Inr x \<longrightarrow> ?Q s')" by (auto simp: F_def)
  qed (rule I)
  show ?case
  proof (cases "ev_type e = event_set \<or> ev_type e = event_increment")
    case True
    have IH: "triple G ?Q (fold_events R key t) (\<lambda>_ s. F (d @ e # t) [] (view s)) ?E"
      using Cons.IH [of "d @ [e]"] by simp
    show ?thesis
      unfolding fold_events.simps using True
      by (auto intro!: triple_bind [OF set_cmd IH] triple_bind [OF triple_bind [OF incr_cmd triple_ret] IH]
          simp del: io_ret_apply)
  next
    case False
    have "\<not> ?P s" for s using False step(3) [of "view s"] wf [of "view s"] by (auto simp: F_def)
    then show ?thesis by (simp add: triple_def)
  qed
qed

lemma stable_events: "b \<notin> U \<Longrightarrow> stable (steps_closed X R view U b)
    (\<lambda>s. rebuilding X U b (view s) \<and> evs = board_events X b (ledger_of (view s)))"
  unfolding stable_def using steps_closed_rebuilding by (auto simp: board_kept_def)

lemma triple_require_board:
  assumes "stable G (\<lambda>s. I (view s))"
  shows "triple G (\<lambda>s. I (view s)) (require_board R b) (\<lambda>_ s. I (view s)) (\<lambda>s. I (view s))"
  unfolding require_board_def
proof (rule triple_bind)
  show "triple G (\<lambda>s. I (view s)) (call (exists_c R (board_profile_key b))) (\<lambda>_ s. I (view s)) (\<lambda>s. I (view s))"
  proof (rule triple_call [OF assms])
    fix s r s' assume "I (view s)" "exists_c R (board_profile_key b) s = (r, s')"
    then show "I (view s') \<and> (\<forall>x. r = Inr x \<longrightarrow> I (view s'))"
      using law_exists [of "board_profile_key b" s "(0, 1)"] by (auto simp: doc_cmds)
  qed
  show "triple G (\<lambda>s. I (view s)) (if n = 0 then io_fail ErrBoardNotFound else io_ret ()) (\<lambda>_ s. I (view s))
      (\<lambda>s. I (view s))" for n :: int
    by (simp del: io_ret_apply io_fail_apply add: triple_ret triple_fail)
qed

lemma triple_read_board_events:
  assumes st: "stable G (\<lambda>s. I (view s))" and inv: "\<And>ks. I ks \<Longrightarrow> ledger_inv X B ks"
  shows "triple G (\<lambda>s. I (view s)) (read_board_events X R b)
     (\<lambda>evs s. I (view s) \<and> evs = board_events X b (ledger_of (view s))) (\<lambda>s. I (view s))"
  unfolding read_board_events_def
proof (rule triple_bind)
  show "triple G (\<lambda>s. I (view s)) (call (xrange_c R ledger_key ''-'' ''+'' None))
      (\<lambda>entries s. I (view s) \<and> board_events_of X b entries = Inr (board_events X b (ledger_of (view s))))
      (\<lambda>s. I (view s))"
  proof (rule triple_call [OF st])
    fix s r s' assume r: "I (view s)" and run: "xrange_c R ledger_key ''-'' ''+'' None s = (r, s')"
    from r have inv: "ledger_inv X B (view s)" by (rule inv)
    then have wf: "ledger_sound X B (ledger_of (view s))" by (simp add: ledger_inv_def)
    have "obs view (r, s') = xrange_c (doc_redis (0, 1)) ledger_key ''-'' ''+'' None (view s)"
      using law_xrange [of "''-''" "(False, (0, 0))" "''+''" "(False, sid_max)" None ledger_key s "(0, 1)"] run
      by (simp add: sid_max_def)
    then have "r = Inr (map to_msg (ledger_of (view s)))" "view s' = view s"
      using ledger_inv_stream [OF inv] wf
      by (auto simp: doc_cmds limit_count_def ledger_sound_def)
    then show "I (view s') \<and> (\<forall>x. r = Inr x \<longrightarrow> I (view s') \<and>
        board_events_of X b x = Inr (board_events X b (ledger_of (view s'))))"
      using r wf board_events_of_ledger [of "ledger_of (view s)" X b] by (auto simp: ledger_sound_def)
  qed
qed (auto intro!: triple_lift)

lemma triple_rebuild:
  assumes b: "b \<notin> U"
  shows "triple (steps_closed X R view U b) (\<lambda>s. rebuilding X U b (view s)) (rebuild_projection X R b)
     (\<lambda>_ s. world_inv X (- U) (view s)) (\<lambda>s. rebuilding X U b (view s))"
  unfolding rebuild_projection_def fold_into_def
proof (rule triple_bind [OF triple_require_board [OF stable_rebuilding [OF b]]],
    rule triple_bind [OF triple_read_board_events [where B = "- insert b U", OF stable_rebuilding [OF b]]],
    (simp add: rebuilding_inv; fail), rule triple_bind)
  fix u :: unit and evs
  show "triple (steps_closed X R view U b)
      (\<lambda>s. rebuilding X U b (view s) \<and> evs = board_events X b (ledger_of (view s)))
      (call (del_c R (leaderboard_key b))) (\<lambda>_ s. folded X U b [] evs (view s)) (\<lambda>s. rebuilding X U b (view s))"
  proof (rule triple_call [OF stable_events [OF b]])
    fix s r s' assume r: "rebuilding X U b (view s) \<and> evs = board_events X b (ledger_of (view s))"
      and run: "del_c R (leaderboard_key b) s = (r, s')"
    then have "view s' = (view s)(leaderboard_key b := None)"
      using law_del [of "leaderboard_key b" s "(0, 1)"] by (auto simp: doc_cmds)
    moreover from this have "rebuilding X U b (view s')" using r rebuilding_leaderboard by auto
    ultimately show "rebuilding X U b (view s') \<and> (\<forall>x. r = Inr x \<longrightarrow> folded X U b [] evs (view s'))"
      using r by (simp add: folded_def projection_ok_def z_ok_def)
  qed simp
  show "triple (steps_closed X R view U b) (\<lambda>s. folded X U b [] evs (view s)) (fold_events R (leaderboard_key b) evs)
      (\<lambda>_ s. world_inv X (- U) (view s)) (\<lambda>s. rebuilding X U b (view s))" for n :: int
  proof (rule triple_weaken [OF triple_fold_events [where I = "rebuilding X U b" and X = X and b = b and d = "[]"]])
    show "world_inv X (- U) (view s)" if "rebuilding X U b (view s) \<and> board_events X b (ledger_of (view s)) = ([] @ evs) @ [] \<and>
        projection_ok (view s) (leaderboard_key b) (replay ([] @ evs))" for s
      using that b by (intro folded_done [of X U b evs]) (simp_all add: folded_def)
  qed (use stable_folded [OF b] rebuilding_inv rebuilding_leaderboard projection_zset in \<open>fastforce simp: folded_def\<close>)+
qed

text \<open>
  Verification finds no mismatch exactly when the leaderboard is the replay, so none on a store with its
  invariant.
\<close>

lemma verify_drift:
  assumes "as_stream (view s ledger_key) = Some es" "ledger_wf X es" "view s (board_profile_key b) \<noteq> None"
    and "as_zset (view s (leaderboard_key b)) = Some live" "z_ok live" "NaN \<notin> fst ` set live"
  shows "\<exists>mismatches s'. verify_projection X R b (quiet s) = (Inr mismatches, quiet s') \<and>
    (mismatches = [] \<longleftrightarrow> z_map live = as_scores (board_scores X b es)) \<and>
    (\<forall>k. k \<noteq> board_verify_key b \<longrightarrow> view s' k = view s k)"
proof -
  obtain z where z: "verify_projection X (doc_redis (0, 1)) b (quiet (view s)) =
      (Inr (board_mismatches b (map prod.swap live) (map prod.swap z)), quiet ((view s)(board_verify_key b := None)))"
    "z_ok z" "z_map z = as_scores (board_scores X b es)"
    using doc_verify [OF assms(3,1,2,4), of "(0, 1)"] by blast
  have num: "d \<noteq> NaN" if "(p, d) \<in> set (map prod.swap live) \<union> set (map prod.swap z)" for p d
  proof (cases "(d, p) \<in> set z")
    case True
    then have "z_map z p = Some d" using z(2) by (intro z_map_mem) (auto simp: z_ok_def)
    then show ?thesis by (auto simp: z(3) as_scores_def)
  next
    case False
    with that assms(6) show ?thesis by force
  qed
  have "board_mismatches b (map prod.swap live) (map prod.swap z) = [] \<longleftrightarrow> z_map live = z_map z"
    using assms(5) z(2) num by (subst board_mismatches_empty) (auto simp: z_ok_def z_map_def comp_def)
  with qsim_result [OF qsim_verify z(1)] z(3) show ?thesis by auto
qed

lemma verify_clean:
  assumes "world_inv X UNIV (view s)" "view s (board_profile_key b) \<noteq> None"
  shows "\<exists>s'. verify_projection X R b (quiet s) = (Inr [], quiet s')"
proof -
  have inv: "ledger_inv X UNIV (view s)" using assms(1) by (simp add: world_inv_def store_inv_def)
  then obtain live where live: "as_zset (view s (leaderboard_key b)) = Some live" "z_ok live"
    "z_map live = as_scores (board_scores X b (ledger_of (view s)))"
    unfolding ledger_inv_def projection_ok_def by blast
  have "(NaN, p) \<notin> set live" for p
    using z_map_mem [of live NaN p] live by (auto simp: z_ok_def as_scores_def)
  then have "NaN \<notin> fst ` set live" by force
  from verify_drift [OF _ _ assms(2) live(1,2) this, of "ledger_of (view s)" X] live(3) inv ledger_inv_wf [OF inv] show ?thesis
    by (auto simp: ledger_inv_def)
qed

end

end
