(* ===== verification/VerifyNetwork.thy ===== *)
theory VerifyNetwork
  imports ProjectionAdmin
begin

section \<open>Verifying a closed board while other clients work\<close>

text \<open>
  \<open>VerifyProjection\<close> compares two reads with commands of its own in between, on a scratch key that
  every verification of the board shares. While the board stays closed, and nobody else rebuilds
  it or touches the scratch key, whatever it returns is right, lost messages and other clients notwithstanding. A
  second verification of the board does touch the key: its deferred deletion alone makes the first
  report a drift that is not there.
\<close>

definition verify_steps :: "ext \<Rightarrow> 's redis \<Rightarrow> ('s \<Rightarrow> keyspace) \<Rightarrow> string set \<Rightarrow> string \<Rightarrow> 's \<Rightarrow> 's \<Rightarrow> bool" where
  "verify_steps X R view U b s s' \<longleftrightarrow>
     steps_closed X R view U b s s' \<and> view s' (board_verify_key b) = view s (board_verify_key b)"

text \<open>What stays the same meanwhile: the leaderboard, the board's events, and the rest of the invariant.\<close>

definition watching :: "ext \<Rightarrow> string set \<Rightarrow> string \<Rightarrow> rval option \<Rightarrow> event list \<Rightarrow> keyspace \<Rightarrow> bool" where
  "watching X U b lb evs ks \<longleftrightarrow> rebuilding X U b ks \<and> ks (leaderboard_key b) = lb \<and>
     board_events X b (ledger_of ks) = evs"

lemma watching_inv:
  "watching X U b lb evs ks \<Longrightarrow> ledger_inv X (- insert b U) ks \<and> ledger_sound X {b} (ledger_of ks)"
  using rebuilding_inv [of X U b ks] by (simp add: watching_def)

lemma watching_scratch:
  assumes w: "watching X U b lb evs ks" and z: "aux_inv (ks(board_verify_key b := v))"
  shows "watching X U b lb evs (ks(board_verify_key b := v))"
proof -
  have core: "same_core ks (ks(board_verify_key b := v))" by (simp add: same_core_upd)
  from core_step_world [OF core z] same_core_inv(4) [OF core] w show ?thesis
    by (auto simp: watching_def rebuilding_def closed_def board_state_of_def)
qed

lemma triple_defer:
  assumes "triple G P m Q E" "\<And>x. triple G (Q x) d (\<lambda>_. Q' x) (Q' x)" "triple G E d (\<lambda>_. E') E'"
  shows "triple G P (io_defer d m) Q' E'"
  unfolding triple_def
proof (intro allI impI)
  fix w r w' assume w: "others_do G w" "P (srv w)" "io_defer d m w = (r, w')"
  obtain r1 w1 where m: "m w = (r1, w1)" by fastforce
  obtain r2 w2 where d: "d w1 = (r2, w2)" by fastforce
  have w': "r = r1" "w' = w2" using w(3) m d by (simp_all add: io_defer_def)
  note 1 = tripleD [OF assms(1) w(1,2) m]
  show "others_do G w' \<and> (case r of Inl _ \<Rightarrow> E' (srv w') | Inr x \<Rightarrow> Q' x (srv w'))"
  proof (cases r1)
    case (Inl e)
    note 2 = tripleD [OF assms(3) 1(1) 1(3) [OF Inl] d]
    with Inl w' show ?thesis by (cases r2) auto
  next
    case (Inr x)
    note 2 = tripleD [OF assms(2) 1(1) 1(2) [OF Inr] d]
    with Inr w' show ?thesis by (cases r2) auto
  qed
qed

lemma aux_inv_projection:
  assumes "aux_inv ks" "is_zkey k" "projection_ok (ks(k \<mapsto> v)) k m" shows "aux_inv (ks(k \<mapsto> v))"
  using projection_zset [OF assms(3)] assms(1,2) by (auto simp: aux_inv_def zset_ok_def)

text \<open>A sorted set as \<open>zsetScores\<close> reads it.\<close>

definition reads_as :: "(string \<times> f64) list \<Rightarrow> rval option \<Rightarrow> bool" where
  "reads_as rows v \<longleftrightarrow> (\<exists>z. as_zset v = Some z \<and> rows = map prod.swap z)"

text \<open>The right answer, and that what is read in the end gives it.\<close>

definition right_answer :: "string \<Rightarrow> rval option \<Rightarrow> event list \<Rightarrow> score_mismatch list \<Rightarrow> bool" where
  "right_answer b lb evs ms \<longleftrightarrow> (\<forall>live. as_zset lb = Some live \<longrightarrow> z_ok live \<longrightarrow> NaN \<notin> fst ` set live \<longrightarrow>
     (ms = [] \<longleftrightarrow> z_map live = as_scores (replay evs)))"

lemma right_mismatches:
  assumes "reads_as live lb" "reads_as rebuilt v" "projection_ok (ks(k := v)) k (replay evs)"
  shows "right_answer b lb evs (board_mismatches b live rebuilt)"
  unfolding right_answer_def
proof (intro allI impI)
  fix l assume l: "as_zset lb = Some l" "z_ok l" "NaN \<notin> fst ` set l"
  obtain z where z: "as_zset v = Some z" "z_ok z" "z_map z = as_scores (replay evs)"
    using assms(3) by (auto simp: projection_ok_def)
  have eq: "live = map prod.swap l" "rebuilt = map prod.swap z" using assms(1,2) l(1) z(1) by (auto simp: reads_as_def)
  have "d \<noteq> NaN" if "(p, d) \<in> set (map prod.swap l) \<union> set (map prod.swap z)" for p d
  proof (cases "(d, p) \<in> set z")
    case True
    then have "z_map z p = Some d" using z(2) by (intro z_map_mem) (auto simp: z_ok_def)
    then show ?thesis by (auto simp: z(3) as_scores_def)
  next
    case False
    with that l(3) show ?thesis by force
  qed
  with l(2) z(2,3) show "(board_mismatches b live rebuilt = []) = (z_map l = as_scores (replay evs))"
    unfolding eq by (subst board_mismatches_empty) (auto simp: z_ok_def z_map_def comp_def)
qed

context redis_server
begin

lemma stable_watching: "b \<notin> U \<Longrightarrow> stable (verify_steps X R view U b) (\<lambda>s. watching X U b lb evs (view s))"
  unfolding stable_def
proof (intro allI impI)
  fix s s' assume b: "b \<notin> U" and w: "watching X U b lb evs (view s)" and st: "verify_steps X R view U b s s'"
  then have "rebuilding X U b (view s)" by (simp add: watching_def)
  with steps_closed_rebuilding [of X U b s s'] st w b show "watching X U b lb evs (view s')"
    by (simp add: verify_steps_def watching_def board_kept_def)
qed

lemma stable_watching_scratch:
  "b \<notin> U \<Longrightarrow> stable (verify_steps X R view U b) (\<lambda>s. watching X U b lb evs (view s) \<and> Q (view s (board_verify_key b)))"
  using stable_watching [of b U X lb evs] unfolding stable_def verify_steps_def by metis

lemma triple_read_zset:
  assumes st: "stable G (\<lambda>s. I (view s) \<and> Q (view s k))"
  shows "triple G (\<lambda>s. I (view s) \<and> Q (view s k)) (zset_scores R k)
    (\<lambda>rows s. (I (view s) \<and> Q (view s k)) \<and> (\<exists>v. Q v \<and> reads_as rows v)) (\<lambda>s. I (view s))"
  unfolding zset_scores_def
proof (rule triple_bind)
  show "triple G (\<lambda>s. I (view s) \<and> Q (view s k)) (call (zrange_c R k 0 (- 1) False))
    (\<lambda>zs s. (I (view s) \<and> Q (view s k)) \<and> (\<exists>v. Q v \<and> as_zset v = Some zs)) (\<lambda>s. I (view s))"
  proof (rule triple_call [OF st])
    fix s r s' assume s: "I (view s) \<and> Q (view s k)" and run: "zrange_c R k 0 (- 1) False s = (r, s')"
    have "obs view (r, s') = zrange_c (doc_redis (0, 1)) k 0 (- 1) False (view s)"
      using law_zrange [of k 0 "- 1" False s "(0, 1)"] run by simp
    then have "view s' = view s" "\<And>zs. r = Inr zs \<Longrightarrow> as_zset (view s k) = Some zs"
      by (auto simp: doc_cmds z_slice_all split: option.splits)
    with s show "I (view s') \<and> (\<forall>x. r = Inr x \<longrightarrow> (I (view s') \<and> Q (view s' k)) \<and> (\<exists>v. Q v \<and> as_zset v = Some x))"
      by auto
  qed simp
next
  fix zs :: "(f64 \<times> string) list"
  have swap: "map (\<lambda>z. (snd z, fst z)) zs = map prod.swap zs" by (simp add: prod.swap_def)
  show "triple G (\<lambda>s. (I (view s) \<and> Q (view s k)) \<and> (\<exists>v. Q v \<and> as_zset v = Some zs))
      (io_ret (map (\<lambda>z. (snd z, fst z)) zs))
      (\<lambda>rows s. (I (view s) \<and> Q (view s k)) \<and> (\<exists>v. Q v \<and> reads_as rows v)) (\<lambda>s. I (view s))"
    unfolding swap reads_as_def by (rule triple_ret) blast
qed

lemma triple_del_scratch:
  assumes P: "\<And>s. P s \<Longrightarrow> watching X U b lb evs (view s)" and st: "stable (verify_steps X R view U b) P"
  shows "triple (verify_steps X R view U b) P (call (del_c R (board_verify_key b)))
    (\<lambda>_ s. watching X U b lb evs (view s) \<and> projection_ok (view s) (board_verify_key b) Map.empty)
    (\<lambda>s. watching X U b lb evs (view s))"
proof (rule triple_call [OF st])
  fix s r s' assume s: "P s" and run: "del_c R (board_verify_key b) s = (r, s')"
  then have v: "view s' = (view s)(board_verify_key b := None)"
    using obs_snd [OF law_del [of "board_verify_key b" s "(0, 1)"]] by (simp add: doc_cmds)
  have "aux_inv (view s)" using P [OF s] by (simp add: watching_def rebuilding_def world_inv_def)
  then have "watching X U b lb evs (view s')"
    unfolding v by (intro watching_scratch [OF P [OF s]] aux_inv_None) simp_all
  moreover have "projection_ok (view s') (board_verify_key b) Map.empty"
    by (simp add: v projection_ok_def z_ok_def as_scores_def)
  ultimately show "watching X U b lb evs (view s') \<and> (\<forall>x. r = Inr x \<longrightarrow>
      watching X U b lb evs (view s') \<and> projection_ok (view s') (board_verify_key b) Map.empty)" by simp
qed (rule P)

lemma triple_diff_board:
  assumes b: "b \<notin> U"
  shows "triple (verify_steps X R view U b)
    (\<lambda>s. watching X U b lb evs (view s) \<and> projection_ok (view s) (board_verify_key b) (replay evs))
    (diff_board R b) (\<lambda>ms s. right_answer b lb evs ms \<and> watching X U b lb evs (view s))
    (\<lambda>s. watching X U b lb evs (view s))"
proof -
  let ?W = "watching X U b lb evs" and ?k = "board_verify_key b"
  define Q where "Q = (\<lambda>v. projection_ok (\<lambda>_. v) ?k (replay evs))"
  have Q: "projection_ok ks ?k (replay evs) = Q (ks ?k)" for ks by (simp add: Q_def projection_ok_def)
  have lb: "?W ks \<and> A \<longleftrightarrow> (?W ks \<and> A) \<and> ks (leaderboard_key b) = lb" for ks A
    by (auto simp: watching_def)
  have read_live: "triple (verify_steps X R view U b) (\<lambda>s. ?W (view s) \<and> Q (view s ?k)) (zset_scores R (leaderboard_key b))
      (\<lambda>rows s. reads_as rows lb \<and> ?W (view s) \<and> Q (view s ?k)) (\<lambda>s. ?W (view s))"
  proof (rule triple_weaken)
    show "triple (verify_steps X R view U b)
        (\<lambda>s. (?W (view s) \<and> Q (view s ?k)) \<and> view s (leaderboard_key b) = lb) (zset_scores R (leaderboard_key b))
        (\<lambda>rows s. ((?W (view s) \<and> Q (view s ?k)) \<and> view s (leaderboard_key b) = lb) \<and> (\<exists>v. v = lb \<and> reads_as rows v))
        (\<lambda>s. ?W (view s) \<and> Q (view s ?k))"
      by (rule triple_read_zset [where I = "\<lambda>ks. ?W ks \<and> Q (ks ?k)" and Q = "\<lambda>v. v = lb"])
        (simp only: lb [symmetric] stable_watching_scratch [OF b])
  qed (auto simp: watching_def)
  have read_scratch: "triple (verify_steps X R view U b) (\<lambda>s. reads_as live lb \<and> ?W (view s) \<and> Q (view s ?k)) (zset_scores R ?k)
      (\<lambda>rows s. reads_as live lb \<and> (\<exists>v. Q v \<and> reads_as rows v) \<and> ?W (view s)) (\<lambda>s. ?W (view s))" for live
  proof (rule triple_vacuous [where A = "reads_as live lb"])
    assume live: "reads_as live lb"
    have "triple (verify_steps X R view U b) (\<lambda>s. ?W (view s) \<and> Q (view s ?k)) (zset_scores R ?k)
      (\<lambda>rows s. (?W (view s) \<and> Q (view s ?k)) \<and> (\<exists>v. Q v \<and> reads_as rows v)) (\<lambda>s. ?W (view s))"
      by (rule triple_read_zset [OF stable_watching_scratch [OF b]])
    then show ?thesis by (rule triple_weaken) (auto simp: live)
  qed simp
  show ?thesis
    unfolding diff_board_def Q
  proof (rule triple_bind [OF read_live], rule triple_bind [OF read_scratch], rule triple_ret)
    fix live rebuilt s assume a: "reads_as live lb \<and> (\<exists>v. Q v \<and> reads_as rebuilt v) \<and> ?W (view s)"
    then obtain v where "Q v" "reads_as rebuilt v" by blast
    with a right_mismatches [of live lb rebuilt v Map.empty ?k evs]
    show "right_answer b lb evs (board_mismatches b live rebuilt) \<and> ?W (view s)"
      by (simp add: Q_def projection_ok_def)
  qed
qed

theorem triple_verify:
  assumes b: "b \<notin> U"
  shows "triple (verify_steps X R view U b) (\<lambda>s. watching X U b lb evs (view s)) (verify_projection X R b)
    (\<lambda>ms s. right_answer b lb evs ms \<and> watching X U b lb evs (view s)) (\<lambda>s. watching X U b lb evs (view s))"
proof -
  let ?W = "watching X U b lb evs" and ?k = "board_verify_key b"
  have fold: "triple (verify_steps X R view U b) (\<lambda>s. ?W (view s) \<and> es = evs) (fold_into R es ?k)
      (\<lambda>_ s. ?W (view s) \<and> projection_ok (view s) ?k (replay evs)) (\<lambda>s. ?W (view s))" for es
    unfolding fold_into_def
  proof (rule triple_vacuous [where A = "es = evs"])
    assume es: "es = evs"
    let ?F = "\<lambda>d t ks. ?W ks \<and> board_events X b (ledger_of ks) = d @ t \<and> projection_ok ks ?k (replay d)"
    have "triple (verify_steps X R view U b) (\<lambda>s. ?F [] evs (view s)) (fold_events R ?k evs)
        (\<lambda>_ s. ?F ([] @ evs) [] (view s)) (\<lambda>s. ?W (view s))"
    proof (rule triple_fold_events)
      show "stable (verify_steps X R view U b) (\<lambda>s. ?F d t (view s))" for d t
      proof -
        have "?F d t ks \<longleftrightarrow> ?W ks \<and> (evs = d @ t \<and> projection_ok (\<lambda>_. ks ?k) ?k (replay d))" for ks
          by (auto simp: watching_def projection_ok_def)
        then show ?thesis
          using stable_watching_scratch [OF b, of X lb evs "\<lambda>v. evs = d @ t \<and> projection_ok (\<lambda>_. v) ?k (replay d)"]
          by (simp only:)
      qed
      show "ledger_sound X {b} (ledger_of ks)" if "?W ks" for ks using watching_inv [OF that] by simp
      show "?W (ks(?k \<mapsto> v)) \<and> ledger_of (ks(?k \<mapsto> v)) = ledger_of ks"
        if "?W ks" "projection_ok (ks(?k \<mapsto> v)) ?k m" for ks v m
      proof
        have "aux_inv ks" using that(1) by (simp add: watching_def rebuilding_def world_inv_def)
        with that show "?W (ks(?k \<mapsto> v))" by (intro watching_scratch aux_inv_projection) simp_all
        show "ledger_of (ks(?k \<mapsto> v)) = ledger_of ks" by (rule ledger_of_upd) simp
      qed
    qed
    then have run: "triple (verify_steps X R view U b) (\<lambda>s. ?W (view s) \<and> projection_ok (view s) ?k Map.empty)
        (fold_events R ?k evs) (\<lambda>_ s. ?W (view s) \<and> projection_ok (view s) ?k (replay evs)) (\<lambda>s. ?W (view s))"
      by (rule triple_weaken) (auto simp: watching_def)
    show "triple (verify_steps X R view U b) (\<lambda>s. ?W (view s) \<and> es = evs)
        (io_bind (call (del_c R ?k)) (\<lambda>_. fold_events R ?k es))
        (\<lambda>_ s. ?W (view s) \<and> projection_ok (view s) ?k (replay evs)) (\<lambda>s. ?W (view s))"
      unfolding es simp_thms
      by (rule triple_bind [OF triple_del_scratch [OF _ stable_watching [OF b]] run]) simp
  qed simp
  have clean: "triple (verify_steps X R view U b) (\<lambda>s. A \<and> ?W (view s)) (call (del_c R ?k))
      (\<lambda>_ s. A \<and> ?W (view s)) (\<lambda>s. A \<and> ?W (view s))" for A
  proof (rule triple_vacuous [where A = A])
    assume A
    have "triple (verify_steps X R view U b) (\<lambda>s. ?W (view s)) (call (del_c R ?k))
        (\<lambda>_ s. ?W (view s) \<and> projection_ok (view s) ?k Map.empty) (\<lambda>s. ?W (view s))"
      by (rule triple_del_scratch [OF _ stable_watching [OF b]]) simp
    then show ?thesis by (rule triple_weaken) (auto simp: \<open>A\<close>)
  qed simp
  have read: "triple (verify_steps X R view U b) (\<lambda>s. ?W (view s)) (read_board_events X R b)
      (\<lambda>es s. ?W (view s) \<and> es = evs) (\<lambda>s. ?W (view s))"
  proof (rule triple_weaken [OF triple_read_board_events [OF stable_watching [OF b], where B = "- insert b U" and X = X and b = b]])
    show "ledger_inv X (- insert b U) ks" if "?W ks" for ks using watching_inv [OF that] by simp
  qed (auto simp: watching_def)
  show ?thesis
    unfolding verify_projection_def
    by (rule triple_bind [OF triple_require_board [OF stable_watching [OF b]]], rule triple_bind [OF read],
        rule triple_bind [OF fold], rule triple_defer [OF triple_diff_board [OF b] clean])
      (use clean [of True] in simp)
qed

end

end
