(* ===== verification/RebuildRace.thy ===== *)
theory RebuildRace
  imports ProjectionAdmin
begin

section \<open>Two rebuilds of one board at once\<close>

text \<open>
  A rebuild is a sequence of commands and nothing keeps a second one of the same board out, closed or
  not. Here the second runs as a whole between the DEL of the first and its first write: both return
  without an error, and the leaderboard is the fold of the board's events taken twice.
\<close>

subsection \<open>Exchanges that only others disturb\<close>

lemma call_still: "call c \<lparr>srv = s, net = Xch [] None # n\<rparr> = (from_reply (fst (c s)), \<lparr>srv = snd (c s), net = n\<rparr>)"
  by (simp add: call_def exchange_def split: prod.splits)

lemma call_after: "call c \<lparr>srv = s, net = [Xch [f] None]\<rparr> = call c (quiet (f s))"
  by (simp add: call_def exchange_def quiet_def split: prod.splits)

lemma call_still_obs:
  assumes "obs v (c s) = (r, k)"
  shows "\<exists>s'. call c \<lparr>srv = s, net = Xch [] None # n\<rparr> = (from_reply r, \<lparr>srv = s', net = n\<rparr>) \<and> v s' = k"
  using assms by (cases "c s") (simp add: call_still)

lemma fold_events_after:
  "evs \<noteq> [] \<Longrightarrow> sound_events evs \<Longrightarrow>
    fold_events R dest evs \<lparr>srv = s, net = [Xch [f] None]\<rparr> = fold_events R dest evs (quiet (f s))"
  by (cases evs) (auto simp: io_bind_def call_after sound_events_def)

lemma sid_max_pos: "sid_max \<noteq> (0, 0)"
  by (simp add: sid_max_def)

lemma bounded_replay_Nil: "bounded_replay m [] \<longleftrightarrow> scores_bounded m"
  by (simp add: bounded_replay_def)

subsection \<open>Increments folded twice\<close>

lemma increments_add:
  assumes "\<forall>e \<in> set evs. ev_type e = event_increment"
  shows "foldl replay1 m evs p = (case foldl replay1 Map.empty evs p of None \<Rightarrow> m p
    | Some n \<Rightarrow> Some ((case m p of None \<Rightarrow> 0 | Some c \<Rightarrow> c) + n))"
  using assms
proof (induction evs arbitrary: p rule: rev_induct)
  case (snoc e evs)
  have ty: "ev_type e \<noteq> event_set" using snoc.prems by (simp add: event_set_def event_increment_def)
  have IH: "foldl replay1 m evs p = (case foldl replay1 Map.empty evs p of None \<Rightarrow> m p
      | Some n \<Rightarrow> Some ((case m p of None \<Rightarrow> 0 | Some c \<Rightarrow> c) + n))" for p using snoc by simp
  have step: "replay1 k e q = (if q = ev_player e
      then Some ((case k q of None \<Rightarrow> 0 | Some c \<Rightarrow> c) + ev_amount e) else k q)" for k q
    using ty by (simp add: replay1_def)
  show ?case unfolding foldl_append foldl.simps step using IH [of p] by (auto split: option.splits)
qed simp

lemma increments_twice:
  assumes "\<forall>e \<in> set evs. ev_type e = event_increment"
  shows "replay (evs @ evs) p = map_option ((*) 2) (replay evs p)"
  using increments_add [OF assms, of "replay evs" p] by (simp add: replay_def split: option.splits)

subsection \<open>The race\<close>

definition second_rebuild :: "ext \<Rightarrow> 's redis \<Rightarrow> string \<Rightarrow> 's \<Rightarrow> 's" where
  "second_rebuild X R b s = srv (snd (rebuild_projection X R b (quiet s)))"

definition race :: "ext \<Rightarrow> 's redis \<Rightarrow> string \<Rightarrow> 's xch list" where
  "race X R b = [Xch [] None, Xch [] None, Xch [] None, Xch [second_rebuild X R b] None]"

context redis_server
begin

lemma second_rebuild_run:
  assumes "view s (board_profile_key b) \<noteq> None" "as_stream (view s ledger_key) = Some es" "ledger_wf X es"
  shows "fst (rebuild_projection X R b (quiet s)) = Inr ()"
    and "k \<noteq> leaderboard_key b \<Longrightarrow> view (second_rebuild X R b s) k = view s k"
    and "projection_ok (view (second_rebuild X R b s)) (leaderboard_key b) (board_scores X b es)"
proof -
  from doc_rebuild [OF assms, of "(0, 1)"] obtain ks where ks:
    "rebuild_projection X (doc_redis (0, 1)) b (quiet (view s)) = (Inr (), quiet ks)"
    "\<forall>k. k \<noteq> leaderboard_key b \<longrightarrow> ks k = view s k" "projection_ok ks (leaderboard_key b) (board_scores X b es)" by blast
  from qsim_result [OF qsim_rebuild ks(1)] ks(2,3)
  show "fst (rebuild_projection X R b (quiet s)) = Inr ()"
    "k \<noteq> leaderboard_key b \<Longrightarrow> view (second_rebuild X R b s) k = view s k"
    "projection_ok (view (second_rebuild X R b s)) (leaderboard_key b) (board_scores X b es)"
    by (auto simp: second_rebuild_def)
qed

text \<open>The first rebuild up to the moment its first write is sent.\<close>

lemma rebuild_until_drop:
  assumes "view s (board_profile_key b) \<noteq> None" "as_stream (view s ledger_key) = Some es" "ledger_wf X es"
    and "board_events X b es \<noteq> []"
  obtains s3 where "view s3 = (view s)(leaderboard_key b := None)"
    "rebuild_projection X R b \<lparr>srv = s, net = race X R b\<rparr> =
      fold_events R (leaderboard_key b) (board_events X b es) (quiet (second_rebuild X R b s3))"
proof -
  let ?f = "[Xch [second_rebuild X R b] None]" and ?D = "doc_redis (0, 1)"
  have st: "stream_ok es" "\<forall>e \<in> set es. \<exists>ev. entry_to_event X (to_msg e) = Inr ev"
    using assms(3) by (simp_all add: ledger_wf_def ledger_sound_def)
  have "obs view (exists_c R (board_profile_key b) s) = (Inr 1, view s)"
    using law_exists [of "board_profile_key b" s "(0, 1)"] assms(1) by (simp add: doc_cmds)
  from call_still_obs [where c = "exists_c R (board_profile_key b)" and v = view, OF this, of "[Xch [] None, Xch [] None] @ ?f"] obtain s1 where
    s1: "require_board R b \<lparr>srv = s, net = race X R b\<rparr> = (Inr (), \<lparr>srv = s1, net = [Xch [] None, Xch [] None] @ ?f\<rparr>)"
      "view s1 = view s"
    by (auto simp: require_board_def io_bind_def race_def)
  have "obs view (xrange_c R ledger_key ''-'' ''+'' None s1) = (Inr (map to_msg es), view s)"
    using law_xrange [of "''-''" "(False, (0, 0))" "''+''" "(False, sid_max)" None ledger_key s1 "(0, 1)"]
      assms(2) st(1) s1(2) sid_max_pos by (simp add: doc_cmds limit_count_def)
  from call_still_obs [where c = "xrange_c R ledger_key ''-'' ''+'' None" and v = view, OF this, of "[Xch [] None] @ ?f"] obtain s2 where
    s2: "read_board_events X R b \<lparr>srv = s1, net = [Xch [] None, Xch [] None] @ ?f\<rparr> =
        (Inr (board_events X b es), \<lparr>srv = s2, net = [Xch [] None] @ ?f\<rparr>)" "view s2 = view s"
    by (auto simp: read_board_events_def io_bind_def board_events_of_ledger [OF st(2)])
  have "obs view (del_c R (leaderboard_key b) s2) =
      (Inr (if view s (leaderboard_key b) = None then 0 else 1), (view s)(leaderboard_key b := None))"
    using law_del [of "leaderboard_key b" s2 "(0, 1)"] s2(2) by (simp add: doc_cmds)
  from call_still_obs [where c = "del_c R (leaderboard_key b)" and v = view, OF this, of ?f] obtain s3 n where
    s3: "call (del_c R (leaderboard_key b)) \<lparr>srv = s2, net = [Xch [] None] @ ?f\<rparr> = (Inr n, \<lparr>srv = s3, net = ?f\<rparr>)"
      "view s3 = (view s)(leaderboard_key b := None)" by auto
  have "rebuild_projection X R b \<lparr>srv = s, net = race X R b\<rparr> =
      fold_events R (leaderboard_key b) (board_events X b es) \<lparr>srv = s3, net = ?f\<rparr>"
    by (simp only: rebuild_projection_def fold_into_def io_bind_def s1(1) s2(1) s3(1) prod.case sum.case)
  also have "\<dots> = fold_events R (leaderboard_key b) (board_events X b es) (quiet (second_rebuild X R b s3))"
    by (rule fold_events_after [OF assms(4) board_events_sound])
  finally show thesis using that s3(2) by blast
qed

theorem racing_rebuilds:
  assumes "view s (board_profile_key b) \<noteq> None" "as_stream (view s ledger_key) = Some es" "ledger_wf X es"
    and "board_events X b es \<noteq> []" and "bounded_replay (board_scores X b es) (board_events X b es)"
  shows "\<exists>s3 s'. view s3 = (view s)(leaderboard_key b := None) \<and>
    fst (rebuild_projection X R b (quiet s3)) = Inr () \<and>
    rebuild_projection X R b \<lparr>srv = s, net = race X R b\<rparr> = (Inr (), quiet s') \<and>
    (\<forall>k. k \<noteq> leaderboard_key b \<longrightarrow> view s' k = view s k) \<and>
    projection_ok (view s') (leaderboard_key b) (replay (board_events X b es @ board_events X b es))"
proof -
  let ?evs = "board_events X b es"
  obtain s3 where s3: "view s3 = (view s)(leaderboard_key b := None)" "rebuild_projection X R b \<lparr>srv = s, net = race X R b\<rparr> =
      fold_events R (leaderboard_key b) ?evs (quiet (second_rebuild X R b s3))"
    using rebuild_until_drop [OF assms(1-4)] by blast
  then have "view s3 (board_profile_key b) \<noteq> None" "as_stream (view s3 ledger_key) = Some es" using assms(1,2) by simp_all
  note second = second_rebuild_run [OF this assms(3)]
  from second(3) obtain z where "as_zset (view (second_rebuild X R b s3) (leaderboard_key b)) = Some z" "z_ok z"
    "z_map z = as_scores (board_scores X b es)" by (auto simp: projection_ok_def)
  from doc_fold_events [where dest = "leaderboard_key b" and ks = "view (second_rebuild X R b s3)", OF board_events_sound assms(5) this, of "(0, 1)"] obtain ks' where ks':
    "fold_events (doc_redis (0, 1)) (leaderboard_key b) ?evs (quiet (view (second_rebuild X R b s3))) = (Inr (), quiet ks')"
    "\<forall>k. k \<noteq> leaderboard_key b \<longrightarrow> ks' k = view (second_rebuild X R b s3) k"
    "projection_ok ks' (leaderboard_key b) (replay (?evs @ ?evs))"
    by (auto simp: board_scores_def replay_def)
  from qsim_result [OF qsim_fold_events ks'(1)] ks'(2,3) s3 second(1,2) show ?thesis by fastforce
qed

end

end
