(* ===== verification/Http.thy ===== *)
theory Http
  imports ScoreRepo ApexTime
begin

section \<open>Requests, responses and the shared helpers of \<open>handlers/handler.go\<close>\<close>

text \<open>
  A request carries its path values, query, headers, body and the id the middleware put in its
  context; a response is what a handler hands to \<open>httputils\<close> or to the writer: status, headers it
  sets and the value to encode. \<open>httputils\<close> itself is not part of the repository: its query and body
  parsers are the parameters in \<open>http_ext\<close>. A handler is a state transformer that ends in a response
  or, on a Go panic, in none.
\<close>

record request =
  rq_method :: string
  rq_path :: string
  rq_values :: "string \<Rightarrow> string"
  rq_query :: "string \<rightharpoonup> string list"
  rq_headers :: "string \<rightharpoonup> string list"
  rq_body :: string
  rq_context_id :: string
  rq_remote :: string

datatype herr = MaxBytesError | DomainErr verr | ScoreErr int | LibErr string | MsgErr string | StorageErr serr

record http_ext =
  parse_int_query :: "request \<Rightarrow> string \<Rightarrow> int \<Rightarrow> int \<Rightarrow> int \<Rightarrow> herr + int"
  read_json_int :: "request \<Rightarrow> string \<Rightarrow> int \<Rightarrow> herr + int option"
  read_json_text :: "request \<Rightarrow> string list \<Rightarrow> int \<Rightarrow> herr + (string \<Rightarrow> string)"

subsection \<open>Response values\<close>

record offset_meta =
  om_limit :: int
  om_offset :: int
  om_total :: int

record cursor_meta =
  cm_limit :: int
  cm_next_after :: string

record score_entry =
  sc_player :: string
  sc_score :: int
  sc_rank :: int

record score_event =
  se_id :: string
  se_type :: string
  se_player :: string
  se_board :: string
  se_amount :: int
  se_request :: string
  se_created :: string

record board_resp =
  br_id :: string
  br_name :: string
  br_state :: string
  br_created :: string

record player_resp =
  pr_id :: string
  pr_name :: string

record mismatch_resp =
  mr_board :: string
  mr_player :: string
  mr_live :: f64
  mr_live_present :: bool
  mr_replay :: f64
  mr_replay_present :: bool

record health_resp =
  hl_status :: string
  hl_dependency :: string

datatype body =
    NoBody
  | ErrorBody herr
  | RootText string
  | HistoryResp string "score_event list" int
  | ListScoresResp "score_entry list" offset_meta
  | RankResp score_entry int
  | ListEventsResp "score_event list" cursor_meta
  | GetBoardResp board_resp
  | ListBoardsResp "board_resp list"
  | CreatePlayerResp player_resp
  | GetPlayerResp player_resp
  | VerifyProjectionResp "mismatch_resp list"
  | ListDailyActivityResp string "(string \<times> int) list" int
  | HealthResp health_resp

record response =
  rs_status :: int
  rs_headers :: "(string \<times> string) list"
  rs_body :: body

definition write_json :: "int \<Rightarrow> body \<Rightarrow> response" where
  "write_json status b = \<lparr>rs_status = status, rs_headers = [], rs_body = b\<rparr>"

definition write_error :: "herr \<Rightarrow> int \<Rightarrow> response" where
  "write_error e status = \<lparr>rs_status = status, rs_headers = [], rs_body = ErrorBody e\<rparr>"

definition write_header :: "int \<Rightarrow> response" where
  "write_header status = \<lparr>rs_status = status, rs_headers = [], rs_body = NoBody\<rparr>"

lemma written_sel [simp]:
  "rs_status (write_json st b) = st" "rs_status (write_error e st) = st" "rs_status (write_header st) = st"
  "rs_body (write_json st b) = b" "rs_body (write_error e st) = ErrorBody e" "rs_body (write_header st) = NoBody"
  by (simp_all add: write_json_def write_error_def write_header_def)

subsection \<open>Reading the request\<close>

definition player_id_path_value :: string where "player_id_path_value = ''player_id''"
definition board_id_path_value :: string where "board_id_path_value = ''board_id''"
definition limit_query :: string where "limit_query = ''limit''"
definition offset_query :: string where "offset_query = ''offset''"
definition default_history_limit :: int where "default_history_limit = 50"
definition max_history_limit :: int where "max_history_limit = 100"
definition default_list_limit :: int where "default_list_limit = 10"
definition max_list_limit :: int where "max_list_limit = 100"
definition max_request_body_bytes :: int where "max_request_body_bytes = 2 ^ 16"
definition idempotency_key_header :: string where "idempotency_key_header = ''Idempotency-Key''"
definition max_idempotency_key_len :: int where "max_idempotency_key_len = 128"

lemmas limit_defs = default_history_limit_def max_history_limit_def default_list_limit_def max_list_limit_def

text \<open>\<open>Header.Get\<close> and \<open>Values.Get\<close>: the first value, or the empty string.\<close>

definition first_value :: "(string \<rightharpoonup> string list) \<Rightarrow> string \<Rightarrow> string" where
  "first_value m k = (case m k of Some (v # _) \<Rightarrow> v | _ \<Rightarrow> [])"

text \<open>
  Package \<open>requestid\<close>: the id in the request's context, empty when the middleware did not run, and the
  attributes the log takes from it. \<open>fresh\<close> is the id \<open>requestid.New\<close> generates.
\<close>

definition with_id :: "string \<Rightarrow> request \<Rightarrow> request" where
  "with_id i rq = rq\<lparr>rq_context_id := i\<rparr>"

definition from_context :: "request \<Rightarrow> string" where
  "from_context rq = rq_context_id rq"

definition request_log_attrs :: "request \<Rightarrow> (string \<times> string) list" where
  "request_log_attrs rq = (if from_context rq \<noteq> [] then [(''request_id'', from_context rq)] else [])"

definition request_id :: "string \<Rightarrow> request \<Rightarrow> string" where
  "request_id fresh rq = (if from_context rq \<noteq> [] then from_context rq else fresh)"

lemma from_context_sel [simp]: "from_context rq = rq_context_id rq" "from_context (with_id i rq) = i"
  by (simp_all add: from_context_def with_id_def)

lemma request_log_attrs_with_id: "i \<noteq> [] \<Longrightarrow> request_log_attrs (with_id i rq) = [(''request_id'', i)]"
  by (simp add: request_log_attrs_def with_id_def)

definition read_idempotency_key :: "request \<Rightarrow> herr + string" where
  "read_idempotency_key rq =
     (if rq_headers rq idempotency_key_header = None then Inr []
      else let key = first_value (rq_headers rq) idempotency_key_header
        in if key = [] then Inl (MsgErr (idempotency_key_header @ '' must not be empty''))
           else if max_idempotency_key_len < int (length key)
           then Inl (MsgErr (idempotency_key_header @ '' must be at most '' @
                  format_int max_idempotency_key_len @ '' characters''))
           else Inr key)"

definition parse_date_query :: "request \<Rightarrow> string \<Rightarrow> herr + time" where
  "parse_date_query rq name =
     (let raw = first_value (rq_query rq) name
      in case parse_date raw of
           None \<Rightarrow> Inl (MsgErr (''invalid query param, want YYYY-MM-DD; param '' @ [CHR 0x27] @ name @
             [CHR 0x27] @ '', value '' @ [CHR 0x27] @ raw @ [CHR 0x27]))
         | Some date \<Rightarrow> Inr date)"

definition board_id_from_path :: "ext \<Rightarrow> request \<Rightarrow> herr + string" where
  "board_id_from_path X rq =
     (let board_id = rq_values rq board_id_path_value
      in if board_id_validate X board_id then Inr board_id else Inl (DomainErr BadBoardId))"

definition player_id_from_path :: "ext \<Rightarrow> request \<Rightarrow> herr + string" where
  "player_id_from_path X rq =
     (let player_id = rq_values rq player_id_path_value
      in if player_id_validate X player_id then Inr player_id else Inl (DomainErr BadPlayerId))"

definition score_guard :: "int \<Rightarrow> herr + unit" where
  "score_guard v = (if score_validate v then Inr () else Inl (ScoreErr v))"

subsection \<open>Writing errors\<close>

definition write_request_error :: "herr \<Rightarrow> response" where
  "write_request_error e =
     (if e = MaxBytesError then write_error (MsgErr ''request body too large'') 413
      else write_error e 400)"

definition write_storage_error :: "serr \<Rightarrow> response" where
  "write_storage_error e =
     (case e of
        ErrNotFound \<Rightarrow> write_error (MsgErr ''not found'') 404
      | ErrBoardNotFound \<Rightarrow> write_error (MsgErr ''board not found'') 404
      | ErrBoardExists \<Rightarrow> write_error (MsgErr ''board already exists'') 409
      | ErrBoardClosed \<Rightarrow> write_error (MsgErr ''board closed'') 409
      | ErrIdempotencyConflict \<Rightarrow> write_error (MsgErr ''idempotency key reused with a different request'') 409
      | ErrScoreOutOfRange \<Rightarrow> write_error (MsgErr ''resulting score must be in [-1e13, 1e13]'') 409
      | _ \<Rightarrow> write_error (StorageErr e) 500)"

lemma request_error_status: "rs_status (write_request_error e) = 400 \<or> rs_status (write_request_error e) = 413"
  by (simp add: write_request_error_def)

subsection \<open>Composing a handler\<close>

type_synonym 's act = "'s world \<Rightarrow> response option \<times> 's world"

definition answer :: "response \<Rightarrow> 's act" where
  "answer r = (\<lambda>w. (Some r, w))"

text \<open>An early return with a request error, or the rest of the handler.\<close>

definition checked :: "herr + 'a \<Rightarrow> ('a \<Rightarrow> 's act) \<Rightarrow> 's act" where
  "checked e f = (case e of Inl x \<Rightarrow> answer (write_request_error x) | Inr v \<Rightarrow> f v)"

text \<open>A storage call: its error as a response, a panic as none.\<close>

definition stored :: "('s, 'a) go \<Rightarrow> ('a \<Rightarrow> response) \<Rightarrow> 's act" where
  "stored m f w =
     (case m w of
        (Inl e, w') \<Rightarrow> (if e = Panic then None else Some (write_storage_error e), w')
      | (Inr v, w') \<Rightarrow> (Some (f v), w'))"

lemma checked_simps [simp]:
  "checked (Inl x) f = answer (write_request_error x)" "checked (Inr v) f = f v"
  by (simp_all add: checked_def)

lemma answer_apply [simp]: "answer r w = (Some r, w)"
  by (simp add: answer_def)

lemma stored_run:
  "m w = (Inl e, w') \<Longrightarrow> stored m f w = (if e = Panic then None else Some (write_storage_error e), w')"
  "m w = (Inr v, w') \<Longrightarrow> stored m f w = (Some (f v), w')"
  by (simp_all add: stored_def)

lemma snd_stored: "snd (stored m f w) = snd (m w)"
  by (simp add: stored_def split: prod.splits sum.splits)

text \<open>A handler that answers a request error has not touched the world.\<close>

definition request_error :: "response option \<Rightarrow> bool" where
  "request_error r \<longleftrightarrow> (\<exists>x. r = Some x \<and> (rs_status x = 400 \<or> rs_status x = 413))"

definition pure_on_request_error :: "'s act \<Rightarrow> bool" where
  "pure_on_request_error a \<longleftrightarrow> (\<forall>w. request_error (fst (a w)) \<longrightarrow> snd (a w) = w)"

lemma pure_answer [intro!, simp]: "pure_on_request_error (answer r)"
  by (simp add: pure_on_request_error_def)

lemma pure_checked [intro]: "(\<And>v. pure_on_request_error (f v)) \<Longrightarrow> pure_on_request_error (checked e f)"
  by (cases e) simp_all

lemma storage_error_status:
  "rs_status (write_storage_error e) = 404 \<or> rs_status (write_storage_error e) = 409 \<or> rs_status (write_storage_error e) = 500"
  by (cases e) (simp_all add: write_storage_error_def)

lemma pure_stored [intro]:
  assumes "\<And>v. rs_status (f v) \<noteq> 400 \<and> rs_status (f v) \<noteq> 413"
  shows "pure_on_request_error (stored m f)"
proof -
  have "\<not> request_error (fst (stored m f w))" for w
    using assms storage_error_status [of "projl (fst (m w))"]
    by (auto simp: stored_def request_error_def split: prod.splits sum.splits if_splits)
  then show ?thesis by (simp add: pure_on_request_error_def)
qed

end
