(* ===== verification/Handlers.thy ===== *)
theory Handlers
  imports Http BoardPlayer ProjectionAdmin LedgerConsumers
begin

section \<open>The HTTP handlers (package \<open>handlers\<close>)\<close>

text \<open>
  One definition per handler, its guards in the order of the code, over the server \<open>R\<close>, the
  validators \<open>X\<close> and the query and body parsers \<open>H\<close>; generated ids and the clock are arguments.
\<close>

subsection \<open>Scores (\<open>score_handler.go\<close>)\<close>

definition as_of_query :: string where "as_of_query = ''as_of''"

definition required_int :: "string \<Rightarrow> int option \<Rightarrow> herr + int" where
  "required_int name v = (case v of None \<Rightarrow> Inl (MsgErr (name @ '' is required'')) | Some n \<Rightarrow> Inr n)"

definition handle_set_score :: "http_ext \<Rightarrow> ext \<Rightarrow> 's redis \<Rightarrow> string \<Rightarrow> request \<Rightarrow> 's act" where
  "handle_set_score H X R fresh rq =
     checked (board_id_from_path X rq) (\<lambda>board_id.
     checked (player_id_from_path X rq) (\<lambda>player_id.
     checked (read_idempotency_key rq) (\<lambda>idemp_key.
     checked (read_json_int H rq ''player_score'' max_request_body_bytes) (\<lambda>data.
     checked (required_int ''player_score'' data) (\<lambda>v.
     checked (score_guard v) (\<lambda>_.
       stored (set_score R player_id board_id v (request_id fresh rq) idemp_key)
         (\<lambda>_. write_header 204)))))))"

definition handle_increment_score :: "http_ext \<Rightarrow> ext \<Rightarrow> 's redis \<Rightarrow> string \<Rightarrow> request \<Rightarrow> 's act" where
  "handle_increment_score H X R fresh rq =
     checked (board_id_from_path X rq) (\<lambda>board_id.
     checked (player_id_from_path X rq) (\<lambda>player_id.
     checked (read_idempotency_key rq) (\<lambda>idemp_key.
     checked (read_json_int H rq ''amount'' max_request_body_bytes) (\<lambda>data.
     checked (required_int ''amount'' data) (\<lambda>v.
     checked (score_guard v) (\<lambda>_.
       stored (increment_score R player_id board_id v (request_id fresh rq) idemp_key)
         (\<lambda>_. write_header 204)))))))"

definition handle_get_rank :: "ext \<Rightarrow> 's redis \<Rightarrow> request \<Rightarrow> 's act" where
  "handle_get_rank X R rq =
     checked (board_id_from_path X rq) (\<lambda>board_id.
     checked (player_id_from_path X rq) (\<lambda>player_id.
       stored (get_standing R player_id board_id) (\<lambda>(standing, total).
         write_json 200 (RankResp \<lparr>sc_player = player_id, sc_score = st_score standing,
           sc_rank = st_rank standing\<rparr> total))))"

definition score_entry_of :: "standing \<Rightarrow> score_entry" where
  "score_entry_of s = \<lparr>sc_player = st_player s, sc_score = st_score s, sc_rank = st_rank s\<rparr>"

definition list_scores_resp :: "int \<Rightarrow> int \<Rightarrow> standing list \<times> int \<Rightarrow> response" where
  "list_scores_resp limit offset page =
     write_json 200 (ListScoresResp (map score_entry_of (fst page))
       \<lparr>om_limit = limit, om_offset = offset, om_total = snd page\<rparr>)"

definition start_of_day :: "time \<Rightarrow> time" where
  "start_of_day t = t - t mod day_ns"

text \<open>\<open>now\<close> is what \<open>apextime.Now()\<close> returns when the future is ruled out.\<close>

definition handle_list_scores :: "http_ext \<Rightarrow> ext \<Rightarrow> 's redis \<Rightarrow> time \<Rightarrow> request \<Rightarrow> 's act" where
  "handle_list_scores H X R now rq =
     checked (board_id_from_path X rq) (\<lambda>board_id.
     checked (parse_int_query H rq limit_query default_list_limit 1 max_list_limit) (\<lambda>limit.
     checked (parse_int_query H rq offset_query 0 0 0) (\<lambda>offset.
       if rq_query rq as_of_query = None
       then stored (list_standings R board_id limit offset) (list_scores_resp limit offset)
       else checked (parse_date_query rq as_of_query) (\<lambda>date.
         if start_of_day now < date
         then answer (write_request_error (MsgErr (as_of_query @ '' must not be in the future'')))
         else stored (list_standings_as_of X R board_id (date + day_ns) limit offset)
           (list_scores_resp limit offset)))))"

definition score_event_from_ledger :: "event \<Rightarrow> score_event" where
  "score_event_from_ledger e = \<lparr>se_id = ev_id e, se_type = ev_type e, se_player = ev_player e,
     se_board = ev_board e, se_amount = ev_amount e, se_request = ev_request e,
     se_created = format_time (ev_created e)\<rparr>"

definition handle_get_history :: "http_ext \<Rightarrow> ext \<Rightarrow> 's redis \<Rightarrow> request \<Rightarrow> 's act" where
  "handle_get_history H X R rq =
     checked (board_id_from_path X rq) (\<lambda>board_id.
     checked (player_id_from_path X rq) (\<lambda>player_id.
     checked (parse_int_query H rq limit_query default_history_limit 1 max_history_limit) (\<lambda>limit.
       stored (player_history X R player_id board_id limit) (\<lambda>events.
         write_json 200 (HistoryResp player_id (map score_event_from_ledger events) limit)))))"

subsection \<open>The event feed (\<open>event_handler.go\<close>)\<close>

definition after_query :: string where "after_query = ''after''"
definition default_event_limit :: int where "default_event_limit = 50"
definition max_event_limit :: int where "max_event_limit = 100"

definition validate_event_id :: "string \<Rightarrow> string option" where
  "validate_event_id i =
     (case cut_at (CHR ''-'') i of
        None \<Rightarrow> Some ''want <milliseconds>-<sequence>''
      | Some (milliseconds, sequence) \<Rightarrow>
          if milliseconds = [] \<or> sequence = [] then Some ''want <milliseconds>-<sequence>''
          else if parse_uint64 milliseconds = None then Some ''invalid milliseconds''
          else if parse_uint64 sequence = None then Some ''invalid sequence''
          else None)"

definition list_events_resp :: "string \<Rightarrow> int \<Rightarrow> event list \<Rightarrow> response" where
  "list_events_resp after limit events =
     write_json 200 (ListEventsResp (map score_event_from_ledger events)
       \<lparr>cm_limit = limit, cm_next_after = (if events = [] then after else ev_id (last events))\<rparr>)"

definition handle_list_events :: "http_ext \<Rightarrow> ext \<Rightarrow> 's redis \<Rightarrow> request \<Rightarrow> 's act" where
  "handle_list_events H X R rq =
     (let after = first_value (rq_query rq) after_query
      in if after = [] then answer (write_request_error (MsgErr (after_query @ '' is required'')))
         else case validate_event_id after of
           Some e \<Rightarrow> answer (write_request_error (MsgErr (''invalid '' @ after_query @ '': '' @ e)))
         | None \<Rightarrow>
             checked (parse_int_query H rq limit_query default_event_limit 1 max_event_limit) (\<lambda>limit.
               stored (list_events_after X R after limit) (list_events_resp after limit)))"

subsection \<open>Boards (\<open>board_handler.go\<close>)\<close>

definition board_to_resp :: "board \<Rightarrow> board_resp" where
  "board_to_resp b = \<lparr>br_id = bd_id b, br_name = bd_name b, br_state = bd_state b,
     br_created = format_time (bd_created b)\<rparr>"

definition domain :: "verr + 'a \<Rightarrow> herr + 'a" where
  "domain r = (case r of Inl e \<Rightarrow> Inl (DomainErr e) | Inr v \<Rightarrow> Inr v)"

definition handle_create_board :: "http_ext \<Rightarrow> ext \<Rightarrow> 's redis \<Rightarrow> time \<Rightarrow> request \<Rightarrow> 's act" where
  "handle_create_board H X R now rq =
     checked (board_id_from_path X rq) (\<lambda>board_id.
     checked (read_json_text H rq [''board_name'', ''status''] max_request_body_bytes) (\<lambda>data.
     checked (domain (new_board X now board_id (data ''board_name'') (data ''status''))) (\<lambda>new.
       stored (create_board R new) (\<lambda>_.
         \<lparr>rs_status = 201, rs_headers = [(''Location'', ''/api/v1/boards/'' @ board_id)], rs_body = NoBody\<rparr>))))"

definition handle_get_board :: "ext \<Rightarrow> 's redis \<Rightarrow> request \<Rightarrow> 's act" where
  "handle_get_board X R rq =
     checked (board_id_from_path X rq) (\<lambda>board_id.
       stored (get_board R board_id) (\<lambda>b. write_json 200 (GetBoardResp (board_to_resp b))))"

definition handle_list_boards :: "'s redis \<Rightarrow> request \<Rightarrow> 's act" where
  "handle_list_boards R rq =
     stored (list_boards R) (\<lambda>boards. write_json 200 (ListBoardsResp (map board_to_resp boards)))"

definition handle_set_state :: "ext \<Rightarrow> 's redis \<Rightarrow> string \<Rightarrow> request \<Rightarrow> 's act" where
  "handle_set_state X R state rq =
     checked (board_id_from_path X rq) (\<lambda>board_id.
       stored (set_board_state R board_id state) (\<lambda>_. write_header 204))"

definition handle_close_board :: "ext \<Rightarrow> 's redis \<Rightarrow> request \<Rightarrow> 's act" where
  "handle_close_board X R rq = handle_set_state X R board_closed rq"

definition handle_open_board :: "ext \<Rightarrow> 's redis \<Rightarrow> request \<Rightarrow> 's act" where
  "handle_open_board X R rq = handle_set_state X R board_active rq"

subsection \<open>Players (\<open>player_handler.go\<close>)\<close>

definition handle_create_player :: "http_ext \<Rightarrow> ext \<Rightarrow> 's redis \<Rightarrow> string \<Rightarrow> time \<Rightarrow> request \<Rightarrow> 's act" where
  "handle_create_player H X R uid now rq =
     checked (read_idempotency_key rq) (\<lambda>idemp_key.
     checked (read_json_text H rq [''player_name''] max_request_body_bytes) (\<lambda>data.
     checked (domain (new_profile X uid now (data ''player_name''))) (\<lambda>pf.
       stored (create_player_profile R pf idemp_key) (\<lambda>player_id.
         \<lparr>rs_status = 201, rs_headers = [(''Location'', ''/api/v1/players/'' @ player_id)],
          rs_body = CreatePlayerResp \<lparr>pr_id = player_id, pr_name = pf_name pf\<rparr>\<rparr>))))"

definition handle_get_player :: "ext \<Rightarrow> 's redis \<Rightarrow> request \<Rightarrow> 's act" where
  "handle_get_player X R rq =
     checked (player_id_from_path X rq) (\<lambda>player_id.
       stored (get_player_profile R player_id) (\<lambda>pf.
         write_json 200 (GetPlayerResp \<lparr>pr_id = pf_id pf, pr_name = pf_name pf\<rparr>)))"

subsection \<open>Administration (\<open>admin_handler.go\<close>)\<close>

definition handle_rebuild_projection :: "ext \<Rightarrow> 's redis \<Rightarrow> request \<Rightarrow> 's act" where
  "handle_rebuild_projection X R rq =
     checked (board_id_from_path X rq) (\<lambda>board_id.
       stored (rebuild_projection X R board_id) (\<lambda>_. write_header 204))"

definition mismatch_to_resp :: "score_mismatch \<Rightarrow> mismatch_resp" where
  "mismatch_to_resp m = \<lparr>mr_board = mm_board m, mr_player = mm_player m, mr_live = mm_live m,
     mr_live_present = mm_live_present m, mr_replay = mm_replay m, mr_replay_present = mm_replay_present m\<rparr>"

definition handle_verify_projection :: "ext \<Rightarrow> 's redis \<Rightarrow> request \<Rightarrow> 's act" where
  "handle_verify_projection X R rq =
     checked (board_id_from_path X rq) (\<lambda>board_id.
       stored (verify_projection X R board_id) (\<lambda>mismatches.
         write_json 200 (VerifyProjectionResp (map mismatch_to_resp mismatches))))"

subsection \<open>Daily activity, health, root\<close>

definition date_query :: string where "date_query = ''date''"
definition default_activity_limit :: int where "default_activity_limit = 10"
definition max_activity_limit :: int where "max_activity_limit = 100"

definition handle_list_daily_activity :: "http_ext \<Rightarrow> 's redis \<Rightarrow> request \<Rightarrow> 's act" where
  "handle_list_daily_activity H R rq =
     (let date = first_value (rq_query rq) date_query
      in if date = [] then answer (write_request_error (MsgErr (date_query @ '' is required'')))
         else checked (parse_date_query rq date_query) (\<lambda>_.
           checked (parse_int_query H rq limit_query default_activity_limit 1 max_activity_limit) (\<lambda>limit.
             stored (list_daily_activity R date limit) (\<lambda>entries.
               write_json 200 (ListDailyActivityResp date entries limit)))))"

definition handle_live :: "request \<Rightarrow> 's act" where
  "handle_live rq = answer (write_json 200 (HealthResp \<lparr>hl_status = ''ok'', hl_dependency = []\<rparr>))"

text \<open>\<open>ping\<close> is what the client's PING returns within the readiness timeout.\<close>

definition handle_ready :: "('s, unit) go \<Rightarrow> request \<Rightarrow> 's act" where
  "handle_ready ping rq w =
     (case ping w of
        (Inl _, w') \<Rightarrow> (Some (write_json 503 (HealthResp \<lparr>hl_status = ''unavailable'', hl_dependency = ''redis''\<rparr>)), w')
      | (Inr _, w') \<Rightarrow> (Some (write_json 200 (HealthResp \<lparr>hl_status = ''ok'', hl_dependency = []\<rparr>)), w'))"

definition handle_root :: "string \<Rightarrow> request \<Rightarrow> 's act" where
  "handle_root version rq = answer (write_json 200 (RootText (''apex version '' @ version)))"

subsection \<open>Request errors come before any call to the server\<close>

lemmas handler_defs = handle_set_score_def handle_increment_score_def handle_get_rank_def handle_list_scores_def
  handle_get_history_def handle_list_events_def handle_create_board_def handle_get_board_def
  handle_list_boards_def handle_set_state_def handle_close_board_def handle_open_board_def
  handle_create_player_def handle_get_player_def handle_rebuild_projection_def
  handle_verify_projection_def handle_list_daily_activity_def handle_live_def handle_root_def

lemma handlers_pure:
  "pure_on_request_error (handle_set_score H X R fresh rq)"
  "pure_on_request_error (handle_increment_score H X R fresh rq)"
  "pure_on_request_error (handle_get_rank X R rq)"
  "pure_on_request_error (handle_list_scores H X R now rq)"
  "pure_on_request_error (handle_get_history H X R rq)"
  "pure_on_request_error (handle_list_events H X R rq)"
  "pure_on_request_error (handle_create_board H X R now rq)"
  "pure_on_request_error (handle_get_board X R rq)"
  "pure_on_request_error (handle_list_boards R rq)"
  "pure_on_request_error (handle_close_board X R rq)"
  "pure_on_request_error (handle_open_board X R rq)"
  "pure_on_request_error (handle_create_player H X R fresh now rq)"
  "pure_on_request_error (handle_get_player X R rq)"
  "pure_on_request_error (handle_rebuild_projection X R rq)"
  "pure_on_request_error (handle_verify_projection X R rq)"
  "pure_on_request_error (handle_list_daily_activity H R rq)"
  by (auto simp: handler_defs Let_def list_scores_resp_def list_events_resp_def
      intro!: pure_checked pure_stored split: option.split)

end
