(* ===== verification/Routes.thy ===== *)
theory Routes
  imports Handlers
begin

section \<open>The route table (\<open>server/routes.go\<close>)\<close>

text \<open>
  The patterns of \<open>NewMux\<close> in the syntax of \<open>http.ServeMux\<close>, and how ServeMux reads them: a method
  (\<open>GET\<close> also serves \<open>HEAD\<close>), segments that are literals, wildcards for one non-empty segment, or
  \<open>{$}\<close> for the end of the path. Paths are taken clean and unescaped; the redirects ServeMux sends
  for others are not modelled.
\<close>

datatype route =
    RouteRoot | RouteLive | RouteReady | RouteCreatePlayer | RouteGetPlayer | RouteCreateBoard
  | RouteListBoards | RouteGetBoard | RouteCloseBoard | RouteOpenBoard | RouteSetScore
  | RouteIncrementScore | RouteListScores | RouteGetRank | RouteGetHistory | RouteListEvents
  | RouteRebuild | RouteVerify | RouteDailyActivity

definition new_mux :: "((string \<times> string) \<times> route) list" where
  "new_mux =
    [((''GET'', ''/{$}''), RouteRoot),
     ((''GET'', ''/livez''), RouteLive),
     ((''GET'', ''/readyz''), RouteReady),
     ((''POST'', ''/api/v1/players''), RouteCreatePlayer),
     ((''GET'', ''/api/v1/players/{player_id}''), RouteGetPlayer),
     ((''PUT'', ''/api/v1/boards/{board_id}''), RouteCreateBoard),
     ((''GET'', ''/api/v1/boards''), RouteListBoards),
     ((''GET'', ''/api/v1/boards/{board_id}''), RouteGetBoard),
     ((''POST'', ''/api/v1/boards/{board_id}/close''), RouteCloseBoard),
     ((''POST'', ''/api/v1/boards/{board_id}/open''), RouteOpenBoard),
     ((''PUT'', ''/api/v1/boards/{board_id}/scores/{player_id}''), RouteSetScore),
     ((''POST'', ''/api/v1/boards/{board_id}/scores/{player_id}/increment''), RouteIncrementScore),
     ((''GET'', ''/api/v1/boards/{board_id}/scores''), RouteListScores),
     ((''GET'', ''/api/v1/boards/{board_id}/scores/{player_id}''), RouteGetRank),
     ((''GET'', ''/api/v1/boards/{board_id}/scores/{player_id}/history''), RouteGetHistory),
     ((''GET'', ''/api/v1/events''), RouteListEvents),
     ((''POST'', ''/api/v1/admin/boards/{board_id}/projection/rebuild''), RouteRebuild),
     ((''GET'', ''/api/v1/admin/boards/{board_id}/projection/verify''), RouteVerify),
     ((''GET'', ''/api/v1/activity/daily''), RouteDailyActivity)]"

subsection \<open>Matching\<close>

fun split_on :: "char \<Rightarrow> string \<Rightarrow> string list" where
  "split_on c [] = [[]]"
| "split_on c (x # xs) =
     (if x = c then [] # split_on c xs
      else case split_on c xs of [] \<Rightarrow> [[x]] | s # ss \<Rightarrow> (x # s) # ss)"

datatype pattern_seg = PLit string | PWild string | PEnd

definition read_seg :: "string \<Rightarrow> pattern_seg" where
  "read_seg s =
     (if s = ''{$}'' then PEnd
      else if s \<noteq> [] \<and> hd s = CHR ''{'' then PWild (butlast (tl s)) else PLit s)"

definition pattern_segs :: "string \<Rightarrow> pattern_seg list" where
  "pattern_segs p = map read_seg (tl (split_on (CHR ''/'') p))"

fun match_segs :: "pattern_seg list \<Rightarrow> string list \<Rightarrow> (string \<times> string) list option" where
  "match_segs [] [] = Some []"
| "match_segs (PEnd # _) [s] = (if s = [] then Some [] else None)"
| "match_segs (PLit l # ps) (s # ss) = (if s = l then match_segs ps ss else None)"
| "match_segs (PWild v # ps) (s # ss) =
     (if s = [] then None else map_option (Cons (v, s)) (match_segs ps ss))"
| "match_segs _ _ = None"

definition method_matches :: "string \<Rightarrow> string \<Rightarrow> bool" where
  "method_matches pat m \<longleftrightarrow> pat = m \<or> pat = ''GET'' \<and> m = ''HEAD''"

definition path_matches :: "string list \<Rightarrow> ((string \<times> string) \<times> route) list" where
  "path_matches segs = filter (\<lambda>e. match_segs (pattern_segs (snd (fst e))) segs \<noteq> None) new_mux"

definition routes_for :: "string \<Rightarrow> string list \<Rightarrow> ((string \<times> string) \<times> route) list" where
  "routes_for m segs = filter (\<lambda>e. method_matches (fst (fst e)) m) (path_matches segs)"

datatype routed = Serve route "(string \<times> string) list" | MethodNotAllowed | NoRoute

definition route_request :: "string \<Rightarrow> string \<Rightarrow> routed" where
  "route_request m path =
     (let segs = tl (split_on (CHR ''/'') path)
      in case routes_for m segs of
           e # _ \<Rightarrow> Serve (snd e) (the (match_segs (pattern_segs (snd (fst e))) segs))
         | [] \<Rightarrow> if path_matches segs = [] then NoRoute else MethodNotAllowed)"

text \<open>The patterns, read.\<close>

lemma pattern_segs_mux:
  "pattern_segs ''/{$}'' = [PEnd]"
  "pattern_segs ''/livez'' = [PLit ''livez'']"
  "pattern_segs ''/readyz'' = [PLit ''readyz'']"
  "pattern_segs ''/api/v1/players'' = [PLit ''api'', PLit ''v1'', PLit ''players'']"
  "pattern_segs ''/api/v1/players/{player_id}'' = [PLit ''api'', PLit ''v1'', PLit ''players'', PWild ''player_id'']"
  "pattern_segs ''/api/v1/boards/{board_id}'' = [PLit ''api'', PLit ''v1'', PLit ''boards'', PWild ''board_id'']"
  "pattern_segs ''/api/v1/boards'' = [PLit ''api'', PLit ''v1'', PLit ''boards'']"
  "pattern_segs ''/api/v1/boards/{board_id}/close'' = [PLit ''api'', PLit ''v1'', PLit ''boards'', PWild ''board_id'', PLit ''close'']"
  "pattern_segs ''/api/v1/boards/{board_id}/open'' = [PLit ''api'', PLit ''v1'', PLit ''boards'', PWild ''board_id'', PLit ''open'']"
  "pattern_segs ''/api/v1/boards/{board_id}/scores/{player_id}'' = [PLit ''api'', PLit ''v1'', PLit ''boards'', PWild ''board_id'', PLit ''scores'', PWild ''player_id'']"
  "pattern_segs ''/api/v1/boards/{board_id}/scores/{player_id}/increment'' = [PLit ''api'', PLit ''v1'', PLit ''boards'', PWild ''board_id'', PLit ''scores'', PWild ''player_id'', PLit ''increment'']"
  "pattern_segs ''/api/v1/boards/{board_id}/scores'' = [PLit ''api'', PLit ''v1'', PLit ''boards'', PWild ''board_id'', PLit ''scores'']"
  "pattern_segs ''/api/v1/boards/{board_id}/scores/{player_id}/history'' = [PLit ''api'', PLit ''v1'', PLit ''boards'', PWild ''board_id'', PLit ''scores'', PWild ''player_id'', PLit ''history'']"
  "pattern_segs ''/api/v1/events'' = [PLit ''api'', PLit ''v1'', PLit ''events'']"
  "pattern_segs ''/api/v1/admin/boards/{board_id}/projection/rebuild'' = [PLit ''api'', PLit ''v1'', PLit ''admin'', PLit ''boards'', PWild ''board_id'', PLit ''projection'', PLit ''rebuild'']"
  "pattern_segs ''/api/v1/admin/boards/{board_id}/projection/verify'' = [PLit ''api'', PLit ''v1'', PLit ''admin'', PLit ''boards'', PWild ''board_id'', PLit ''projection'', PLit ''verify'']"
  "pattern_segs ''/api/v1/activity/daily'' = [PLit ''api'', PLit ''v1'', PLit ''activity'', PLit ''daily'']"
  by code_simp+

subsection \<open>The routes do not overlap\<close>

text \<open>Two patterns that some path matches at once: segment by segment compatible.\<close>

fun may_overlap :: "pattern_seg list \<Rightarrow> pattern_seg list \<Rightarrow> bool" where
  "may_overlap [] [] \<longleftrightarrow> True"
| "may_overlap (PEnd # _) (PEnd # _) \<longleftrightarrow> True"
| "may_overlap (PEnd # _) (PLit l # ps) \<longleftrightarrow> l = []"
| "may_overlap (PLit l # ps) (PEnd # _) \<longleftrightarrow> l = []"
| "may_overlap (PLit l # ps) (PLit m # qs) \<longleftrightarrow> l = m \<and> may_overlap ps qs"
| "may_overlap (PLit l # ps) (PWild v # qs) \<longleftrightarrow> may_overlap ps qs"
| "may_overlap (PWild v # ps) (PLit l # qs) \<longleftrightarrow> may_overlap ps qs"
| "may_overlap (PWild v # ps) (PWild u # qs) \<longleftrightarrow> may_overlap ps qs"
| "may_overlap _ _ \<longleftrightarrow> False"

lemma overlap: "match_segs ps ss \<noteq> None \<Longrightarrow> match_segs qs ss \<noteq> None \<Longrightarrow> may_overlap ps qs"
proof (induction ps ss arbitrary: qs rule: match_segs.induct)
  case (2 p s)
  then show ?case by (cases qs rule: list.exhaust; cases "hd qs") (auto split: if_splits)
next
  case (3 l ps s ss)
  then show ?case
    by (cases qs; cases "hd qs"; cases ss) (auto split: if_splits)
next
  case (4 v ps s ss)
  then show ?case
    by (cases qs; cases "hd qs"; cases ss) (auto split: if_splits)
qed (auto elim: match_segs.elims)

definition disjoint_routes :: "((string \<times> string) \<times> route) list \<Rightarrow> bool" where
  "disjoint_routes es \<longleftrightarrow>
     sorted_wrt (\<lambda>a b. fst (fst a) \<noteq> fst (fst b) \<or>
       \<not> may_overlap (pattern_segs (snd (fst a))) (pattern_segs (snd (fst b)))) es"

lemma new_mux_disjoint: "disjoint_routes new_mux"
  by code_simp

lemma new_mux_methods: "\<forall>e \<in> set new_mux. fst (fst e) \<in> {''GET'', ''POST'', ''PUT''}"
  by (simp add: new_mux_def)

text \<open>At most one pattern serves a request, so the order of the table does not matter.\<close>

lemma routes_unique: "length (routes_for m segs) \<le> 1"
proof (rule ccontr)
  assume "\<not> length (routes_for m segs) \<le> 1"
  then obtain a b es where es: "routes_for m segs = a # b # es"
    by (cases "routes_for m segs"; cases "tl (routes_for m segs)") auto
  have "sorted_wrt (\<lambda>a b. fst (fst a) \<noteq> fst (fst b) \<or>
      \<not> may_overlap (pattern_segs (snd (fst a))) (pattern_segs (snd (fst b)))) (routes_for m segs)"
    using new_mux_disjoint by (simp add: routes_for_def path_matches_def disjoint_routes_def sorted_wrt_filter)
  then have no: "fst (fst a) \<noteq> fst (fst b) \<or> \<not> may_overlap (pattern_segs (snd (fst a))) (pattern_segs (snd (fst b)))"
    by (simp add: es)
  have "a \<in> set (routes_for m segs)" "b \<in> set (routes_for m segs)" by (simp_all add: es)
  then have ab: "a \<in> set new_mux" "b \<in> set new_mux"
    "method_matches (fst (fst a)) m" "method_matches (fst (fst b)) m"
    "match_segs (pattern_segs (snd (fst a))) segs \<noteq> None" "match_segs (pattern_segs (snd (fst b))) segs \<noteq> None"
    by (simp_all add: routes_for_def path_matches_def)
  then have "fst (fst a) = fst (fst b)"
    using new_mux_methods by (fastforce simp: method_matches_def)
  with no overlap [OF ab(5,6)] show False by simp
qed

lemma split_on_append [simp]: "c \<notin> set a \<Longrightarrow> split_on c (a @ c # b) = a # split_on c b"
  by (induction a) auto

lemma split_on_none: "c \<notin> set a \<Longrightarrow> split_on c a = [a]"
  by (induction a) auto

end
