(* ===== verification/ApiFacts.thy ===== *)
theory ApiFacts
  imports Handlers HistoryRead WriteRuns
begin

section \<open>What the handlers make of the storage's behaviour\<close>

text \<open>
  The score handlers answer the status of the specification's decision and only send writes the
  storage lemmas cover; the event feed, followed by its cursor, enumerates the ledger; the dates of
  the time travel query.
\<close>

text \<open>Ids that pass the validators are not empty: the board id has at least three characters.\<close>

definition ids_nonempty :: "ext \<Rightarrow> bool" where
  "ids_nonempty X \<longleftrightarrow> \<not> strvalid_ok X board_id_config [] \<and> \<not> uuid_parse_ok X []"

subsection \<open>Score writes\<close>

text \<open>The guards of a write handler, with the values they pass on.\<close>

definition accepts_write :: "http_ext \<Rightarrow> ext \<Rightarrow> string \<Rightarrow> request \<Rightarrow> string \<Rightarrow> string \<Rightarrow> string \<Rightarrow> int \<Rightarrow> bool" where
  "accepts_write H X field rq b p idem n \<longleftrightarrow>
     board_id_from_path X rq = Inr b \<and> player_id_from_path X rq = Inr p \<and>
     read_idempotency_key rq = Inr idem \<and>
     read_json_int H rq field max_request_body_bytes = Inr (Some n) \<and> score_validate n"

definition handle_write :: "string \<Rightarrow> http_ext \<Rightarrow> ext \<Rightarrow> 's redis \<Rightarrow> string \<Rightarrow> request \<Rightarrow> 's act" where
  "handle_write op = (if op = event_set then handle_set_score else handle_increment_score)"

definition write_field :: "string \<Rightarrow> string" where
  "write_field op = (if op = event_set then ''player_score'' else ''amount'')"

lemma accepts_writable:
  assumes "accepts_write H X field rq b p idem n" "ids_nonempty X" "fresh \<noteq> []"
    "op = event_set \<or> op = event_increment"
  shows "writable X op p b n (request_id fresh rq)"
  using assms
  by (auto simp: accepts_write_def writable_def ids_nonempty_def board_id_from_path_def player_id_from_path_def
      board_id_validate_def player_id_validate_def request_id_def Let_def split: if_splits)

lemma handle_write_accepted:
  assumes "accepts_write H X (write_field op) rq b p idem n" "op = event_set \<or> op = event_increment"
  shows "handle_write op H X R fresh rq =
    stored (apply_event R op p b n (request_id fresh rq) idem) (\<lambda>_. write_header 204)"
  using assms
  by (auto simp: handle_write_def write_field_def accepts_write_def handle_set_score_def handle_increment_score_def
      required_int_def score_guard_def set_score_def increment_score_def)

text \<open>A request that no guard stops is accepted with some values; any other is answered at once.\<close>

lemma handle_write_cases:
  assumes "op = event_set \<or> op = event_increment"
  obtains (refused) e where "handle_write op H X R fresh rq = answer (write_request_error e)"
    | (accepted) b p idem n where "accepts_write H X (write_field op) rq b p idem n"
proof -
  have dest: "(\<exists>x. v = Inl x) \<or> (\<exists>y. v = Inr y)" for v :: "herr + 'z" by (cases v) auto
  show thesis
  proof (cases "\<exists>b p idem n. accepts_write H X (write_field op) rq b p idem n")
    case True
    then show ?thesis using accepted by blast
  next
    case False
    then have "\<exists>e. handle_write op H X R fresh rq = answer (write_request_error e)"
      using assms
      by (auto simp: handle_write_def write_field_def accepts_write_def handle_set_score_def handle_increment_score_def
          required_int_def score_guard_def checked_def split: sum.split option.split)
    then show ?thesis using refused by blast
  qed
qed

definition status_of :: "(int \<times> string) option \<Rightarrow> int" where
  "status_of d =
     (case d of
        None \<Rightarrow> 204
      | Some (code, _) \<Rightarrow>
          if code = apply_code_applied \<or> code = apply_code_deduped then 204
          else if code = apply_code_player_not_found \<or> code = apply_code_board_not_found then 404
          else 409)"

lemma reply_status:
  assumes "hashes_ok ks"
  shows "rs_status (case reply_of (decide m ks op p b n idem) of Inl e \<Rightarrow> write_storage_error e | Inr _ \<Rightarrow> write_header 204) =
      status_of (decide m ks op p b n idem) \<and>
    reply_of (decide m ks op p b n idem) \<noteq> Inl Panic"
proof (cases "idem_record ks b p idem")
  case None
  then show ?thesis
    by (auto simp: decide_def reply_of_def decode_apply_def lua_result_def status_of_def apply_code_defs
        write_storage_error_def)
next
  case (Some v)
  obtain e op' a where "v = record_value e op' a" "CHR ''|'' \<notin> set e" "CHR ''|'' \<notin> set op'"
    using hashes_ok_record [OF assms Some] by blast
  with Some show ?thesis
    by (auto simp: decide_def check_record_value reply_of_def decode_apply_def lua_result_def status_of_def
        apply_code_defs write_storage_error_def)
qed

subsection \<open>The event feed\<close>

text \<open>A client that follows \<open>next_after\<close>, \<open>k\<close> pages from a cursor.\<close>

fun follow :: "(string \<Rightarrow> 's act) \<Rightarrow> nat \<Rightarrow> string \<Rightarrow> 's world \<Rightarrow> score_event list" where
  "follow page 0 after w = []"
| "follow page (Suc k) after w =
     (case page after w of
        (Some r, w') \<Rightarrow>
          (case rs_body r of
             ListEventsResp events meta \<Rightarrow> events @ follow page k (cm_next_after meta) w'
           | _ \<Rightarrow> [])
      | (None, w') \<Rightarrow> [])"

lemma validate_show_sid: "sid_ok i \<Longrightarrow> validate_event_id (show_sid i) = None"
  by (simp add: validate_event_id_def show_sid_def sid_ok_def)

text \<open>The request for one page.\<close>

definition asks :: "http_ext \<Rightarrow> int \<Rightarrow> (string \<Rightarrow> request) \<Rightarrow> bool" where
  "asks H limit rq \<longleftrightarrow> 0 < limit \<and>
     (\<forall>c. first_value (rq_query (rq c)) after_query = c \<and>
        parse_int_query H (rq c) limit_query default_event_limit 1 max_event_limit = Inr limit)"

lemma handle_events_page:
  assumes "asks H limit rq" "sid_ok i"
  shows "handle_list_events H X R (rq (show_sid i)) =
    stored (list_events_after X R (show_sid i) limit) (list_events_resp (show_sid i) limit)"
  using assms by (simp add: asks_def handle_list_events_def validate_show_sid Let_def)

text \<open>Cutting a strictly sorted list at the last id of a page leaves what follows the page.\<close>

lemma filter_after_page:
  fixes es :: "('a::linorder \<times> 'b) list"
  assumes "sorted_wrt (<) (map fst es)" "pg = take n es" "pg \<noteq> []"
  shows "filter (\<lambda>e. fst (last pg) < fst e) es = drop n es"
proof -
  obtain xs y where pg: "pg = xs @ [y]" using assms(3) by (cases pg rule: rev_cases) auto
  have es: "es = xs @ y # drop n es" using assms(2) pg by (metis append.assoc append_Cons append_Nil append_take_drop_id)
  have "sorted_wrt (<) (map fst xs @ fst y # map fst (drop n es))"
    using assms(1) es by (metis list.map(2) map_append)
  then have "\<forall>e \<in> set xs. \<not> fst y < fst e" "\<forall>e \<in> set (drop n es). fst y < fst e"
    by (auto simp: sorted_wrt_append)
  then have "filter (\<lambda>e. fst y < fst e) (xs @ y # drop n es) = drop n es" by simp
  with es pg show ?thesis by simp
qed

lemma last_sid_ge:
  assumes "stream_ok es" "e \<in> set es" shows "fst e \<le> last_sid es"
  using assms by (induction es) (auto simp: stream_ok_def last_sid_def less_imp_le)

context redis_server
begin

lemma list_events_page:
  assumes inv: "world_inv X B (view s)" and i: "sid_ok after" "after \<noteq> sid_max" and limit: "0 < limit"
  defines "pg \<equiv> take (nat limit) (filter (\<lambda>e. after < fst e) (ledger_of (view s)))"
  shows "\<exists>s'. stored (list_events_after X R (show_sid after) limit) (list_events_resp (show_sid after) limit) (quiet s) =
      (Some (write_json 200 (ListEventsResp (map score_event_from_ledger (events_of X pg))
        \<lparr>cm_limit = limit, cm_next_after = show_sid (if pg = [] then after else fst (last pg))\<rparr>)), quiet s') \<and>
    view s' = view s"
proof -
  from qsim_result [OF qsim_list_events_after [OF i] doc_list_events_after [OF inv i limit]]
  obtain s' where s': "list_events_after X R (show_sid after) limit (quiet s) = (Inr (events_of X pg), quiet s')"
    "view s' = view s" unfolding pg_def by blast
  have dec: "\<forall>e \<in> set pg. \<exists>ev. entry_to_event X (to_msg e) = Inr ev"
    using inv in_set_takeD [of _ "nat limit"]
    by (fastforce simp: pg_def world_inv_def store_inv_def ledger_inv_def ledger_sound_def)
  have "pg \<noteq> [] \<Longrightarrow> ev_id (decoded X (last pg)) = show_sid (fst (last pg))"
    using dec decoded_Inr last_in_set by blast
  then have "list_events_resp (show_sid after) limit (events_of X pg) =
      write_json 200 (ListEventsResp (map score_event_from_ledger (events_of X pg))
        \<lparr>cm_limit = limit, cm_next_after = show_sid (if pg = [] then after else fst (last pg))\<rparr>)"
    by (simp add: list_events_resp_def events_of_decoded [OF dec] last_map)
  with s' show ?thesis by (simp add: stored_run)
qed

lemma follow_feed:
  assumes "world_inv X B (view s)" and "asks H limit rq" and "sid_ok after" "after < sid_max"
    and "last_sid (ledger_of (view s)) < sid_max"
  shows "follow (\<lambda>c. handle_list_events H X R (rq c)) k (show_sid after) (quiet s) =
    map score_event_from_ledger (events_of X (take (k * nat limit) (filter (\<lambda>e. after < fst e) (ledger_of (view s)))))"
  using assms
proof (induction k arbitrary: s after)
  case (Suc k)
  let ?es = "filter (\<lambda>e. after < fst e) (ledger_of (view s))"
  let ?pg = "take (nat limit) ?es"
  let ?next = "if ?pg = [] then after else fst (last ?pg)"
  have limit: "0 < limit" using Suc.prems(2) by (simp add: asks_def)
  from list_events_page [OF Suc.prems(1,3) _ limit] Suc.prems(4) obtain s' where
    page: "stored (list_events_after X R (show_sid after) limit) (list_events_resp (show_sid after) limit) (quiet s) =
      (Some (write_json 200 (ListEventsResp (map score_event_from_ledger (events_of X ?pg))
        \<lparr>cm_limit = limit, cm_next_after = show_sid ?next\<rparr>)), quiet s')" "view s' = view s" by blast
  have run: "handle_list_events H X R (rq (show_sid after)) (quiet s) =
      (Some (write_json 200 (ListEventsResp (map score_event_from_ledger (events_of X ?pg))
        \<lparr>cm_limit = limit, cm_next_after = show_sid ?next\<rparr>)), quiet s')"
    unfolding handle_events_page [OF Suc.prems(2,3)] by (rule page(1))
  have ok: "stream_ok (ledger_of (view s))"
    using Suc.prems(1) by (simp add: world_inv_def store_inv_def ledger_inv_def ledger_sound_def)
  have next_ok: "sid_ok ?next \<and> ?next < sid_max \<and>
      filter (\<lambda>e. ?next < fst e) (ledger_of (view s)) = drop (nat limit) ?es"
  proof (cases "?pg = []")
    case True
    then show ?thesis using Suc.prems(3,4) limit by auto
  next
    case False
    have mem: "last ?pg \<in> set (ledger_of (view s))" "after < fst (last ?pg)"
      using in_set_takeD [OF last_in_set [OF False]] by auto
    have "sorted_wrt (<) (map fst ?es)" using ok by (simp add: stream_ok_def sorted_wrt_map sorted_wrt_filter)
    from filter_after_page [OF this refl False]
    have "filter (\<lambda>e. fst (last ?pg) < fst e) ?es = drop (nat limit) ?es" .
    moreover have "filter (\<lambda>e. fst (last ?pg) < fst e) ?es = filter (\<lambda>e. fst (last ?pg) < fst e) (ledger_of (view s))"
      using mem(2) by (auto simp: filter_filter intro!: filter_cong)
    moreover have "fst (last ?pg) \<le> last_sid (ledger_of (view s))" using last_sid_ge [OF ok mem(1)] .
    ultimately show ?thesis using False mem(1) ok Suc.prems(5) by (auto simp: stream_ok_def)
  qed
  have "follow (\<lambda>c. handle_list_events H X R (rq c)) k (show_sid ?next) (quiet s') =
      map score_event_from_ledger (events_of X (take (k * nat limit) (drop (nat limit) ?es)))"
    using Suc.IH [of s' ?next] Suc.prems(1,2,5) next_ok page(2) by simp
  moreover have "take (Suc k * nat limit) ?es = ?pg @ take (k * nat limit) (drop (nat limit) ?es)"
    by (simp add: take_add)
  then have "events_of X (take (Suc k * nat limit) ?es) =
      events_of X ?pg @ events_of X (take (k * nat limit) (drop (nat limit) ?es))"
    by (simp only: events_of_append)
  ultimately show ?case by (simp add: run del: take_eq_Nil take_eq_Nil2 mult_Suc)
qed (simp add: events_of_def)

end

end
