(* ===== verification/Middleware.thy ===== *)
theory Middleware
  imports Http
begin

section \<open>The middleware around the handlers (\<open>server/middleware.go\<close>)\<close>

text \<open>
  A handler is seen here as what it does to its \<open>http.ResponseWriter\<close>: a sequence of \<open>WriteHeader\<close>
  and \<open>Write\<close> calls, and how it ends: it returns, it panics, or it panics with
  \<open>http.ErrAbortHandler\<close>. \<open>wire\<close> is the writer of net/http: its first final status commits the
  response; 1xx codes other than 101 are informational and leave it open. A body goes out only with a
  status that allows one, and not in answer to HEAD, where \<open>Write\<close> reports the bytes as written all the
  same. No handler sets a Content-Length, so no write is refused for its length.
\<close>

record wire =
  wr_head :: bool
  wr_committed :: "int option"
  wr_bytes :: int

definition wire_new :: "bool \<Rightarrow> wire" where
  "wire_new head = \<lparr>wr_head = head, wr_committed = None, wr_bytes = 0\<rparr>"

definition informational :: "int \<Rightarrow> bool" where
  "informational code \<longleftrightarrow> 100 \<le> code \<and> code \<le> 199 \<and> code \<noteq> 101"

definition wire_header :: "int \<Rightarrow> wire \<Rightarrow> wire" where
  "wire_header code w =
     (if wr_committed w \<noteq> None \<or> informational code then w else w\<lparr>wr_committed := Some code\<rparr>)"

text \<open>The status the client sees: the committed one, or 200 when the handler wrote nothing.\<close>

definition wire_status :: "wire \<Rightarrow> int" where
  "wire_status w = (case wr_committed w of None \<Rightarrow> 200 | Some c \<Rightarrow> c)"

definition body_allowed :: "int \<Rightarrow> bool" where
  "body_allowed status \<longleftrightarrow> \<not> (100 \<le> status \<and> status \<le> 199) \<and> status \<noteq> 204 \<and> status \<noteq> 304"

text \<open>The number \<open>Write\<close> returns, and what it sends.\<close>

definition wire_write :: "nat \<Rightarrow> wire \<Rightarrow> int \<times> wire" where
  "wire_write n w =
     (let w1 = wire_header 200 w
      in if \<not> body_allowed (wire_status w1) then (0, w1)
         else (int n, if wr_head w1 then w1 else w1\<lparr>wr_bytes := wr_bytes w1 + int n\<rparr>))"

subsection \<open>The recorder\<close>

record status_recorder =
  rec_wire :: wire
  rec_status :: int
  rec_bytes :: int
  rec_wrote_header :: bool

definition rec_write_header :: "int \<Rightarrow> status_recorder \<Rightarrow> status_recorder" where
  "rec_write_header code r =
     (let r1 = (if \<not> rec_wrote_header r then r\<lparr>rec_status := code, rec_wrote_header := True\<rparr> else r)
      in r1\<lparr>rec_wire := wire_header code (rec_wire r1)\<rparr>)"

definition rec_write :: "nat \<Rightarrow> status_recorder \<Rightarrow> status_recorder" where
  "rec_write n r =
     (let r1 = (if \<not> rec_wrote_header r then rec_write_header 200 r else r)
      in case wire_write n (rec_wire r1) of
           (written, wire) \<Rightarrow> r1\<lparr>rec_wire := wire, rec_bytes := rec_bytes r1 + written\<rparr>)"

datatype writer_call = CallWriteHeader int | CallWrite nat

datatype handler_end = Returns | Panics | Aborts

fun run_calls :: "writer_call list \<Rightarrow> status_recorder \<Rightarrow> status_recorder" where
  "run_calls [] r = r"
| "run_calls (CallWriteHeader code # cs) r = run_calls cs (rec_write_header code r)"
| "run_calls (CallWrite n # cs) r = run_calls cs (rec_write n r)"

subsection \<open>Recovery, logging, request ids\<close>

text \<open>What leaves the recovery middleware: a return, or the abort panic it raises again.\<close>

definition recovery_middleware :: "writer_call list \<Rightarrow> handler_end \<Rightarrow> status_recorder \<Rightarrow> handler_end \<times> status_recorder" where
  "recovery_middleware cs ending rec =
     (let r = run_calls cs rec
      in case ending of
           Returns \<Rightarrow> (Returns, r)
         | Aborts \<Rightarrow> (Aborts, r)
         | Panics \<Rightarrow> (Returns, if rec_wrote_header r then r else rec_write_header 500 r))"

datatype log_level = LevelInfo | LevelWarn | LevelError

record access_log =
  lg_level :: log_level
  lg_status :: int
  lg_bytes :: int

definition log_level_of :: "int \<Rightarrow> log_level" where
  "log_level_of status =
     (if 500 \<le> status then LevelError else if 400 \<le> status then LevelWarn else LevelInfo)"

text \<open>The access log line, unless an abort passes through, and what went to the wire.\<close>

definition logging_middleware :: "writer_call list \<Rightarrow> handler_end \<Rightarrow> wire \<Rightarrow> access_log option \<times> wire" where
  "logging_middleware cs ending w =
     (let (out, r) = recovery_middleware cs ending
            \<lparr>rec_wire = w, rec_status = 200, rec_bytes = 0, rec_wrote_header = False\<rparr>
      in (if out = Aborts then None
          else Some \<lparr>lg_level = log_level_of (rec_status r), lg_status = rec_status r, lg_bytes = rec_bytes r\<rparr>,
          rec_wire r))"

text \<open>The request with the id in its context, and the response header.\<close>

definition request_id_middleware :: "string \<Rightarrow> request \<Rightarrow> request \<times> (string \<times> string)" where
  "request_id_middleware i rq = (with_id i rq, (''X-Request-ID'', i))"

subsection \<open>The log tells what the client got\<close>

text \<open>
  The recorder agrees with the wire on status and commitment; its byte count is the one of a second
  recorder \<open>g\<close> that sees the same calls in answer to GET, where every byte counted is sent.
\<close>

definition in_step :: "status_recorder \<Rightarrow> status_recorder \<Rightarrow> bool" where
  "in_step g r \<longleftrightarrow>
     (rec_wrote_header r \<longleftrightarrow> wr_committed (rec_wire r) \<noteq> None) \<and> rec_status r = wire_status (rec_wire r) \<and>
     rec_wrote_header g = rec_wrote_header r \<and> wr_committed (rec_wire g) = wr_committed (rec_wire r) \<and>
     rec_status g = rec_status r \<and> rec_bytes g = rec_bytes r \<and>
     \<not> wr_head (rec_wire g) \<and> rec_bytes g = wr_bytes (rec_wire g) \<and>
     wr_bytes (rec_wire r) = (if wr_head (rec_wire r) then 0 else rec_bytes r)"

text \<open>The codes a handler may send: net/http panics below 100 and above 999.\<close>

definition final_codes :: "writer_call list \<Rightarrow> bool" where
  "final_codes cs \<longleftrightarrow>
     (\<forall>code. CallWriteHeader code \<in> set cs \<longrightarrow> 100 \<le> code \<and> code \<le> 999 \<and> \<not> informational code)"

lemma informational_200 [simp]: "\<not> informational 200" "\<not> informational 500"
  by (simp_all add: informational_def)

lemma header_in_step:
  "in_step g r \<Longrightarrow> \<not> informational code \<Longrightarrow> in_step (rec_write_header code g) (rec_write_header code r)"
  by (auto simp: in_step_def rec_write_header_def wire_header_def wire_status_def Let_def)

lemma write_in_step: "in_step g r \<Longrightarrow> in_step (rec_write n g) (rec_write n r)"
  by (auto simp: in_step_def rec_write_def rec_write_header_def wire_write_def wire_header_def wire_status_def Let_def)

lemma calls_in_step: "in_step g r \<Longrightarrow> final_codes cs \<Longrightarrow> in_step (run_calls cs g) (run_calls cs r)"
  by (induction cs r arbitrary: g rule: run_calls.induct) (auto simp: final_codes_def header_in_step write_in_step)

definition rec_new :: "wire \<Rightarrow> status_recorder" where
  "rec_new w = \<lparr>rec_wire = w, rec_status = 200, rec_bytes = 0, rec_wrote_header = False\<rparr>"

lemma start_in_step: "in_step (rec_new (wire_new False)) (rec_new (wire_new head))"
  by (simp add: in_step_def rec_new_def wire_new_def wire_status_def)

lemma recovery_in_step:
  assumes "in_step g r" "final_codes cs"
  shows "in_step (snd (recovery_middleware cs ending g)) (snd (recovery_middleware cs ending r))"
proof -
  have run: "in_step (run_calls cs g) (run_calls cs r)" using calls_in_step [OF assms] .
  then have "rec_wrote_header (run_calls cs g) = rec_wrote_header (run_calls cs r)" by (simp add: in_step_def)
  with run header_in_step [OF run, of 500] show ?thesis
    by (cases ending) (simp_all add: recovery_middleware_def Let_def)
qed

lemma head_stays [simp]: "wr_head (rec_wire (snd (recovery_middleware cs ending r))) = wr_head (rec_wire r)"
proof -
  have hcode: "wr_head (rec_wire (rec_write_header code r)) = wr_head (rec_wire r)" for code r
    by (simp add: rec_write_header_def wire_header_def Let_def)
  have wcode: "wr_head (rec_wire (rec_write n r)) = wr_head (rec_wire r)" for n r
    by (simp add: rec_write_def wire_write_def wire_header_def hcode Let_def)
  have "wr_head (rec_wire (run_calls cs r)) = wr_head (rec_wire r)" for cs r
    by (induction cs r rule: run_calls.induct) (simp_all add: hcode wcode)
  then show ?thesis by (cases ending) (simp_all add: recovery_middleware_def Let_def hcode)
qed

text \<open>The first final code commits: later calls leave the status.\<close>

lemma committed_stays: "rec_wrote_header r \<Longrightarrow> wr_committed (rec_wire r) = Some c \<Longrightarrow>
    rec_wrote_header (run_calls cs r) \<and> wr_committed (rec_wire (run_calls cs r)) = Some c"
  by (induction cs r rule: run_calls.induct)
    (simp_all add: rec_write_header_def rec_write_def wire_write_def wire_header_def Let_def)

end
