(* ===== verification/RateLimit.thy ===== *)
theory RateLimit
  imports Http
begin

section \<open>The per-client rate limiter (\<open>server/ratelimit.go\<close>)\<close>

text \<open>
  A table of token buckets by client address. The bucket is \<open>rate.Limiter\<close> of golang.org/x/time, a
  parameter: how one is made and how it answers \<open>Allow\<close> at an instant. Each lock-protected section
  is one step. The lemmas: the table never exceeds its cap, health checks are exempt, and while
  nothing is evicted each client is judged by a bucket of its own.
\<close>

record 'l rate_ext =
  new_limiter :: "f64 \<Rightarrow> int \<Rightarrow> 'l"
  limiter_allow :: "time \<Rightarrow> 'l \<Rightarrow> bool \<times> 'l"

definition client_ttl :: int where "client_ttl = 3 * 60 * 10 ^ 9"
definition max_clients :: nat where "max_clients = 50000"

datatype rl_error = ErrRateLimited | ErrTooManyClients

record rate_limit_config =
  rc_rps :: f64
  rc_burst :: int

definition rate_limit_enabled :: "rate_limit_config \<Rightarrow> bool" where
  "rate_limit_enabled c = f64_lt (Fin 0) (rc_rps c)"

record 'l client_limiter =
  cl_limiter :: 'l
  cl_last_seen :: time

record 'l rate_limiter =
  rl_clients :: "(string \<times> 'l client_limiter) list"
  rl_rps :: f64
  rl_burst :: int
  rl_retry_after_sec :: string

text \<open>\<open>1 / rps\<close> for the positive rates the limiter is made for.\<close>

fun f64_recip :: "f64 \<Rightarrow> f64" where
  "f64_recip (Fin q) = (if q = 0 then Inf False else f64_round (1 / q))"
| "f64_recip (Inf b) = Fin 0"
| "f64_recip NaN = NaN"

text \<open>
  \<open>int(math.Ceil(x))\<close>; out of the range of int the conversion is left to the implementation, the
  value here is that of amd64.
\<close>

fun ceil_int :: "f64 \<Rightarrow> int" where
  "ceil_int (Fin q) = (if is_int64 \<lceil>q\<rceil> then \<lceil>q\<rceil> else - (2 ^ 63))"
| "ceil_int _ = - (2 ^ 63)"

definition new_rate_limiter :: "rate_limit_config \<Rightarrow> 'l rate_limiter" where
  "new_rate_limiter cfg = \<lparr>rl_clients = [], rl_rps = rc_rps cfg, rl_burst = rc_burst cfg,
     rl_retry_after_sec = format_int (max 1 (ceil_int (f64_recip (rc_rps cfg))))\<rparr>"

subsection \<open>The client's address\<close>

text \<open>\<open>net.SplitHostPort\<close>: none is its error.\<close>

fun last_index :: "char \<Rightarrow> string \<Rightarrow> nat option" where
  "last_index c [] = None"
| "last_index c (x # xs) =
     (case last_index c xs of Some i \<Rightarrow> Some (Suc i) | None \<Rightarrow> if x = c then Some 0 else None)"

fun first_index :: "char \<Rightarrow> string \<Rightarrow> nat option" where
  "first_index c [] = None"
| "first_index c (x # xs) = (if x = c then Some 0 else map_option Suc (first_index c xs))"

definition split_host_port :: "string \<Rightarrow> (string \<times> string) option" where
  "split_host_port hp =
     (case last_index (CHR '':'') hp of
        None \<Rightarrow> None
      | Some i \<Rightarrow>
          if hd hp = CHR ''['' then
            (case first_index (CHR '']'') hp of
               None \<Rightarrow> None
             | Some e \<Rightarrow>
                 if e + 1 \<noteq> i then None
                 else if CHR ''['' \<in> set (drop 1 hp) \<or> CHR '']'' \<in> set (drop (e + 1) hp) then None
                 else Some (slice 1 e hp, drop (i + 1) hp))
          else if CHR '':'' \<in> set (take i hp) then None
          else if CHR ''['' \<in> set hp \<or> CHR '']'' \<in> set hp then None
          else Some (take i hp, drop (i + 1) hp))"

definition client_key :: "string \<Rightarrow> string" where
  "client_key remote_addr =
     (case split_host_port remote_addr of None \<Rightarrow> remote_addr | Some (host, _) \<Rightarrow> host)"

lemma last_index_append [simp]: "c \<notin> set b \<Longrightarrow> last_index c (a @ c # b) = Some (length a)"
proof -
  assume b: "c \<notin> set b"
  then have "last_index c b = None" by (induction b) auto
  then show ?thesis by (induction a) auto
qed

lemma first_index_append [simp]: "c \<notin> set a \<Longrightarrow> first_index c (a @ c # b) = Some (length a)"
  by (induction a) auto

lemma client_key_host_port:
  assumes "CHR '':'' \<notin> set host" "CHR ''['' \<notin> set host" "CHR '']'' \<notin> set host"
    and "CHR '':'' \<notin> set port" "CHR ''['' \<notin> set port" "CHR '']'' \<notin> set port"
  shows "client_key (host @ '':'' @ port) = host"
proof -
  have "hd (host @ CHR '':'' # port) \<noteq> CHR ''[''" using assms(2) by (cases host) auto
  then show ?thesis using assms by (simp add: client_key_def split_host_port_def)
qed

lemma client_key_v6:
  assumes "CHR ''['' \<notin> set host" "CHR '']'' \<notin> set host"
    and "CHR '':'' \<notin> set port" "CHR ''['' \<notin> set port" "CHR '']'' \<notin> set port"
  shows "client_key (''['' @ host @ '']:'' @ port) = host"
proof -
  let ?s = "CHR ''['' # host @ CHR '']'' # CHR '':'' # port"
  have "last_index (CHR '':'') ((CHR ''['' # host @ [CHR '']'']) @ CHR '':'' # port) = Some (length (CHR ''['' # host @ [CHR '']'']))"
    using assms(3) by (rule last_index_append)
  then have 1: "last_index (CHR '':'') ?s = Some (length host + 2)" by simp
  have "first_index (CHR '']'') ((CHR ''['' # host) @ CHR '']'' # CHR '':'' # port) = Some (length (CHR ''['' # host))"
    using assms(2) by (intro first_index_append) simp
  then have 2: "first_index (CHR '']'') ?s = Some (length host + 1)" by simp
  show ?thesis
    using assms 1 2 by (simp add: client_key_def split_host_port_def slice_def)
qed

subsection \<open>Admission\<close>

definition rl_put :: "string \<Rightarrow> 'l client_limiter \<Rightarrow> 'l rate_limiter \<Rightarrow> 'l rate_limiter" where
  "rl_put key c rl = rl\<lparr>rl_clients := AList.update key c (rl_clients rl)\<rparr>"

text \<open>\<open>now\<close> is the instant stored, \<open>t\<close> the instant at which the bucket is asked.\<close>

definition allow :: "'l rate_ext \<Rightarrow> time \<Rightarrow> time \<Rightarrow> string \<Rightarrow> string \<Rightarrow> 'l rate_limiter \<Rightarrow> rl_error option \<times> 'l rate_limiter" where
  "allow E now t path remote_addr rl =
     (if path = ''/livez'' \<or> path = ''/readyz'' then (None, rl)
      else let key = client_key remote_addr
        in case (case map_of (rl_clients rl) key of
                   Some c \<Rightarrow> Some (cl_limiter c)
                 | None \<Rightarrow> if max_clients \<le> length (rl_clients rl) then None
                           else Some (new_limiter E (rl_rps rl) (rl_burst rl))) of
             None \<Rightarrow> (Some ErrTooManyClients, rl)
           | Some l \<Rightarrow>
               let (ok, l') = limiter_allow E t l
               in (if ok then None else Some ErrRateLimited,
                   rl_put key \<lparr>cl_limiter = l', cl_last_seen = now\<rparr> rl))"

definition cleanup :: "time \<Rightarrow> 'l rate_limiter \<Rightarrow> 'l rate_limiter" where
  "cleanup now rl = rl\<lparr>rl_clients := filter (\<lambda>(k, c). \<not> client_ttl < now - cl_last_seen c) (rl_clients rl)\<rparr>"

definition rate_limit_response :: "'l rate_limiter \<Rightarrow> rl_error \<Rightarrow> response" where
  "rate_limit_response rl e =
     \<lparr>rs_status = (if e = ErrTooManyClients then 503 else 429),
      rs_headers = [(''Retry-After'', rl_retry_after_sec rl)],
      rs_body = ErrorBody (MsgErr (if e = ErrTooManyClients then ''rate limiter table full''
                                   else ''rate limit exceeded''))\<rparr>"

subsection \<open>Requests and ticks\<close>

datatype rl_event = is_request: RlRequest (at: time) (asked: time) (rl_path: string) (addr: string) | RlTick time

definition exempt :: "string \<Rightarrow> bool" where
  "exempt path \<longleftrightarrow> path = ''/livez'' \<or> path = ''/readyz''"

fun rl_run :: "'l rate_ext \<Rightarrow> rl_event list \<Rightarrow> 'l rate_limiter \<Rightarrow> rl_error option list \<times> 'l rate_limiter" where
  "rl_run E [] rl = ([], rl)"
| "rl_run E (RlRequest now t path a # evs) rl =
     (let (v, rl1) = allow E now t path a rl; (vs, rl2) = rl_run E evs rl1 in (v # vs, rl2))"
| "rl_run E (RlTick now # evs) rl = rl_run E evs (cleanup now rl)"

definition table_ok :: "'l rate_limiter \<Rightarrow> bool" where
  "table_ok rl \<longleftrightarrow> distinct (map fst (rl_clients rl)) \<and> length (rl_clients rl) \<le> max_clients"

lemma length_update: "length (AList.update k v al) = (if k \<in> fst ` set al then length al else Suc (length al))"
  by (induction al) auto

lemma rl_put_sel [simp]:
  "rl_clients (rl_put k c rl) = AList.update k c (rl_clients rl)" "rl_rps (rl_put k c rl) = rl_rps rl"
  "rl_burst (rl_put k c rl) = rl_burst rl" "rl_retry_after_sec (rl_put k c rl) = rl_retry_after_sec rl"
  by (simp_all add: rl_put_def)

lemma allow_exempt: "exempt path \<Longrightarrow> allow E now t path a rl = (None, rl)"
  by (simp add: exempt_def allow_def)

lemma allow_known:
  assumes "\<not> exempt path" "map_of (rl_clients rl) (client_key a) = Some c"
  shows "allow E now t path a rl =
    (let (ok, l') = limiter_allow E t (cl_limiter c)
     in (if ok then None else Some ErrRateLimited, rl_put (client_key a) \<lparr>cl_limiter = l', cl_last_seen = now\<rparr> rl))"
  using assms by (simp add: exempt_def allow_def)

lemma allow_new:
  assumes "\<not> exempt path" "map_of (rl_clients rl) (client_key a) = None"
  shows "allow E now t path a rl =
    (if max_clients \<le> length (rl_clients rl) then (Some ErrTooManyClients, rl)
     else let (ok, l') = limiter_allow E t (new_limiter E (rl_rps rl) (rl_burst rl))
     in (if ok then None else Some ErrRateLimited, rl_put (client_key a) \<lparr>cl_limiter = l', cl_last_seen = now\<rparr> rl))"
  using assms by (simp add: exempt_def allow_def)

lemma allow_table:
  assumes "table_ok rl" shows "table_ok (snd (allow E now t path a rl))"
proof (cases "exempt path")
  case False
  show ?thesis
  proof (cases "map_of (rl_clients rl) (client_key a)")
    case None
    then show ?thesis
      using assms by (auto simp: allow_new [OF False None] table_ok_def Let_def case_prod_beta length_update distinct_update)
  next
    case (Some c)
    then have "client_key a \<in> fst ` set (rl_clients rl)" by (metis map_of_eq_None_iff option.distinct(1))
    then show ?thesis
      using assms by (auto simp: allow_known [OF False Some] table_ok_def Let_def case_prod_beta length_update distinct_update)
  qed
qed (simp add: allow_exempt assms)

lemma cleanup_table: "table_ok rl \<Longrightarrow> table_ok (cleanup now rl)"
  by (auto simp: table_ok_def cleanup_def distinct_map_filter intro: le_trans [OF length_filter_le])

lemma rl_run_table: "table_ok rl \<Longrightarrow> table_ok (snd (rl_run E evs rl))"
proof (induction E evs rl rule: rl_run.induct)
  case (2 E now t path a evs rl)
  obtain v rl1 where al: "allow E now t path a rl = (v, rl1)" by fastforce
  then have "table_ok rl1" using allow_table [OF 2(2), of E now t path a] by simp
  with 2(1) [OF al [symmetric] refl] al show ?case by (simp add: case_prod_beta)
qed (simp_all add: cleanup_table)

subsection \<open>One bucket per client\<close>

text \<open>What a bucket alone answers to a sequence of instants.\<close>

fun bucket_run :: "'l rate_ext \<Rightarrow> time list \<Rightarrow> 'l \<Rightarrow> rl_error option list" where
  "bucket_run E [] l = []"
| "bucket_run E (t # ts) l =
     (let (ok, l') = limiter_allow E t l in (if ok then None else Some ErrRateLimited) # bucket_run E ts l')"

definition of_client :: "string \<Rightarrow> rl_event \<Rightarrow> bool" where
  "of_client key e = (case e of RlRequest _ _ path a \<Rightarrow> \<not> exempt path \<and> client_key a = key | RlTick _ \<Rightarrow> False)"

lemma of_client_simps [simp]:
  "of_client key (RlRequest now t path a) \<longleftrightarrow> \<not> exempt path \<and> client_key a = key" "\<not> of_client key (RlTick now)"
  by (simp_all add: of_client_def)

text \<open>The answers given to one client in a run.\<close>

fun answers_to :: "string \<Rightarrow> rl_event list \<Rightarrow> rl_error option list \<Rightarrow> rl_error option list" where
  "answers_to key (RlTick _ # evs) vs = answers_to key evs vs"
| "answers_to key (e # evs) (v # vs) =
     (if of_client key e then v # answers_to key evs vs else answers_to key evs vs)"
| "answers_to key _ _ = []"

definition client_keys :: "rl_event list \<Rightarrow> string set" where
  "client_keys evs = {key. \<exists>e \<in> set evs. of_client key e}"

definition bucket_of :: "'l rate_ext \<Rightarrow> string \<Rightarrow> 'l rate_limiter \<Rightarrow> 'l" where
  "bucket_of E key rl =
     (case map_of (rl_clients rl) key of Some c \<Rightarrow> cl_limiter c | None \<Rightarrow> new_limiter E (rl_rps rl) (rl_burst rl))"

lemma client_keys_Cons:
  "client_keys (e # evs) = (case e of
     RlRequest _ _ path a \<Rightarrow> (if exempt path then client_keys evs else insert (client_key a) (client_keys evs))
   | RlTick _ \<Rightarrow> client_keys evs)"
  by (auto simp: client_keys_def split: rl_event.split)

lemma finite_client_keys: "finite (client_keys evs)"
  by (induction evs) (auto simp: client_keys_Cons split: rl_event.split, simp add: client_keys_def)

lemma allow_room:
  assumes dist: "distinct (map fst (rl_clients rl))" and np: "\<not> exempt path"
    and room: "card (insert (client_key a) (fst ` set (rl_clients rl))) \<le> max_clients"
  shows "\<exists>rl'. allow E now t path a rl =
      (let (ok, l') = limiter_allow E t (bucket_of E (client_key a) rl) in (if ok then None else Some ErrRateLimited, rl')) \<and>
    fst ` set (rl_clients rl') = insert (client_key a) (fst ` set (rl_clients rl)) \<and> distinct (map fst (rl_clients rl')) \<and>
    (\<forall>key. bucket_of E key rl' =
      (if key = client_key a then snd (limiter_allow E t (bucket_of E (client_key a) rl)) else bucket_of E key rl))"
proof -
  let ?key = "client_key a"
  let ?l = "limiter_allow E t (bucket_of E ?key rl)"
  let ?rl = "rl_put ?key \<lparr>cl_limiter = snd ?l, cl_last_seen = now\<rparr> rl"
  have len: "length (rl_clients rl) = card (fst ` set (rl_clients rl))"
    using dist by (metis distinct_card length_map list.set_map)
  have "allow E now t path a rl = (if fst ?l then None else Some ErrRateLimited, ?rl)"
  proof (cases "map_of (rl_clients rl) ?key")
    case None
    then have "?key \<notin> fst ` set (rl_clients rl)" by (simp add: map_of_eq_None_iff)
    with room len have "\<not> max_clients \<le> length (rl_clients rl)" by simp
    with None np show ?thesis by (simp add: allow_new bucket_of_def Let_def case_prod_beta)
  next
    case (Some c)
    with np show ?thesis by (simp add: allow_known bucket_of_def Let_def case_prod_beta)
  qed
  moreover have "fst ` set (rl_clients ?rl) = insert ?key (fst ` set (rl_clients rl))"
    by (metis rl_put_sel(1) dom_map_of_conv_image_fst dom_fun_upd option.distinct(1) update_conv')
  moreover have "distinct (map fst (rl_clients ?rl))" using dist by (simp add: distinct_update)
  moreover have "bucket_of E key ?rl = (if key = ?key then snd ?l else bucket_of E key rl)" for key
    unfolding bucket_of_def rl_put_sel update_conv' by simp
  ultimately show ?thesis by (intro exI [of _ ?rl]) (simp add: case_prod_beta)
qed

lemma bucket_alone:
  assumes "\<forall>e \<in> set evs. is_request e" "distinct (map fst (rl_clients rl))"
    and "card (client_keys evs \<union> fst ` set (rl_clients rl)) \<le> max_clients"
  shows "answers_to key evs (fst (rl_run E evs rl)) =
    bucket_run E (map asked (filter (of_client key) evs)) (bucket_of E key rl)"
  using assms
proof (induction evs arbitrary: rl)
  case (Cons e evs)
  then obtain now t path a where e: "e = RlRequest now t path a" by (cases e) auto
  show ?case
  proof (cases "exempt path")
    case True
    with Cons e show ?thesis
      by (simp add: allow_exempt client_keys_Cons case_prod_beta)
  next
    case False
    have fin: "finite (client_keys evs \<union> fst ` set (rl_clients rl))" using finite_client_keys by simp
    have keys: "insert (client_key a) (client_keys evs \<union> fst ` set (rl_clients rl)) =
        client_keys (e # evs) \<union> fst ` set (rl_clients rl)"
      using False by (auto simp: e client_keys_Cons)
    have "card (insert (client_key a) (fst ` set (rl_clients rl))) \<le>
        card (insert (client_key a) (client_keys evs \<union> fst ` set (rl_clients rl)))"
      using fin by (intro card_mono) auto
    also have "\<dots> \<le> max_clients" using Cons.prems(3) keys by simp
    finally obtain rl' where rl': "allow E now t path a rl =
        (let (ok, l') = limiter_allow E t (bucket_of E (client_key a) rl) in (if ok then None else Some ErrRateLimited, rl'))"
      "fst ` set (rl_clients rl') = insert (client_key a) (fst ` set (rl_clients rl))" "distinct (map fst (rl_clients rl'))"
      "\<And>key. bucket_of E key rl' =
        (if key = client_key a then snd (limiter_allow E t (bucket_of E (client_key a) rl)) else bucket_of E key rl)"
      using allow_room [OF Cons.prems(2) False] by blast
    have "card (client_keys evs \<union> fst ` set (rl_clients rl')) \<le> max_clients"
      using Cons.prems(3) keys by (simp add: rl'(2))
    from Cons.IH [OF _ rl'(3) this] Cons.prems(1)
    have IH: "answers_to key evs (fst (rl_run E evs rl')) =
        bucket_run E (map asked (filter (of_client key) evs)) (bucket_of E key rl')" by simp
    show ?thesis
      using IH False by (auto simp: e rl'(1) rl'(4) Let_def case_prod_beta)
  qed
qed simp

subsection \<open>The cleanup loop\<close>

text \<open>What the loop receives: a tick at an instant, or the end of its context, which ends it.\<close>

datatype cleanup_msg = CtxDone | Tick time

fun run_cleanup :: "cleanup_msg list \<Rightarrow> 'l rate_limiter \<Rightarrow> bool \<times> 'l rate_limiter" where
  "run_cleanup [] rl = (False, rl)"
| "run_cleanup (CtxDone # msgs) rl = (True, rl)"
| "run_cleanup (Tick now # msgs) rl = run_cleanup msgs (cleanup now rl)"

lemma run_cleanup_ends: "CtxDone \<in> set msgs \<Longrightarrow> fst (run_cleanup msgs rl)"
  by (induction msgs rl rule: run_cleanup.induct) auto

text \<open>Only idle clients go: one seen within the last three minutes of every tick stays.\<close>

lemma run_cleanup_keeps:
  assumes "(k, c) \<in> set (rl_clients rl)" and "\<forall>t. Tick t \<in> set msgs \<longrightarrow> t \<le> cl_last_seen c + client_ttl"
  shows "(k, c) \<in> set (rl_clients (snd (run_cleanup msgs rl)))"
  using assms by (induction msgs rl rule: run_cleanup.induct) (auto simp: cleanup_def)

end
