(* ===== verification/Service.thy ===== *)
theory Service
  imports Routes ApiFacts Middleware RateLimit
begin

section \<open>The service: limiter, routes, handlers and recovery put together\<close>

text \<open>
  \<open>serve_http\<close> is the handler \<open>server.Start\<close> builds: the limiter (when enabled) in front of the mux,
  the mux in front of the handlers, and the recovery around them, which turns a panic into a 500.
  What a request needs from outside (clock, generated ids, the readiness ping) is in \<open>ambient\<close>.
\<close>

record 's ambient =
  am_now :: time
  am_asked :: time
  am_request_id :: string
  am_uuid :: string
  am_version :: string
  am_ping :: "('s, unit) go"

fun serve_route :: "http_ext \<Rightarrow> ext \<Rightarrow> 's redis \<Rightarrow> 's ambient \<Rightarrow> route \<Rightarrow> request \<Rightarrow> 's act" where
  "serve_route H X R A RouteRoot rq = handle_root (am_version A) rq"
| "serve_route H X R A RouteLive rq = handle_live rq"
| "serve_route H X R A RouteReady rq = handle_ready (am_ping A) rq"
| "serve_route H X R A RouteCreatePlayer rq = handle_create_player H X R (am_uuid A) (am_now A) rq"
| "serve_route H X R A RouteGetPlayer rq = handle_get_player X R rq"
| "serve_route H X R A RouteCreateBoard rq = handle_create_board H X R (am_now A) rq"
| "serve_route H X R A RouteListBoards rq = handle_list_boards R rq"
| "serve_route H X R A RouteGetBoard rq = handle_get_board X R rq"
| "serve_route H X R A RouteCloseBoard rq = handle_close_board X R rq"
| "serve_route H X R A RouteOpenBoard rq = handle_open_board X R rq"
| "serve_route H X R A RouteSetScore rq = handle_set_score H X R (am_uuid A) rq"
| "serve_route H X R A RouteIncrementScore rq = handle_increment_score H X R (am_uuid A) rq"
| "serve_route H X R A RouteListScores rq = handle_list_scores H X R (am_now A) rq"
| "serve_route H X R A RouteGetRank rq = handle_get_rank X R rq"
| "serve_route H X R A RouteGetHistory rq = handle_get_history H X R rq"
| "serve_route H X R A RouteListEvents rq = handle_list_events H X R rq"
| "serve_route H X R A RouteRebuild rq = handle_rebuild_projection X R rq"
| "serve_route H X R A RouteVerify rq = handle_verify_projection X R rq"
| "serve_route H X R A RouteDailyActivity rq = handle_list_daily_activity H R rq"

definition with_path_values :: "(string \<times> string) list \<Rightarrow> request \<Rightarrow> request" where
  "with_path_values vs rq = rq\<lparr>rq_values := (\<lambda>v. case map_of vs v of None \<Rightarrow> [] | Some s \<Rightarrow> s)\<rparr>"

definition serve_mux :: "http_ext \<Rightarrow> ext \<Rightarrow> 's redis \<Rightarrow> 's ambient \<Rightarrow> request \<Rightarrow> 's act" where
  "serve_mux H X R A rq =
     (case route_request (rq_method rq) (rq_path rq) of
        Serve r vs \<Rightarrow> serve_route H X R A r (with_path_values vs rq)
      | MethodNotAllowed \<Rightarrow> answer (write_header 405)
      | NoRoute \<Rightarrow> answer (write_header 404))"

definition rate_limit_middleware :: "'l rate_ext \<Rightarrow> time \<Rightarrow> time \<Rightarrow> 's act \<Rightarrow> request \<Rightarrow>
    'l rate_limiter \<Rightarrow> 's world \<Rightarrow> (response option \<times> 's world) \<times> 'l rate_limiter" where
  "rate_limit_middleware E now t next rq rl w =
     (case allow E now t (rq_path rq) (rq_remote rq) rl of
        (None, rl') \<Rightarrow> (next w, rl')
      | (Some e, rl') \<Rightarrow> ((Some (rate_limit_response rl' e), w), rl'))"

text \<open>The answer the client gets: a handler that panicked wrote nothing, so recovery sends the 500.\<close>

definition serve_http :: "'l rate_ext \<Rightarrow> http_ext \<Rightarrow> ext \<Rightarrow> 's redis \<Rightarrow> 's ambient \<Rightarrow> request \<Rightarrow>
    'l rate_limiter option \<Rightarrow> 's world \<Rightarrow> response \<times> 's world \<times> 'l rate_limiter option" where
  "serve_http E H X R A rq0 limiter w =
     (let (rq, hdr) = request_id_middleware (am_request_id A) rq0;
          ((out, w'), limiter') =
            (case limiter of
               None \<Rightarrow> (serve_mux H X R A rq w, None)
             | Some rl \<Rightarrow> (let (o1, rl') = rate_limit_middleware E (am_now A) (am_asked A) (serve_mux H X R A rq) rq rl w
                           in (o1, Some rl')));
          r = (case out of Some r \<Rightarrow> r | None \<Rightarrow> write_header 500)
      in (r\<lparr>rs_headers := hdr # rs_headers r\<rparr>, w', limiter'))"

lemma serve_http_unlimited:
  "serve_mux H X R A (rq\<lparr>rq_context_id := am_request_id A\<rparr>) w = (Some r, w') \<Longrightarrow>
    serve_http E H X R A rq None w = (r\<lparr>rs_headers := (''X-Request-ID'', am_request_id A) # rs_headers r\<rparr>, w', None)"
  by (simp add: serve_http_def request_id_middleware_def with_id_def)

lemma serve_http_limited:
  assumes "allow E (am_now A) (am_asked A) (rq_path rq) (rq_remote rq) rl = (Some e, rl')"
  shows "serve_http E H X R A rq (Some rl) w =
    (let r = rate_limit_response rl' e in r\<lparr>rs_headers := (''X-Request-ID'', am_request_id A) # rs_headers r\<rparr>, w, Some rl')"
  using assms by (simp add: serve_http_def request_id_middleware_def with_id_def rate_limit_middleware_def Let_def)

subsection \<open>The two score routes\<close>

definition score_path :: "string \<Rightarrow> string \<Rightarrow> string" where
  "score_path b p = ''/api/v1/boards/'' @ b @ ''/scores/'' @ p"

lemma split_score_path:
  assumes "CHR ''/'' \<notin> set b" "CHR ''/'' \<notin> set p"
  shows "tl (split_on (CHR ''/'') (score_path b p)) = [''api'', ''v1'', ''boards'', b, ''scores'', p]"
proof -
  have "split_on (CHR ''/'') (b @ CHR ''/'' # ''scores/'' @ p) = [b, ''scores'', p]"
    using assms by (simp add: split_on_none)
  then show ?thesis by (simp add: score_path_def)
qed

lemma score_path_matches:
  assumes "b \<noteq> []" "p \<noteq> []"
  shows "path_matches [''api'', ''v1'', ''boards'', b, ''scores'', p] =
    [((''PUT'', ''/api/v1/boards/{board_id}/scores/{player_id}''), RouteSetScore),
     ((''GET'', ''/api/v1/boards/{board_id}/scores/{player_id}''), RouteGetRank)]"
  using assms by (simp add: path_matches_def new_mux_def pattern_segs_mux)

lemma score_routes:
  assumes "CHR ''/'' \<notin> set b" "CHR ''/'' \<notin> set p" "b \<noteq> []" "p \<noteq> []"
  shows "route_request ''PUT'' (score_path b p) = Serve RouteSetScore [(''board_id'', b), (''player_id'', p)]"
    "route_request ''GET'' (score_path b p) = Serve RouteGetRank [(''board_id'', b), (''player_id'', p)]"
  unfolding route_request_def split_score_path [OF assms(1,2)] routes_for_def score_path_matches [OF assms(3,4)] Let_def
  using assms(3,4) by (simp_all add: method_matches_def pattern_segs_mux)

subsection \<open>A score written is the score read\<close>

text \<open>The request as the score handlers see it.\<close>

definition score_request :: "'s ambient \<Rightarrow> string \<Rightarrow> string \<Rightarrow> request \<Rightarrow> request" where
  "score_request A b p rq =
     with_path_values [(''board_id'', b), (''player_id'', p)] (rq\<lparr>rq_context_id := am_request_id A\<rparr>)"

lemma score_request_sel [simp]:
  "rq_headers (score_request A b p rq) = rq_headers rq" "rq_body (score_request A b p rq) = rq_body rq"
  "rq_values (score_request A b p rq) board_id_path_value = b"
  "rq_values (score_request A b p rq) player_id_path_value = p"
  by (simp_all add: score_request_def with_path_values_def board_id_path_value_def player_id_path_value_def)

lemma score_request_paths [simp]:
  "board_id_from_path X (score_request A b p rq) = (if board_id_validate X b then Inr b else Inl (DomainErr BadBoardId))"
  "player_id_from_path X (score_request A b p rq) = (if player_id_validate X p then Inr p else Inl (DomainErr BadPlayerId))"
  "read_idempotency_key (score_request A b p rq) = read_idempotency_key rq"
  by (simp_all add: board_id_from_path_def player_id_from_path_def read_idempotency_key_def)

lemma serve_score_routes:
  assumes "CHR ''/'' \<notin> set b" "CHR ''/'' \<notin> set p" "b \<noteq> []" "p \<noteq> []" "rq_path rq = score_path b p"
  shows "rq_method rq = ''PUT'' \<Longrightarrow> serve_mux H X R A (rq\<lparr>rq_context_id := am_request_id A\<rparr>) =
      handle_set_score H X R (am_uuid A) (score_request A b p rq)"
    "rq_method rq = ''GET'' \<Longrightarrow> serve_mux H X R A (rq\<lparr>rq_context_id := am_request_id A\<rparr>) =
      handle_get_rank X R (score_request A b p rq)"
  using score_routes [OF assms(1-4)] by (simp_all add: serve_mux_def score_request_def assms(5))

lemma ranked_player:
  assumes "is_ranking m rows" "m p = Some n"
  obtains row where "find (\<lambda>row. st_player row = p) rows = Some row" "st_player row = p" "st_score row = n"
proof -
  obtain row where row: "row \<in> set rows" "st_player row = p" "st_score row = n"
    using assms unfolding is_ranking_def by blast
  then obtain row' where f: "find (\<lambda>row. st_player row = p) rows = Some row'"
    by (metis (mono_tags, lifting) find_None_iff option.exhaust)
  then have "row' \<in> set rows" "st_player row' = p" by (auto simp: find_Some_iff)
  with row assms(1) have "row' = row" by (auto simp: is_ranking_def distinct_map inj_on_def)
  with f row that show ?thesis by blast
qed

context redis_server
begin

text \<open>A write that its handler accepts and the decision applies answers 204.\<close>

lemma accepted_write_runs:
  assumes "accepts_write H X (write_field op) rq b p idem n" "op = event_set \<or> op = event_increment"
    and "world_inv X UNIV (view s)" "ids_nonempty X" "fresh \<noteq> []" "last_sid (ledger_of (view s)) < sid_max"
    and "decide (board_scores X b (ledger_of (view s))) (view s) op p b n idem = None"
  obtains s' where "handle_write op H X R fresh rq (quiet s) = (Some (write_header 204), quiet s')"
    "wrote X op p b n (request_id fresh rq) idem (view s) (view s')" "writable X op p b n (request_id fresh rq)"
    "world_inv X UNIV (view s')"
proof -
  have w: "writable X op p b n (request_id fresh rq)" by (rule accepts_writable [OF assms(1,4,5,2)])
  have "store_inv X UNIV (view s)" "score_validate n"
    using assms(1,3) by (simp_all add: world_inv_def accepts_write_def)
  from apply_event_quiet [OF this assms(6), of b op p "request_id fresh rq" idem] assms(7)
  obtain s' where s': "apply_event R op p b n (request_id fresh rq) idem (quiet s) = (Inr (), quiet s')"
    "wrote X op p b n (request_id fresh rq) idem (view s) (view s')"
    by (auto simp: reply_of_def)
  have "handle_write op H X R fresh rq (quiet s) = (Some (write_header 204), quiet s')"
    using s'(1) by (simp add: handle_write_accepted [OF assms(1,2)] stored_run(2))
  with that s'(2) w wrote_world_inv [OF s'(2) assms(3) w] show thesis by simp
qed

text \<open>Any accepted write is answered with the status of its decision.\<close>

lemma write_status:
  assumes "world_inv X UNIV (view s)" "ids_nonempty X" "fresh \<noteq> []" "op = event_set \<or> op = event_increment"
    and "accepts_write H X (write_field op) rq b p idem n" "last_sid (ledger_of (view s)) < sid_max"
  shows "\<exists>r s'. handle_write op H X R fresh rq (quiet s) = (Some r, quiet s') \<and>
    rs_status r = status_of (decide (board_scores X b (ledger_of (view s))) (view s) op p b n idem) \<and>
    (if decide (board_scores X b (ledger_of (view s))) (view s) op p b n idem = None
     then wrote X op p b n (request_id fresh rq) idem (view s) (view s') else view s' = view s)"
proof -
  let ?d = "decide (board_scores X b (ledger_of (view s))) (view s) op p b n idem"
  have st: "store_inv X UNIV (view s)" "hashes_ok (view s)"
    using assms(1) by (simp_all add: world_inv_def store_inv_def)
  have n: "score_validate n" using assms(5) by (simp add: accepts_write_def)
  obtain s' where s': "apply_event R op p b n (request_id fresh rq) idem (quiet s) = (reply_of ?d, quiet s')"
    "if ?d = None then wrote X op p b n (request_id fresh rq) idem (view s) (view s') else view s' = view s"
    using apply_event_quiet [OF st(1) n assms(6), of b op p "request_id fresh rq" idem] by auto
  note status = reply_status [OF st(2), of "board_scores X b (ledger_of (view s))" op p b n idem]
  have "handle_write op H X R fresh rq (quiet s) =
      (Some (case reply_of ?d of Inl e \<Rightarrow> write_storage_error e | Inr _ \<Rightarrow> write_header 204), quiet s')"
    using s'(1) status by (auto simp: handle_write_accepted [OF assms(5,4)] stored_def split: sum.split)
  with status s'(2) show ?thesis by blast
qed

lemma rank_read:
  assumes "world_inv X UNIV (view s)" "board_id_validate X b" "player_id_validate X p"
    and "board_scores X b (ledger_of (view s)) p = Some n"
  shows "\<exists>e total s'. handle_get_rank X R (score_request A b p rq) (quiet s) =
      (Some (write_json 200 (RankResp e total)), quiet s') \<and> sc_player e = p \<and> sc_score e = n \<and> view s' = view s"
proof -
  obtain rows where rows: "is_ranking (board_scores X b (ledger_of (view s))) rows"
    "get_standing (doc_redis (0, 1)) p b (quiet (view s)) =
      (case find (\<lambda>row. st_player row = p) rows of
         None \<Rightarrow> Inl ErrNotFound | Some row \<Rightarrow> Inr (row, int (length rows)), quiet (view s))"
    using doc_get_standing [OF assms(1)] by blast
  obtain row where row: "find (\<lambda>row. st_player row = p) rows = Some row" "st_player row = p" "st_score row = n"
    by (rule ranked_player [OF rows(1) assms(4)])
  from rows(2) row(1) have "get_standing (doc_redis (0, 1)) p b (quiet (view s)) = (Inr (row, int (length rows)), quiet (view s))"
    by simp
  from qsim_result [OF qsim_get_standing this] obtain s' where
    "get_standing R p b (quiet s) = (Inr (row, int (length rows)), quiet s')" "view s' = view s" by blast
  with row assms(2,3) show ?thesis by (auto simp: handle_get_rank_def stored_run(2))
qed

end

end
