(* ===== verification/ServerConfig.thy ===== *)
theory ServerConfig
  imports RateLimit Consumer
begin

section \<open>Options, environment and life cycle (\<open>server/server.go\<close>, \<open>main.go\<close>)\<close>

text \<open>
  The server's options as functions on its configuration, the environment variables they are read
  from, \<open>server.Start\<close> as the configuration it serves with or the error it returns, and what main
  does after it. \<open>time.ParseDuration\<close> of the standard library is written out.
\<close>

subsection \<open>\<open>time.ParseDuration\<close>\<close>

fun leading_int :: "nat \<Rightarrow> string \<Rightarrow> (nat \<times> string) option" where
  "leading_int x [] = Some (x, [])"
| "leading_int x (c # s) =
     (case digit_val c of
        None \<Rightarrow> Some (x, c # s)
      | Some d \<Rightarrow> if 2 ^ 63 div 10 < x then None
          else let y = x * 10 + d in if 2 ^ 63 < y then None else leading_int y s)"

text \<open>Digits past the capacity are read and dropped; the scale is ten to the number of digits kept.\<close>

fun leading_fraction :: "bool \<Rightarrow> nat \<Rightarrow> nat \<Rightarrow> string \<Rightarrow> nat \<times> nat \<times> string" where
  "leading_fraction over x k [] = (x, k, [])"
| "leading_fraction over x k (c # s) =
     (case digit_val c of
        None \<Rightarrow> (x, k, c # s)
      | Some d \<Rightarrow>
          if over \<or> (2 ^ 63 - 1) div 10 < x then leading_fraction True x k s
          else let y = x * 10 + d
            in if 2 ^ 63 < y then leading_fraction True x k s else leading_fraction False y (k + 1) s)"

definition unit_of :: "string \<Rightarrow> nat option" where
  "unit_of u =
     (if u = ''ns'' then Some 1
      else if u = ''us'' \<or> u = [CHR 0xC2, CHR 0xB5, CHR ''s''] \<or> u = [CHR 0xCE, CHR 0xBC, CHR ''s''] then Some 1000
      else if u = ''ms'' then Some (10 ^ 6)
      else if u = ''s'' then Some (10 ^ 9)
      else if u = ''m'' then Some (60 * 10 ^ 9)
      else if u = ''h'' then Some (3600 * 10 ^ 9)
      else None)"

definition f64_rat :: "f64 \<Rightarrow> rat" where
  "f64_rat x = (case x of Fin q \<Rightarrow> q | _ \<Rightarrow> 0)"

text \<open>\<open>uint64(float64(f) * (float64(unit) / scale))\<close>, each operation rounded.\<close>

definition fraction_ns :: "nat \<Rightarrow> nat \<Rightarrow> nat \<Rightarrow> nat" where
  "fraction_ns f u k =
     nat (trunc_rat (f64_rat (f64_round (f64_rat (f64_of_int (int f)) *
       f64_rat (f64_round (of_nat u / 10 ^ k))))))"

definition is_unit_char :: "char \<Rightarrow> bool" where
  "is_unit_char c \<longleftrightarrow> c \<noteq> CHR ''.'' \<and> digit_val c = None"

text \<open>One number with its unit: its nanoseconds and the rest.\<close>

definition duration_part :: "string \<Rightarrow> (nat \<times> string) option" where
  "duration_part s =
     (if s = [] \<or> is_unit_char (hd s) then None
      else case leading_int 0 s of
        None \<Rightarrow> None
      | Some (v, s1) \<Rightarrow>
          (let pre = (length s1 \<noteq> length s); dot = (s1 \<noteq> [] \<and> hd s1 = CHR ''.'');
               (f, k, s2) = (if dot then leading_fraction False 0 0 (tl s1) else (0, 0, s1));
               post = (dot \<and> length s2 \<noteq> length (tl s1));
               u = takeWhile is_unit_char s2
           in if \<not> pre \<and> \<not> post then None
              else case unit_of u of
                None \<Rightarrow> None
              | Some w \<Rightarrow>
                  if 2 ^ 63 div w < v then None
                  else let v' = v * w + (if 0 < f then fraction_ns f w k else 0)
                    in if 2 ^ 63 < v' then None else Some (v', drop (length u) s2)))"

lemma unit_of_pos: "unit_of u = Some w \<Longrightarrow> u \<noteq> []"
  by (auto simp: unit_of_def)

lemma leading_int_length: "leading_int x s = Some (v, r) \<Longrightarrow> length r \<le> length s"
  by (induction s arbitrary: x) (auto simp: Let_def le_SucI split: option.splits if_splits)

lemma leading_fraction_length: "leading_fraction b x k s = (f, k', r) \<Longrightarrow> length r \<le> length s"
  by (induction s arbitrary: b x k) (auto simp: Let_def le_SucI split: option.splits if_splits)

lemma duration_part_shorter:
  assumes "duration_part s = Some (v, r)" shows "length r < length s"
proof -
  obtain v1 s1 where s1: "leading_int 0 s = Some (v1, s1)"
    using assms by (auto simp: duration_part_def split: if_splits option.splits)
  obtain f k s2 where s2: "(if s1 \<noteq> [] \<and> hd s1 = CHR ''.'' then leading_fraction False 0 0 (tl s1) else (0, 0, s1)) = (f, k, s2)"
    by (metis surj_pair)
  have "length s2 \<le> length s1"
    using s2 leading_fraction_length [of False 0 0 "tl s1" f k s2] by (auto split: if_splits)
  with leading_int_length [OF s1] have le: "length s2 \<le> length s" by simp
  have u: "takeWhile is_unit_char s2 \<noteq> []" and r: "r = drop (length (takeWhile is_unit_char s2)) s2"
    using assms s1 s2
    by (auto simp: duration_part_def Let_def unit_of_pos split: if_splits option.splits)
  then have "s2 \<noteq> []" by auto
  have "length r < length s2" using u r \<open>s2 \<noteq> []\<close> by simp
  with le show ?thesis by simp
qed

function duration_parts :: "nat \<Rightarrow> string \<Rightarrow> nat option" where
  "duration_parts d s =
     (if s = [] then Some d
      else case duration_part s of
        None \<Rightarrow> None
      | Some (v, r) \<Rightarrow> if 2 ^ 63 < d + v then None else duration_parts (d + v) r)"
  by pat_completeness auto
termination
  by (relation "measure (length \<circ> snd)") (auto dest: duration_part_shorter)

declare duration_parts.simps [simp del]

definition parse_duration :: "string \<Rightarrow> int option" where
  "parse_duration s0 =
     (let (neg, s) = split_sign s0
      in if s = ''0'' then Some 0
         else if s = [] then None
         else case duration_parts 0 s of
           None \<Rightarrow> None
         | Some d \<Rightarrow> if neg then Some (- int d) else if 2 ^ 63 - 1 < d then None else Some (int d))"

text \<open>The range of a duration.\<close>

lemma duration_parts_le: "d \<le> 2 ^ 63 \<Longrightarrow> duration_parts d s = Some r \<Longrightarrow> r \<le> 2 ^ 63"
proof (induction d s rule: duration_parts.induct)
  case (1 d s)
  show ?case
  proof (cases "s = []")
    case True
    with 1(2,3) show ?thesis by (simp add: duration_parts.simps)
  next
    case False
    with 1(3) obtain v t where v: "duration_part s = Some (v, t)" "\<not> 2 ^ 63 < d + v" "duration_parts (d + v) t = Some r"
      by (subst (asm) duration_parts.simps) (auto split: option.splits if_splits)
    from 1(1) [OF False v(1) refl v(2) _ v(3)] v(2) show ?thesis by simp
  qed
qed

lemma parse_duration_int64: "parse_duration s = Some d \<Longrightarrow> is_int64 d"
  using duration_parts_le [of 0]
  by (fastforce simp: parse_duration_def is_int64_def Let_def split: prod.splits option.splits if_splits)

subsection \<open>Options\<close>

definition default_port :: int where "default_port = 8090"
definition default_shutdown_timeout :: int where "default_shutdown_timeout = 10 * 10 ^ 9"
definition default_rate_limit_burst :: int where "default_rate_limit_burst = 20"

datatype start_error = ErrOption string | ErrServe | ErrShutdown | ErrConfig string string

record server_config =
  sv_port :: int
  sv_shutdown_timeout :: int
  sv_rate_limit :: rate_limit_config

type_synonym server_option = "server_config \<Rightarrow> start_error + server_config"

definition with_port :: "int \<Rightarrow> server_option" where
  "with_port port cfg =
     (if port \<le> 0 \<or> 65535 < port then Inl (ErrOption ''port should be in 1..65535'')
      else Inr (cfg\<lparr>sv_port := port\<rparr>))"

definition with_shutdown_timeout :: "int \<Rightarrow> server_option" where
  "with_shutdown_timeout st cfg =
     (if st \<le> 0 then Inl (ErrOption ''shutdown timeout should be positive'')
      else Inr (cfg\<lparr>sv_shutdown_timeout := st\<rparr>))"

definition with_rate_limit :: "f64 \<Rightarrow> int \<Rightarrow> server_option" where
  "with_rate_limit rps burst cfg =
     (if f64_lt rps (Fin 0) \<or> f64_eq rps (Fin 0) then Inl (ErrOption ''rate limit rps should be positive'')
      else if burst < 1 then Inl (ErrOption ''rate limit burst should be at least 1'')
      else Inr (cfg\<lparr>sv_rate_limit := \<lparr>rc_rps = rps, rc_burst = burst\<rparr>\<rparr>))"

fun apply_options :: "server_option list \<Rightarrow> server_config \<Rightarrow> start_error + server_config" where
  "apply_options [] cfg = Inr cfg"
| "apply_options (opt # opts) cfg = (case opt cfg of Inl e \<Rightarrow> Inl e | Inr cfg' \<Rightarrow> apply_options opts cfg')"

definition initial_config :: server_config where
  "initial_config = \<lparr>sv_port = default_port, sv_shutdown_timeout = default_shutdown_timeout,
     sv_rate_limit = \<lparr>rc_rps = Fin 0, rc_burst = 0\<rparr>\<rparr>"

text \<open>Serving ends with an error of \<open>ListenAndServe\<close> or with the context; then \<open>Shutdown\<close> runs.\<close>

datatype serve_end = ServeFailed | ContextDone

definition start :: "server_option list \<Rightarrow> serve_end \<Rightarrow> bool \<Rightarrow> start_error option" where
  "start opts ending shutdown_ok =
     (case apply_options opts initial_config of
        Inl e \<Rightarrow> Some e
      | Inr cfg \<Rightarrow>
          (case ending of
             ServeFailed \<Rightarrow> Some ErrServe
           | ContextDone \<Rightarrow> if shutdown_ok then None else Some ErrShutdown))"

subsection \<open>The environment\<close>

definition int_from_env :: "(string \<Rightarrow> string) \<Rightarrow> string \<Rightarrow> int \<Rightarrow> start_error + int" where
  "int_from_env getenv name d =
     (let v = getenv name in if v = [] then Inr d
      else case parse_int64 v of None \<Rightarrow> Inl (ErrConfig name v) | Some n \<Rightarrow> Inr n)"

definition float_from_env :: "(string \<Rightarrow> string) \<Rightarrow> string \<Rightarrow> f64 \<Rightarrow> start_error + f64" where
  "float_from_env getenv name d =
     (let v = getenv name in if v = [] then Inr d
      else case parse_float v of None \<Rightarrow> Inl (ErrConfig name v) | Some f \<Rightarrow> Inr f)"

definition duration_from_env :: "(string \<Rightarrow> string) \<Rightarrow> string \<Rightarrow> int \<Rightarrow> start_error + int" where
  "duration_from_env getenv name d =
     (let v = getenv name in if v = [] then Inr d
      else case parse_duration v of None \<Rightarrow> Inl (ErrConfig name v) | Some t \<Rightarrow> Inr t)"

definition server_options :: "(string \<Rightarrow> string) \<Rightarrow> start_error + server_option list" where
  "server_options getenv =
     sum_bind (int_from_env getenv ''PORT'' default_port) (\<lambda>port.
     sum_bind (duration_from_env getenv ''SHUTDOWN_TIMEOUT'' default_shutdown_timeout) (\<lambda>timeout.
     sum_bind (float_from_env getenv ''RATE_LIMIT_RPS'' (Fin 0)) (\<lambda>rps.
       if f64_lt (Fin 0) rps
       then sum_bind (int_from_env getenv ''RATE_LIMIT_BURST'' default_rate_limit_burst) (\<lambda>burst.
              Inr [with_port port, with_shutdown_timeout timeout, with_rate_limit rps burst])
       else Inr [with_port port, with_shutdown_timeout timeout])))"

definition start_server :: "(string \<Rightarrow> string) \<Rightarrow> serve_end \<Rightarrow> bool \<Rightarrow> start_error option" where
  "start_server getenv ending shutdown_ok =
     (case server_options getenv of Inl e \<Rightarrow> Some e | Inr opts \<Rightarrow> start opts ending shutdown_ok)"

text \<open>The configuration the server serves with.\<close>

definition served_config :: "(string \<Rightarrow> string) \<Rightarrow> start_error + server_config" where
  "served_config getenv = sum_bind (server_options getenv) (\<lambda>opts. apply_options opts initial_config)"

definition config_ok :: "server_config \<Rightarrow> bool" where
  "config_ok cfg \<longleftrightarrow> 1 \<le> sv_port cfg \<and> sv_port cfg \<le> 65535 \<and> 0 < sv_shutdown_timeout cfg \<and>
     (rate_limit_enabled (sv_rate_limit cfg) \<longrightarrow> 1 \<le> rc_burst (sv_rate_limit cfg))"

definition keeps_config :: "server_option \<Rightarrow> bool" where
  "keeps_config opt \<longleftrightarrow> (\<forall>cfg cfg'. config_ok cfg \<longrightarrow> opt cfg = Inr cfg' \<longrightarrow> config_ok cfg')"

lemma options_keep_config:
  "keeps_config (with_port port)" "keeps_config (with_shutdown_timeout st)" "keeps_config (with_rate_limit rps burst)"
  by (auto simp: keeps_config_def config_ok_def with_port_def with_shutdown_timeout_def with_rate_limit_def
      split: if_splits)

lemma apply_options_ok:
  "\<forall>opt \<in> set opts. keeps_config opt \<Longrightarrow> config_ok cfg \<Longrightarrow> apply_options opts cfg = Inr cfg' \<Longrightarrow> config_ok cfg'"
proof (induction opts arbitrary: cfg)
  case (Cons opt opts)
  show ?case
  proof (cases "opt cfg")
    case (Inr cfg1)
    with Cons.prems have "config_ok cfg1" unfolding keeps_config_def by auto
    with Cons Inr show ?thesis by simp
  qed (use Cons.prems in simp)
qed simp

lemma initial_config_ok: "config_ok initial_config"
  by (simp add: config_ok_def initial_config_def default_port_def default_shutdown_timeout_def rate_limit_enabled_def)

lemma sum_bind_Inr: "sum_bind e f = Inr y \<longleftrightarrow> (\<exists>x. e = Inr x \<and> f x = Inr y)"
  by (cases e) auto

lemma served_config_ok: "served_config getenv = Inr cfg \<Longrightarrow> config_ok cfg"
proof -
  assume cfg: "served_config getenv = Inr cfg"
  then obtain opts where opts: "server_options getenv = Inr opts" "apply_options opts initial_config = Inr cfg"
    by (auto simp: served_config_def sum_bind_def split: sum.splits)
  obtain port timeout rps where "(if f64_lt (Fin 0) rps
       then sum_bind (int_from_env getenv ''RATE_LIMIT_BURST'' default_rate_limit_burst) (\<lambda>burst.
              Inr [with_port port, with_shutdown_timeout timeout, with_rate_limit rps burst])
       else Inr [with_port port, with_shutdown_timeout timeout]) = Inr opts"
    using opts(1) unfolding server_options_def sum_bind_Inr by blast
  then obtain burst where "opts = [with_port port, with_shutdown_timeout timeout] \<or>
      opts = [with_port port, with_shutdown_timeout timeout, with_rate_limit rps burst]"
    by (auto simp: sum_bind_Inr split: if_splits)
  then have "\<forall>opt \<in> set opts. keeps_config opt" using options_keep_config by auto
  from apply_options_ok [OF this initial_config_ok opts(2)] show ?thesis .
qed

subsection \<open>Stopping (\<open>main\<close>)\<close>

definition worker_stop_margin :: int where "worker_stop_margin = 2 * 10 ^ 9"

fun max_stop_delay_from :: "int \<Rightarrow> ('w, 'e) consumer list \<Rightarrow> int" where
  "max_stop_delay_from slowest [] = slowest"
| "max_stop_delay_from slowest (c # cs) = max_stop_delay_from (max slowest (cn_block c)) cs"

definition max_stop_delay :: "('w, 'e) consumer list \<Rightarrow> int" where
  "max_stop_delay cs = max_stop_delay_from 0 cs"

datatype main_action =
    OpenClient string | StartConsumers "string list" | CloseRequestClient | WaitForConsumers int
  | CloseConsumerClient | ExitProcess int

definition main_after_serve :: "start_error option \<Rightarrow> ('w, 'e) consumer list \<Rightarrow> main_action list" where
  "main_after_serve err consumers =
     (if err = None \<or> err = Some ErrShutdown
      then [CloseRequestClient, WaitForConsumers (max_stop_delay consumers + worker_stop_margin), CloseConsumerClient]
      else [ExitProcess 1])"

lemma max_stop_delay_from_ge:
  "slowest \<le> max_stop_delay_from slowest cs \<and> (\<forall>c \<in> set cs. cn_block c \<le> max_stop_delay_from slowest cs)"
proof (induction cs arbitrary: slowest)
  case (Cons c cs)
  from Cons [of "max slowest (cn_block c)"] show ?case by simp
qed simp

lemma max_stop_delay_ge: "c \<in> set cs \<Longrightarrow> cn_block c \<le> max_stop_delay cs"
  using max_stop_delay_from_ge [of 0 cs] by (simp add: max_stop_delay_def)

end
