(* ===== verification/RedisClient.thy ===== *)
theory RedisClient
  imports Prelude
begin

section \<open>The Redis client's configuration, probe and command log (package \<open>apexredis\<close>)\<close>

text \<open>
  Strings are byte lists. The command log cuts each argument to 64 bytes and stops adding arguments
  past 256, so one line stays below 328 bytes; a cut never leaves a broken rune. The hooks that write
  the lines are transparent to the caller.
\<close>

subsection \<open>Configuration\<close>

definition default_url :: string where "default_url = ''redis://localhost:6379/0''"

record redis_config =
  cfg_url :: string

definition redis_config_resolve :: "redis_config \<Rightarrow> redis_config" where
  "redis_config_resolve c = (if cfg_url c = [] then c\<lparr>cfg_url := default_url\<rparr> else c)"

text \<open>\<open>getenv\<close> is the process environment.\<close>

definition redis_config_from_env :: "(string \<Rightarrow> string) \<Rightarrow> redis_config" where
  "redis_config_from_env getenv = redis_config_resolve \<lparr>cfg_url = getenv ''REDIS_URL''\<rparr>"

lemma resolve_idem: "redis_config_resolve (redis_config_resolve c) = redis_config_resolve c"
  by (simp add: redis_config_resolve_def default_url_def)

subsection \<open>Startup probe\<close>

text \<open>
  One attempt: what the ping returned, and whether the probe's deadline had passed by then. The
  result is the connection, or the error the warning reports.
\<close>

datatype 'e ping_attempt = PingOk | PingErr 'e bool

datatype 'e probe = Connected | Unreachable 'e

fun ping_with_retry :: "'e option \<Rightarrow> 'e ping_attempt list \<Rightarrow> 'e probe option" where
  "ping_with_retry last_err [] = None"
| "ping_with_retry last_err (PingOk # as) = Some Connected"
| "ping_with_retry last_err (PingErr e True # as) =
     Some (Unreachable (case last_err of None \<Rightarrow> e | Some l \<Rightarrow> l))"
| "ping_with_retry last_err (PingErr e False # as) = ping_with_retry (Some e) as"

lemma probe_early_errors:
  "ping_with_retry last_err (map (\<lambda>e. PingErr e False) es @ as) =
    ping_with_retry (if es = [] then last_err else Some (last es)) as"
  by (induction es arbitrary: last_err) auto

subsection \<open>UTF-8\<close>

definition byte_in :: "nat \<Rightarrow> nat \<Rightarrow> char \<Rightarrow> bool" where
  "byte_in lo hi c \<longleftrightarrow> lo \<le> of_char c \<and> (of_char c :: nat) \<le> hi"

abbreviation cont :: "char \<Rightarrow> bool" where
  "cont \<equiv> byte_in 0x80 0xBF"

definition ascii :: "char \<Rightarrow> bool" where
  "ascii a \<longleftrightarrow> byte_in 0x00 0x7F a"

definition two_bytes :: "char \<Rightarrow> char \<Rightarrow> bool" where
  "two_bytes a b \<longleftrightarrow> byte_in 0xC2 0xDF a \<and> cont b"

definition three_bytes :: "char \<Rightarrow> char \<Rightarrow> char \<Rightarrow> bool" where
  "three_bytes a b c \<longleftrightarrow> byte_in 0xE0 0xEF a \<and>
     byte_in (if byte_in 0xE0 0xE0 a then 0xA0 else 0x80) (if byte_in 0xED 0xED a then 0x9F else 0xBF) b \<and> cont c"

definition four_bytes :: "char \<Rightarrow> char \<Rightarrow> char \<Rightarrow> char \<Rightarrow> bool" where
  "four_bytes a b c d \<longleftrightarrow> byte_in 0xF0 0xF4 a \<and>
     byte_in (if byte_in 0xF0 0xF0 a then 0x90 else 0x80) (if byte_in 0xF4 0xF4 a then 0x8F else 0xBF) b \<and>
     cont c \<and> cont d"

text \<open>The width of the rune at the front, none where the bytes are no valid encoding.\<close>

definition rune_width :: "string \<Rightarrow> nat option" where
  "rune_width s =
     (case s of
        [] \<Rightarrow> None
      | a # s1 \<Rightarrow>
          if ascii a then Some 1
          else case s1 of
            [] \<Rightarrow> None
          | b # s2 \<Rightarrow>
              if two_bytes a b then Some 2
              else case s2 of
                [] \<Rightarrow> None
              | c # s3 \<Rightarrow>
                  if three_bytes a b c then Some 3
                  else case s3 of [] \<Rightarrow> None | d # _ \<Rightarrow> if four_bytes a b c d then Some 4 else None)"

lemma rune_width_Some:
  assumes "rune_width s = Some w"
  obtains (one) a s' where "s = a # s'" "w = 1" "ascii a"
    | (two) a b s' where "s = a # b # s'" "w = 2" "\<not> ascii a" "two_bytes a b"
    | (three) a b c s' where "s = a # b # c # s'" "w = 3" "\<not> ascii a" "\<not> two_bytes a b" "three_bytes a b c"
    | (four) a b c d s' where "s = a # b # c # d # s'" "w = 4" "\<not> ascii a" "\<not> two_bytes a b"
        "\<not> three_bytes a b c" "four_bytes a b c d"
  using assms by (auto simp: rune_width_def split: list.splits if_splits)

lemma rune_width_pos: "rune_width s = Some n \<Longrightarrow> 0 < n \<and> n \<le> length s"
  by (elim rune_width_Some) auto

text \<open>\<open>strings.ToValidUTF8(s, "")\<close>: the invalid bytes are dropped.\<close>

function to_valid_utf8 :: "string \<Rightarrow> string" where
  "to_valid_utf8 s =
     (if s = [] then []
      else case rune_width s of
        Some n \<Rightarrow> take n s @ to_valid_utf8 (drop n s)
      | None \<Rightarrow> to_valid_utf8 (tl s))"
  by pat_completeness auto
termination
  by (relation "measure length") (auto dest: rune_width_pos)

declare to_valid_utf8.simps [simp del]

fun utf8_ok :: "nat \<Rightarrow> string \<Rightarrow> bool" where
  "utf8_ok k [] = True"
| "utf8_ok 0 (a # s) = False"
| "utf8_ok (Suc k) (a # s) = (case rune_width (a # s) of None \<Rightarrow> False | Some n \<Rightarrow> utf8_ok k (drop n (a # s)))"

definition valid_utf8 :: "string \<Rightarrow> bool" where
  "valid_utf8 s = utf8_ok (length s) s"

lemma to_valid_length: "length (to_valid_utf8 s) \<le> length s"
proof (induction s rule: to_valid_utf8.induct)
  case (1 s)
  show ?case
  proof (cases "s = []")
    case False
    show ?thesis
    proof (cases "rune_width s")
      case None
      with 1(1) [OF False None] False show ?thesis by (subst to_valid_utf8.simps) simp
    next
      case (Some n)
      with 1(2) [OF False Some] rune_width_pos [OF Some] False show ?thesis
        by (subst to_valid_utf8.simps) (auto simp: le_diff_conv2)
    qed
  qed (simp add: to_valid_utf8.simps)
qed

subsection \<open>The logged command\<close>

definition max_logged_arg :: nat where "max_logged_arg = 64"
definition max_logged_args :: nat where "max_logged_args = 256"

definition truncate_arg :: "string \<Rightarrow> string" where
  "truncate_arg arg =
     (if length arg \<le> max_logged_arg then arg
      else to_valid_utf8 (take max_logged_arg arg) @ ''...'')"

text \<open>The builder so far, and whether the argument at hand is the first.\<close>

fun format_from :: "bool \<Rightarrow> string \<Rightarrow> string list \<Rightarrow> string" where
  "format_from first b [] = b"
| "format_from first b (arg # args) =
     (if max_logged_args \<le> length b then b @ '' ...''
      else format_from False (b @ (if first then [] else '' '') @ truncate_arg arg) args)"

definition format_args :: "string list \<Rightarrow> string" where
  "format_args args = format_from True [] args"

fun names_from :: "bool \<Rightarrow> string \<Rightarrow> string list \<Rightarrow> string" where
  "names_from first b [] = b"
| "names_from first b (name # names) =
     (if max_logged_args \<le> length b then b @ '' ...''
      else names_from False (b @ (if first then [] else '' '') @ name) names)"

definition cmd_names :: "string list \<Rightarrow> string" where
  "cmd_names names = names_from True [] names"

lemma truncate_arg_length: "length (truncate_arg arg) \<le> max_logged_arg + 3"
  using to_valid_length [of "take max_logged_arg arg"] by (simp add: truncate_arg_def max_logged_arg_def)

lemma format_from_length:
  "length b \<le> max_logged_args + max_logged_arg + 3 \<Longrightarrow>
    length (format_from first b args) \<le> max_logged_args + max_logged_arg + 7"
proof (induction first b args rule: format_from.induct)
  case (2 first b arg args)
  show ?case
  proof (cases "max_logged_args \<le> length b")
    case False
    have "length (b @ (if first then [] else '' '') @ truncate_arg arg) \<le> max_logged_args + max_logged_arg + 3"
      using False truncate_arg_length [of arg] by (simp add: max_logged_args_def max_logged_arg_def)
    with 2 False show ?thesis by simp
  qed (use 2 in simp)
qed simp

text \<open>Whole runes are kept, and only the last, cut one can go.\<close>

lemma to_valid_id: "utf8_ok k s \<Longrightarrow> to_valid_utf8 s = s"
proof (induction k s rule: utf8_ok.induct)
  case (3 k a s)
  then obtain n where n: "rune_width (a # s) = Some n" "utf8_ok k (drop n (a # s))"
    by (auto split: option.splits)
  have "to_valid_utf8 (a # s) = take n (a # s) @ to_valid_utf8 (drop n (a # s))"
    by (subst to_valid_utf8.simps) (simp add: n(1))
  also have "to_valid_utf8 (drop n (a # s)) = drop n (a # s)" using 3(1) n by blast
  finally show ?case by simp
qed (simp_all add: to_valid_utf8.simps)

text \<open>A rune cut short disappears, so a cut string keeps its whole runes: at most three bytes go.\<close>

lemma lead_not_cont: "ascii a \<or> two_bytes a b \<or> three_bytes a b c \<or> four_bytes a b c d \<Longrightarrow> \<not> cont a"
  by (auto simp: ascii_def two_bytes_def three_bytes_def four_bytes_def byte_in_def)

lemma cont_no_rune: "cont a \<Longrightarrow> rune_width (a # s) = None"
  using lead_not_cont [of a] by (fastforce simp: rune_width_def split: list.split)

lemma trail_cont: "three_bytes a b c \<Longrightarrow> cont b" "four_bytes a b c d \<Longrightarrow> cont b \<and> cont c"
  by (auto simp: three_bytes_def four_bytes_def byte_in_def split: if_splits)

lemma to_valid_bad: "rune_width (a # s) = None \<Longrightarrow> to_valid_utf8 (a # s) = to_valid_utf8 s"
  by (subst to_valid_utf8.simps) simp

lemma to_valid_conts: "\<forall>c \<in> set s. cont c \<Longrightarrow> to_valid_utf8 s = []"
proof (induction s)
  case (Cons a s)
  then show ?case using to_valid_bad [OF cont_no_rune [of a s]] by simp
qed (simp add: to_valid_utf8.simps)

lemma rune_cut:
  assumes "rune_width (a # s) = Some w" "n < w"
  shows "rune_width (take n (a # s)) = None \<and> (\<forall>c \<in> set (take (n - 1) s). cont c) \<and> w \<le> 4"
  using assms(1)
proof (cases rule: rune_width_Some)
  case (three a b c s')
  with assms(2) have "n = 0 \<or> n = 1 \<or> n = 2" by auto
  with three trail_cont(1) show ?thesis by (auto simp: rune_width_def numeral_2_eq_2)
next
  case (four a b c d s')
  with assms(2) have "n = 0 \<or> n = 1 \<or> n = 2 \<or> n = 3" by auto
  with four trail_cont(2) show ?thesis by (auto simp: rune_width_def numeral_2_eq_2 numeral_3_eq_3)
qed (use assms(2) in \<open>auto simp: rune_width_def less_Suc_eq numeral_2_eq_2\<close>)

lemma rune_keeps:
  assumes "rune_width s = Some w" "w \<le> n" shows "rune_width (take n s) = Some w"
proof -
  obtain m where n: "n = w + m" using assms(2) by (auto simp: le_iff_add)
  show ?thesis
    using assms(1) by (cases rule: rune_width_Some) (simp_all add: n rune_width_def numeral_eq_Suc)
qed

lemma to_valid_cut: "utf8_ok k s \<Longrightarrow> \<exists>m. to_valid_utf8 (take n s) = take m s \<and> m \<le> n \<and> n \<le> m + 3"
proof (induction k s arbitrary: n rule: utf8_ok.induct)
  case (3 k a s)
  then obtain w where w: "rune_width (a # s) = Some w" "utf8_ok k (drop w (a # s))"
    by (auto split: option.splits)
  show ?case
  proof (cases "n < w")
    case True
    note cut = rune_cut [OF w(1) True]
    have "to_valid_utf8 (take n (a # s)) = []"
    proof (cases n)
      case (Suc m)
      then show ?thesis using cut to_valid_bad [of a "take m s"] to_valid_conts [of "take m s"] by simp
    qed (simp add: to_valid_utf8.simps)
    with True cut show ?thesis by (intro exI [of _ 0]) simp
  next
    case False
    from 3(1) [OF w, of "n - w"] obtain m where m: "to_valid_utf8 (take (n - w) (drop w (a # s))) = take m (drop w (a # s))"
      "m \<le> n - w" "n - w \<le> m + 3" by blast
    have "take n (a # s) = take w (a # s) @ take (n - w) (drop w (a # s))"
      using False by (metis le_add_diff_inverse not_less take_add)
    moreover have "rune_width (take n (a # s)) = Some w" using rune_keeps [OF w(1), of n] False by simp
    ultimately have "to_valid_utf8 (take n (a # s)) = take w (a # s) @ take m (drop w (a # s))"
      using m(1) False rune_width_pos [OF w(1)] by (subst to_valid_utf8.simps) (auto simp: min_def)
    also have "\<dots> = take (w + m) (a # s)" by (simp add: take_add)
    finally show ?thesis using m False by (intro exI [of _ "w + m"]) auto
  qed
qed (auto simp: to_valid_utf8.simps)

text \<open>A line of the log is bounded, whatever the command.\<close>

lemma format_args_bounded: "length (format_args args) \<le> 327"
  using format_from_length [of "[]" True args] by (simp add: format_args_def max_logged_args_def max_logged_arg_def)

text \<open>A logged argument: itself, or for valid UTF-8 its first whole runes, at least 61 bytes of it.\<close>

lemma truncate_arg_cut:
  assumes "valid_utf8 arg"
  shows "truncate_arg arg = arg \<or>
    (\<exists>m. truncate_arg arg = take m arg @ ''...'' \<and> m \<le> max_logged_arg \<and> max_logged_arg \<le> m + 3)"
  using to_valid_cut [OF assms [unfolded valid_utf8_def], of max_logged_arg] by (auto simp: truncate_arg_def)

subsection \<open>The logging hook\<close>

text \<open>
  \<open>next\<close> is the rest of go-redis' hook chain. A command's name, full name and printed arguments are
  what go-redis and fmt report of it; \<open>debug\<close> says whether the logger is enabled for Debug.
\<close>

datatype cmd_error = RedisNil | RedisErr string

record redis_cmd =
  cmd_name :: string
  cmd_full_name :: string
  cmd_args :: "string list"

datatype log_attr = Component string | Cmd string | Args string | Miss | Error string | Count nat | Cmds string

record log_line =
  ln_msg :: string
  ln_attrs :: "log_attr list"

type_synonym 'w hooked = "'w \<Rightarrow> cmd_error option \<times> 'w"

text \<open>The line for one command, or none for an idle blocking read; durations are left out.\<close>

definition log_command :: "string \<Rightarrow> redis_cmd \<Rightarrow> cmd_error option \<Rightarrow> log_line option" where
  "log_command component cmd err =
     (let miss = (err = Some RedisNil)
      in if miss \<and> cmd_name cmd = ''xread'' then None
         else Some \<lparr>ln_msg = ''redis cmd'',
           ln_attrs = [Component component, Cmd (cmd_full_name cmd), Args (format_args (cmd_args cmd))] @
             (if miss then [Miss] else case err of Some (RedisErr e) \<Rightarrow> [Error e] | _ \<Rightarrow> [])\<rparr>)"

definition process_hook :: "string \<Rightarrow> bool \<Rightarrow> redis_cmd \<Rightarrow> 'w hooked \<Rightarrow> 'w \<Rightarrow>
    cmd_error option \<times> log_line list \<times> 'w" where
  "process_hook component debug cmd next w =
     (let (err, w') = next w
      in if \<not> debug then (err, [], w')
         else (err, (case log_command component cmd err of None \<Rightarrow> [] | Some l \<Rightarrow> [l]), w'))"

definition process_pipeline_hook :: "string \<Rightarrow> bool \<Rightarrow> redis_cmd list \<Rightarrow> 'w hooked \<Rightarrow> 'w \<Rightarrow>
    cmd_error option \<times> log_line list \<times> 'w" where
  "process_pipeline_hook component debug cmds next w =
     (let (err, w') = next w
      in if \<not> debug then (err, [], w')
         else (err, [\<lparr>ln_msg = ''redis pipeline'',
           ln_attrs = [Component component, Count (length cmds), Cmds (cmd_names (map cmd_full_name cmds))] @
             (case err of Some (RedisErr e) \<Rightarrow> [Error e] | _ \<Rightarrow> [])\<rparr>], w'))"

text \<open>The hooks only watch: the caller gets what the chain returned, logged or not.\<close>

lemma hooks_transparent:
  "fst (process_hook component debug cmd next w) = fst (next w)"
  "snd (snd (process_hook component debug cmd next w)) = snd (next w)"
  "fst (process_pipeline_hook component debug cmds next w) = fst (next w)"
  "snd (snd (process_pipeline_hook component debug cmds next w)) = snd (next w)"
  by (simp_all add: process_hook_def process_pipeline_hook_def split: prod.splits)

text \<open>A failure other than a miss is always in the line, and only an idle read is silent.\<close>

lemma log_command_error:
  "log_command component cmd (Some (RedisErr e)) = Some l \<Longrightarrow> Error e \<in> set (ln_attrs l)"
  "log_command component cmd err = None \<longleftrightarrow> err = Some RedisNil \<and> cmd_name cmd = ''xread''"
  by (auto simp: log_command_def Let_def)

subsection \<open>A new client\<close>

text \<open>\<open>parse_url\<close> is \<open>redis.ParseURL\<close>; none is an error.\<close>

definition redis_new :: "(string \<Rightarrow> 'o option) \<Rightarrow> redis_config \<Rightarrow> 'o option" where
  "redis_new parse_url cfg = parse_url (cfg_url (redis_config_resolve cfg))"

end
