(* ===== verification/LifeCycle.thy ===== *)
theory LifeCycle
  imports ServerConfig RedisClient LedgerConsumers
begin

section \<open>The process from start to stop (\<open>main.go\<close>)\<close>

text \<open>
  \<open>main_run\<close> lists what \<open>main\<close> does with the resources it owns: the two Redis clients, the ledger
  consumers and the exit. The logging set-up, the URL parser of go-redis and how serving ends are
  arguments. The lemmas: errors of the configuration are never taken for a shutdown, and both
  clients are closed, in order and after the wait for the consumers, whenever serving ends by the
  context.
\<close>

definition ledger_consumers :: "ext \<Rightarrow> 's redis \<Rightarrow> ('s world, serr) consumer list" where
  "ledger_consumers X R = [new_daily_activity_consumer X R, new_player_history_consumer X R]"

definition main_run :: "bool \<Rightarrow> (string \<Rightarrow> 'o option) \<Rightarrow> (string \<Rightarrow> string) \<Rightarrow> ext \<Rightarrow> 's redis \<Rightarrow>
    serve_end \<Rightarrow> bool \<Rightarrow> main_action list" where
  "main_run logging_ok parse_url getenv X R ending shutdown_ok =
     (if \<not> logging_ok then [ExitProcess 1]
      else let cfg = redis_config_from_env getenv
        in case redis_new parse_url cfg of
             None \<Rightarrow> [ExitProcess 1]
           | Some request_opts \<Rightarrow> OpenClient ''storage'' #
               (case redis_new parse_url cfg of
                  None \<Rightarrow> [ExitProcess 1]
                | Some consumer_opts \<Rightarrow> OpenClient ''consumer'' #
                    StartConsumers (map cn_id (ledger_consumers X R)) #
                    main_after_serve (start_server getenv ending shutdown_ok) (ledger_consumers X R)))"

subsection \<open>Errors before serving\<close>

definition config_error :: "start_error \<Rightarrow> bool" where
  "config_error e \<longleftrightarrow> (\<exists>m. e = ErrOption m) \<or> (\<exists>n v. e = ErrConfig n v)"

lemma env_error:
  "int_from_env getenv n d = Inl e \<Longrightarrow> config_error e"
  "float_from_env getenv n f = Inl e \<Longrightarrow> config_error e"
  "duration_from_env getenv n d = Inl e \<Longrightarrow> config_error e"
  by (auto simp: int_from_env_def float_from_env_def duration_from_env_def config_error_def Let_def
      split: if_splits option.splits)

lemma option_error:
  "with_port p cfg = Inl e \<Longrightarrow> config_error e" "with_shutdown_timeout st cfg = Inl e \<Longrightarrow> config_error e"
  "with_rate_limit rps burst cfg = Inl e \<Longrightarrow> config_error e"
  by (auto simp: with_port_def with_shutdown_timeout_def with_rate_limit_def config_error_def split: if_splits)

lemma served_config_error:
  assumes "served_config getenv = Inl e" shows "config_error e"
proof (cases "server_options getenv")
  case (Inl e')
  then show ?thesis using assms env_error
    by (auto simp: served_config_def server_options_def sum_bind_def split: sum.splits if_splits)
next
  case (Inr opts)
  with assms have run: "apply_options opts initial_config = Inl e" by (simp add: served_config_def sum_bind_def)
  from Inr obtain p t r b where "opts = [with_port p, with_shutdown_timeout t] \<or>
      opts = [with_port p, with_shutdown_timeout t, with_rate_limit r b]"
    by (auto simp: server_options_def sum_bind_def split: sum.splits if_splits)
  with run option_error show ?thesis by (auto split: sum.splits)
qed

lemma start_server_served:
  "start_server getenv ending shutdown_ok =
    (case served_config getenv of
       Inl e \<Rightarrow> Some e
     | Inr cfg \<Rightarrow> if ending = ServeFailed then Some ErrServe else if shutdown_ok then None else Some ErrShutdown)"
  by (cases ending) (auto simp: start_server_def start_def served_config_def sum_bind_def split: sum.splits)

lemma main_after_serve_cases:
  "main_after_serve (start_server getenv ending shutdown_ok) cs =
    (if ending = ContextDone \<and> \<not> isl (served_config getenv)
     then [CloseRequestClient, WaitForConsumers (max_stop_delay cs + worker_stop_margin), CloseConsumerClient]
     else [ExitProcess 1])"
proof (cases "served_config getenv")
  case (Inl e)
  with served_config_error [OF this] show ?thesis
    by (auto simp: main_after_serve_def start_server_served config_error_def)
next
  case (Inr cfg)
  then show ?thesis by (cases ending) (simp_all add: main_after_serve_def start_server_served)
qed

lemma ledger_consumers_block: "max_stop_delay (ledger_consumers X R) = default_block_duration"
  by (simp add: max_stop_delay_def ledger_consumers_def new_daily_activity_consumer_def
      new_player_history_consumer_def default_block_duration_def)

lemma ledger_consumer_block: "c \<in> set (ledger_consumers X R) \<Longrightarrow> cn_block c = default_block_duration"
  by (auto simp: ledger_consumers_def new_daily_activity_consumer_def new_player_history_consumer_def)

lemma ledger_consumers_ids: "map cn_id (ledger_consumers X R) = [daily_activity_id, player_history_id]"
  by (simp add: ledger_consumers_def new_daily_activity_consumer_def new_player_history_consumer_def)

lemma resolve_from_env [simp]: "redis_config_resolve (redis_config_from_env getenv) = redis_config_from_env getenv"
  by (simp add: redis_config_from_env_def redis_config_resolve_def default_url_def)

text \<open>
  With logging set up and a URL that parses: both clients are opened and the consumers started, and when
  serving ends by the context the clients are closed, the consumers' after a wait longer than any of
  them blocks.
\<close>

lemma main_run_actions:
  assumes "parse_url (cfg_url (redis_config_from_env getenv)) = Some opts"
  shows "main_run True parse_url getenv X R ending shutdown_ok =
      [OpenClient ''storage'', OpenClient ''consumer'', StartConsumers [daily_activity_id, player_history_id]] @
      (if ending = ContextDone \<and> \<not> isl (served_config getenv)
       then [CloseRequestClient, WaitForConsumers (7 * 10 ^ 9), CloseConsumerClient] else [ExitProcess 1]) \<and>
    (\<forall>c \<in> set (ledger_consumers X R). cn_block c < 7 * 10 ^ 9)"
  using assms
  by (auto simp: main_run_def redis_new_def Let_def main_after_serve_cases ledger_consumers_ids
      ledger_consumers_block ledger_consumer_block default_block_duration_def worker_stop_margin_def)

end
