(* ===== verification/Examples.thy ===== *)
theory Examples
  imports ConsumerNetwork VerifyNetwork RebuildRace Service LifeCycle
begin

section \<open>A small store for concrete runs\<close>

text \<open>
  One active board, one closed board and one player on the in-memory server, with validators that
  accept every string but the empty one. The concrete instances of the properties run on it.
\<close>

definition demo_ext :: ext where
  "demo_ext = \<lparr>uuid_parse_ok = (\<lambda>s. s \<noteq> []), strvalid_ok = (\<lambda>_ s. s \<noteq> []),
     strvalid_unicode_ok = (\<lambda>_ _. True), strvalid_normalize = (\<lambda>_ s. s)\<rparr>"

definition demo_time :: time where "demo_time = 10957 * day_ns"

definition demo_board :: board where
  "demo_board = \<lparr>bd_id = ''main'', bd_name = ''Main'', bd_state = board_active, bd_created = demo_time\<rparr>"

definition demo_closed :: board where
  "demo_closed = \<lparr>bd_id = ''old'', bd_name = ''Old'', bd_state = board_closed, bd_created = demo_time\<rparr>"

definition demo_player :: profile where
  "demo_player = \<lparr>pf_id = ''p1'', pf_name = ''Ann'', pf_created = demo_time\<rparr>"

definition demo_keys :: keyspace where
  "demo_keys = player_created demo_player [] (board_created demo_closed (board_created demo_board Map.empty))"

definition demo :: mem where
  "demo = \<lparr>m_keys = demo_keys, m_clock = 1000\<rparr>"

lemma demo_sel [simp]: "m_keys demo = demo_keys"
  by (simp add: demo_def)

lemma demo_in_years [simp]: "in_years demo_time"
proof -
  have "demo_time div day_ns = 10957" by (simp add: demo_time_def day_ns_def)
  moreover have "civil_of 10957 = civil_of (days_of (2000, 1, 1))" by (simp add: days_of_def)
  moreover have "civil_of (days_of (2000, 1, 1)) = (2000, 1, 1)"
    by (rule civil_of_days_of) (simp add: date_ok_def month_lens_def)
  ultimately show ?thesis by (simp add: in_years_def)
qed

lemma demo_boards [simp]:
  "bd_id demo_board = ''main''" "bd_state demo_board = board_active" "bd_created demo_board = demo_time"
  "bd_id demo_closed = ''old''" "bd_state demo_closed = board_closed" "bd_created demo_closed = demo_time"
  "pf_id demo_player = ''p1''" "pf_created demo_player = demo_time"
  "board_state_validate board_active" "board_state_validate board_closed"
  by (simp_all add: demo_board_def demo_closed_def demo_player_def board_state_validate_def)

lemma demo_world [simp]: "world_inv X B demo_keys"
proof -
  have 1: "world_inv X UNIV (board_created demo_board Map.empty)"
    by (rule board_created_world [OF world_inv_empty]) simp_all
  have 2: "world_inv X UNIV (board_created demo_closed (board_created demo_board Map.empty))"
    by (rule board_created_world [OF 1]) simp_all
  have "world_inv X UNIV demo_keys"
    unfolding demo_keys_def by (rule player_created_world [OF 2]) (simp_all add: board_created_other)
  then show ?thesis by (rule world_inv_subset) simp
qed

lemma demo_ledger [simp]: "ledger_of demo_keys = []"
  by (simp add: demo_keys_def ledger_of_def board_created_other player_created_other)

lemma demo_room [simp]: "last_sid [] < sid_max"
  by (simp add: last_sid_def sid_max_def)

lemma demo_present [simp]: "demo_keys (player_profile_key ''p1'') \<noteq> None"
  "demo_keys (board_profile_key ''main'') \<noteq> None" "demo_keys (board_profile_key ''old'') \<noteq> None"
  by (simp_all add: demo_keys_def player_created_def board_created_def)

lemma demo_states [simp]: "board_state_of demo_keys ''main'' = Some board_active"
  "board_state_of demo_keys ''old'' = Some board_closed"
  by (simp_all add: demo_keys_def player_created_def board_created_def board_state_of_def board_fields_def)

lemma demo_no_records [simp]: "idem_record demo_keys b p k = None"
  by (simp add: idem_record_def demo_keys_def board_created_other player_created_other)

lemma demo_writable [simp]: "writable demo_ext event_set ''p1'' b 5 ''r1'' \<longleftrightarrow> b \<noteq> []"
  by (simp add: writable_def demo_ext_def player_id_validate_def score_validate_abs score_max_def)

lemma demo_decide [simp]:
  "decide Map.empty demo_keys event_set ''p1'' ''main'' 5 k = None"
  "decide Map.empty demo_keys event_set ''p1'' ''old'' 5 k = Some (apply_code_board_closed, [])"
  by (simp_all add: decide_def new_score_def score_validate_abs score_max_def board_active_def board_closed_def)

text \<open>The same store after the player's first score, sent with an idempotency key.\<close>

definition demo_scored :: mem where
  "demo_scored = \<lparr>m_keys = score_applied (1000, 0) event_set ''p1'' ''main'' 5 5 ''r1'' ''k1'' demo_keys,
     m_clock = 1001\<rparr>"

lemma demo_wrote: "wrote demo_ext event_set ''p1'' ''main'' 5 ''r1'' ''k1'' demo_keys (m_keys demo_scored)"
  unfolding wrote_def
  by (intro exI [of _ "(1000, 0)"])
    (simp add: demo_scored_def sid_ok_def last_sid_def new_score_def score_validate_abs score_max_def)

lemma demo_scored_world [simp]: "world_inv demo_ext UNIV (m_keys demo_scored)"
  by (rule wrote_world_inv [OF demo_wrote]) simp_all

lemma demo_scored_inv [simp]: "world_inv demo_ext B (m_keys demo_scored)"
  by (rule world_inv_subset [OF demo_scored_world]) simp

lemma demo_scored_ledger [simp]:
  "ledger_of (m_keys demo_scored) = [((1000, 0), ledger_fields event_set ''p1'' ''main'' (format_int 5) ''r1'')]"
  by (simp add: demo_scored_def)

lemma demo_scored_room [simp]: "last_sid (ledger_of (m_keys demo_scored)) < sid_max"
  by (simp add: last_sid_def sid_max_def)

lemma demo_scores:
  "board_scores demo_ext c (ledger_of (m_keys demo_scored)) = (if c = ''main'' then [''p1'' \<mapsto> 5] else Map.empty)"
  using wrote_scores [OF demo_wrote, of c] by (simp add: new_score_def)

definition demo_row :: standing where
  "demo_row = \<lparr>st_player = ''p1'', st_score = 5, st_rank = 1\<rparr>"

lemma demo_ranking: "is_ranking [''p1'' \<mapsto> 5] rows \<longleftrightarrow> rows = [demo_row]"
proof -
  have "is_ranking [''p1'' \<mapsto> 5] [demo_row]" by (auto simp: is_ranking_def demo_row_def)
  then show ?thesis using is_ranking_unique by blast
qed

lemma demo_scored_board [simp]: "m_keys demo_scored (board_profile_key ''main'') \<noteq> None"
  using demo_present(2) by (simp add: demo_scored_def score_applied_other)

text \<open>A consumer without a cursor starts at the head of the ledger.\<close>

lemma demo_scored_key:
  assumes "k \<noteq> ledger_key" "k \<noteq> leaderboard_key ''main''" "k \<noteq> idempotency_hash_key"
  shows "m_keys demo_scored k = demo_keys k"
  using assms by (simp add: demo_scored_def score_applied_other)

lemma demo_keys_zkey [simp]: "is_zkey k \<Longrightarrow> demo_keys k = None"
  by (simp add: demo_keys_def board_created_other player_created_other)

lemma demo_scored_tail:
  "tail_ok demo_ext me (m_keys demo_scored)" "tail_pos me (m_keys demo_scored) = 0"
proof -
  have cur: "m_keys demo_scored (consumer_cursor_key me) = None"
    by (simp add: demo_scored_key) (simp add: demo_keys_def board_created_other player_created_other)
  show "tail_ok demo_ext me (m_keys demo_scored)"
    using cur by (simp add: tail_ok_def cursor_ok_def sid_indexable_def)
  show "tail_pos me (m_keys demo_scored) = 0"
    using cur by (simp add: tail_pos_def entries_upto_def cursor_sid_def)
qed

lemma demo_scored_contents:
  "history_content (m_keys demo_scored) = (\<lambda>_. Map.empty)" "daily_content (m_keys demo_scored) = (\<lambda>_. Map.empty)"
proof -
  have "m_keys demo_scored k = None" if "is_zkey k" for k
    using that by (simp add: demo_scored_key)
  then have "zset_at (m_keys demo_scored) k = []" if "is_zkey k" for k
    using that by (simp add: zset_at_def)
  then show "history_content (m_keys demo_scored) = (\<lambda>_. Map.empty)" "daily_content (m_keys demo_scored) = (\<lambda>_. Map.empty)"
    by (auto simp: history_content_def daily_content_def fun_eq_iff is_zkey_def)
qed

lemma demo_scored_day: "day_content d (m_keys demo_scored) = (\<lambda>_. Map.empty)"
  by (simp add: day_content_def demo_scored_contents)

lemma demo_rebuilding: "rebuilding demo_ext U ''old'' demo_keys"
  by (simp add: rebuilding_def closed_def ledger_sound_def stream_ok_def scores_bounded_def)

lemma demo_scored_events:
  "events_of demo_ext (ledger_of (m_keys demo_scored)) = [event_of (1000, 0) event_set ''p1'' ''main'' 5 ''r1'']"
  by (simp add: events_of_def entry_to_event_ledger)

lemma demo_scored_decoded:
  "e \<in> set (ledger_of (m_keys demo_scored)) \<Longrightarrow> decoded demo_ext e = event_of (1000, 0) event_set ''p1'' ''main'' 5 ''r1''"
  by (simp add: decoded_def entry_to_event_ledger)

lemma demo_records: "player_records demo_keys = []"
  by (simp add: player_records_def demo_keys_def board_created_other player_created_def Let_def)

lemma demo_keys_player: "demo_keys (player_profile_key p) = None \<longleftrightarrow> p \<noteq> ''p1''"
  by (simp add: demo_keys_def board_created_other player_created_def)

subsection \<open>Requests\<close>

text \<open>Parsers that take the default of a query and the value 5 of a body, and a request for the feed.\<close>

definition demo_http :: http_ext where
  "demo_http = \<lparr>parse_int_query = (\<lambda>rq name d lo hi. Inr d), read_json_int = (\<lambda>rq name n. Inr (Some 5)),
     read_json_text = (\<lambda>rq names n. Inr (\<lambda>_. ''Main''))\<rparr>"

definition demo_request :: "(string \<rightharpoonup> string list) \<Rightarrow> request" where
  "demo_request q = \<lparr>rq_method = ''PUT'', rq_path = ''/'',
     rq_values = (\<lambda>v. if v = board_id_path_value then ''main'' else ''p1''), rq_query = q,
     rq_headers = Map.empty, rq_body = [], rq_context_id = ''r1'', rq_remote = ''10.0.0.1:4711''\<rparr>"

lemma demo_ids [simp]: "ids_nonempty demo_ext"
  by (simp add: ids_nonempty_def demo_ext_def)

lemma demo_accepts [simp]: "accepts_write demo_http demo_ext field (demo_request q) ''main'' ''p1'' [] 5"
  by (simp add: accepts_write_def demo_http_def demo_request_def demo_ext_def board_id_from_path_def
      player_id_from_path_def board_id_validate_def player_id_validate_def read_idempotency_key_def
      board_id_path_value_def player_id_path_value_def score_validate_abs score_max_def)

lemma demo_request_id [simp]: "request_id fresh (demo_request q) = ''r1''"
  by (simp add: request_id_def demo_request_def)

lemma demo_asks [simp]: "asks demo_http 50 (\<lambda>c. demo_request [after_query \<mapsto> [c]])"
  by (simp add: asks_def demo_http_def demo_request_def first_value_def default_event_limit_def)

lemma demo_path [simp]:
  "board_id_from_path demo_ext (demo_request q) = Inr ''main''" "player_id_from_path demo_ext (demo_request q) = Inr ''p1''"
  using demo_accepts [of "[]" q] by (simp_all add: accepts_write_def)

lemma demo_day [simp]:
  "parse_date_query (demo_request [as_of_query \<mapsto> [format_date demo_time]]) as_of_query = Inr demo_time"
  "rq_query (demo_request q) = q"
proof -
  have "demo_time mod day_ns = 0" by (simp add: demo_time_def)
  then show "parse_date_query (demo_request [as_of_query \<mapsto> [format_date demo_time]]) as_of_query = Inr demo_time"
    using parse_format_date [OF demo_in_years]
    by (simp add: parse_date_query_def demo_request_def first_value_def)
qed (simp add: demo_request_def)

lemma demo_pages [simp]:
  "parse_int_query demo_http rq name d lo hi = Inr d"
  by (simp add: demo_http_def)

text \<open>A bucket that counts its burst down and is never refilled.\<close>

definition demo_rate :: "int rate_ext" where
  "demo_rate = \<lparr>new_limiter = (\<lambda>rps burst. burst), limiter_allow = (\<lambda>t n. (0 < n, n - 1))\<rparr>"

definition demo_ambient :: "mem ambient" where
  "demo_ambient = \<lparr>am_now = demo_time, am_asked = demo_time, am_request_id = ''r1'', am_uuid = ''u'',
     am_version = ''dev'', am_ping = io_ret ()\<rparr>"

definition demo_put :: request where
  "demo_put = (demo_request Map.empty)\<lparr>rq_method := ''PUT'', rq_path := score_path ''main'' ''p1''\<rparr>"

definition demo_get :: request where
  "demo_get = (demo_request Map.empty)\<lparr>rq_method := ''GET'', rq_path := score_path ''main'' ''p1''\<rparr>"

lemma demo_validators [simp]:
  "board_id_validate demo_ext ''main''" "player_id_validate demo_ext ''p1''"
  by (simp_all add: board_id_validate_def player_id_validate_def demo_ext_def)

lemma demo_put_get [simp]:
  "rq_method demo_put = ''PUT''" "rq_path demo_put = score_path ''main'' ''p1''" "read_idempotency_key demo_put = Inr []"
  "rq_method demo_get = ''GET''" "rq_path demo_get = score_path ''main'' ''p1''"
  by (simp_all add: demo_put_def demo_get_def demo_request_def read_idempotency_key_def)

lemma demo_read_json [simp]: "read_json_int demo_http rq name n = Inr (Some 5)"
  by (simp add: demo_http_def)

lemma demo_uuid [simp]: "am_uuid demo_ambient \<noteq> []"
  by (simp add: demo_ambient_def)

subsection \<open>A disturbed network\<close>

text \<open>A network that loses the reply to the first batch's writes, with a client that only looks on.\<close>

definition lossy :: "mem world" where
  "lossy = \<lparr>srv = demo_scored, net = [Xch [id] None, Xch [] None, Xch [id] (Some 1), Xch [] (Some 0)]\<rparr>"

lemma lossy_start:
  "others_do (beside demo_ext mem_redis m_keys me content) lossy" "srv lossy = demo_scored"
  "m_keys demo_scored (consumer_cursor_key me) = None"
proof -
  show "others_do (beside demo_ext mem_redis m_keys me content) lossy"
    by (simp add: others_do_def lossy_def beside_def)
  show "m_keys demo_scored (consumer_cursor_key me) = None"
    by (simp add: demo_scored_key) (simp add: demo_keys_def board_created_other player_created_other)
qed (simp add: lossy_def)

lemma lost_request:
  "run_consumer c [awake] \<lparr>srv = s, net = [Xch [id] (Some 0)]\<rparr> = (False, quiet s)" if "cn_store c = ledger_store X R"
  using that by (simp add: process_once_def io_bind_def ledger_store_def load_cursor_def call_def exchange_def quiet_def)

lemma seen_exchange: "call c \<lparr>srv = s, net = [Xch [id] None]\<rparr> = call c (quiet s)"
  by (simp add: call_def exchange_def quiet_def split: prod.splits)

text \<open>A closed board with one increment in the ledger, whatever its leaderboard holds.\<close>

definition demo_increment :: mem where
  "demo_increment = demo\<lparr>m_keys := demo_keys(ledger_key \<mapsto>
     Stream [((1000, 0), ledger_fields event_increment ''p1'' ''old'' (format_int 5) ''r1'')])\<rparr>"

lemma demo_increment_event:
  "entry_to_event demo_ext (to_msg ((1000, 0), ledger_fields event_increment ''p1'' ''old'' (format_int 5) ''r1'')) =
    Inr (event_of (1000, 0) event_increment ''p1'' ''old'' 5 ''r1'')"
proof (rule entry_to_event_ledger)
  show "writable demo_ext event_increment ''p1'' ''old'' 5 ''r1''"
    by (simp add: writable_def demo_ext_def player_id_validate_def score_validate_abs score_max_def)
qed

lemma demo_increment_ledger:
  "ledger_of (m_keys demo_increment) = [((1000, 0), ledger_fields event_increment ''p1'' ''old'' (format_int 5) ''r1'')]"
  "as_stream (m_keys demo_increment ledger_key) = Some (ledger_of (m_keys demo_increment))"
  "board_events demo_ext ''old'' (ledger_of (m_keys demo_increment)) = [event_of (1000, 0) event_increment ''p1'' ''old'' 5 ''r1'']"
  "m_keys demo_increment (board_profile_key ''old'') \<noteq> None"
  by (simp_all add: demo_increment_def ledger_of_def board_events_def events_of_single [OF demo_increment_event])

lemma demo_increment_wf: "ledger_wf demo_ext (ledger_of (m_keys demo_increment))"
proof -
  have "ledger_sound demo_ext UNIV ([] @ [((1000, 0), ledger_fields event_increment ''p1'' ''old'' (format_int 5) ''r1'')])"
    by (rule ledger_sound_snoc [OF _ _ _ demo_increment_event])
      (auto simp: ledger_sound_def stream_ok_def sid_ok_def last_sid_def scores_bounded_def replay1_def
        board_scores_def board_events_def events_of_def replay_def score_validate_abs score_max_def)
  then show ?thesis by (simp add: ledger_wf_def demo_increment_ledger)
qed

definition other_del :: "mem \<Rightarrow> mem" where
  "other_del s = snd (del_c mem_redis (board_verify_key ''main'') s)"

lemma other_del_keys [simp]: "m_keys (other_del s) = (m_keys s)(board_verify_key ''main'' := None)"
  by (simp add: other_del_def mem_redis_def Let_def mem_run_def doc_cmds)

lemma other_del_client: "clients X mem_redis m_keys U s (other_del s)"
proof -
  have "client_step X mem_redis m_keys U s (other_del s)" unfolding other_del_def by (rule step_del)
  moreover have "ledger_of (m_keys (other_del s)) = ledger_of (m_keys s)" by (simp add: ledger_of_upd)
  ultimately show ?thesis by (auto simp: clients_def room_def)
qed

text \<open>
  Two verifications of one board: the deferred deletion of the second lands between the first one's
  fold and its reading of the scratch key, and the first reports every score as drifted.
\<close>

lemma verify_false_alarm:
  "\<exists>net mismatches w'. others_do (clients demo_ext mem_redis m_keys {}) \<lparr>srv = demo_scored, net = net\<rparr> \<and>
    verify_projection demo_ext mem_redis ''main'' \<lparr>srv = demo_scored, net = net\<rparr> = (Inr mismatches, w') \<and>
    mismatches \<noteq> [] \<and> world_inv demo_ext UNIV (m_keys demo_scored)"
proof -
  let ?still = "Xch [] None :: mem xch" and ?vk = "board_verify_key ''main''"
  let ?net = "[?still, ?still, ?still, ?still, ?still, Xch [other_del] None]"
  let ?ev = "event_of (1000, 0) event_set ''p1'' ''main'' 5 ''r1''"
  have others: "others_do (clients demo_ext mem_redis m_keys {}) \<lparr>srv = demo_scored, net = ?net\<rparr>"
    using other_del_client by (simp add: others_do_def)
  have inv: "ledger_inv demo_ext UNIV (m_keys demo_scored)"
    using demo_scored_world by (simp add: world_inv_def store_inv_def)
  then obtain live where live: "as_zset (m_keys demo_scored (leaderboard_key ''main'')) = Some live"
    "z_map live = as_scores [''p1'' \<mapsto> 5]"
    using demo_scores [of "''main''"] unfolding ledger_inv_def projection_ok_def by fastforce
  have "z_map live ''p1'' \<noteq> None" by (simp add: live(2) as_scores_def)
  then have "live \<noteq> []" by auto
  have stream: "as_stream (m_keys demo_scored ledger_key) = Some (ledger_of (m_keys demo_scored))"
    using ledger_inv_stream [OF inv] by simp
  have evs: "board_events_of demo_ext ''main'' (map to_msg (ledger_of (m_keys demo_scored))) = Inr [?ev]"
    using board_events_of_ledger [of "ledger_of (m_keys demo_scored)" demo_ext "''main''"] demo_scored_events
    by (simp add: entry_to_event_ledger board_events_def)
  let ?s1 = "demo_scored\<lparr>m_keys := (m_keys demo_scored)(?vk := None)\<rparr>"
  let ?s2 = "demo_scored\<lparr>m_keys := (m_keys demo_scored)(?vk \<mapsto> ZSet [(Fin 5, ''p1'')])\<rparr>"
  have c1: "exists_c mem_redis (board_profile_key ''main'') demo_scored = (Inr 1, demo_scored)"
    by (simp add: mem_redis_def Let_def mem_run_def doc_cmds)
  have c2: "xrange_c mem_redis ledger_key ''-'' ''+'' None demo_scored =
      (Inr (map to_msg (ledger_of (m_keys demo_scored))), demo_scored)"
    using stream inv by (simp add: mem_redis_def Let_def mem_run_def doc_cmds limit_count_def ledger_inv_def ledger_sound_def
        del: demo_scored_ledger)
  have c3: "snd (del_c mem_redis ?vk demo_scored) = ?s1" "\<exists>n. fst (del_c mem_redis ?vk demo_scored) = Inr n"
    by (simp_all add: mem_redis_def Let_def mem_run_def doc_cmds)
  have c4: "zadd_c mem_redis ?vk (f64_of_int 5) ''p1'' ?s1 = (Inr (), ?s2)"
    by (simp add: mem_redis_def Let_def mem_run_def doc_cmds f64_of_int_exact z_add_def)
  have c5: "zrange_c mem_redis (leaderboard_key ''main'') 0 (- 1) False ?s2 = (Inr live, ?s2)"
    using live(1) by (simp add: mem_redis_def Let_def mem_run_def doc_cmds)
  have c6: "zrange_c mem_redis ?vk 0 (- 1) False (other_del ?s2) = (Inr [], other_del ?s2)"
    by (simp add: mem_redis_def Let_def mem_run_def doc_cmds)
  obtain r3 where r3: "del_c mem_redis ?vk demo_scored = (Inr r3, ?s1)" using c3 by (metis prod.collapse)
  have "fst (verify_projection demo_ext mem_redis ''main'' \<lparr>srv = demo_scored, net = ?net\<rparr>) =
      Inr (board_mismatches ''main'' (map (\<lambda>z. (snd z, fst z)) live) [])"
    using evs c1 c2 r3 c4 c5 c6
    by (simp add: verify_projection_def require_board_def read_board_events_def fold_into_def diff_board_def zset_scores_def
        io_defer_def io_bind_def call_still call_after call_quiet del: demo_scored_ledger)
  moreover have "board_mismatches ''main'' (map (\<lambda>z. (snd z, fst z)) live) [] \<noteq> []"
    using \<open>live \<noteq> []\<close> by (cases live) (auto simp: board_mismatches_def)
  ultimately show ?thesis
    by (intro exI [of _ ?net] exI [of _ "board_mismatches ''main'' (map (\<lambda>z. (snd z, fst z)) live) []"]
        exI [of _ "snd (verify_projection demo_ext mem_redis ''main'' \<lparr>srv = demo_scored, net = ?net\<rparr>)"] conjI)
      (rule others, simp only: prod_eq_iff fst_conv snd_conv simp_thms, simp_all)
qed

subsection \<open>A damaged store\<close>

text \<open>A board whose creation time does not parse, registered beside a sound one.\<close>

definition damaged_fields :: "string \<Rightarrow> fields" where
  "damaged_fields b = (if b = ''bad'' then [(''board_name'', ''Bad''), (''created_at'', [])] else board_fields demo_board)"

definition damaged :: mem where
  "damaged = \<lparr>m_keys = Map.empty(board_index_key \<mapsto> ZSet [(Fin 0, ''bad''), (Fin 1, ''main'')],
     board_profile_key ''bad'' \<mapsto> Hash (damaged_fields ''bad''),
     board_profile_key ''main'' \<mapsto> Hash (damaged_fields ''main'')), m_clock = 1\<rparr>"

lemma damaged_store:
  "as_zset (m_keys damaged board_index_key) = Some (board_index (m_keys damaged))"
  "snd ` set (board_index (m_keys damaged)) = {''bad'', ''main''}"
  "b \<in> {''bad'', ''main''} \<Longrightarrow> as_hash (m_keys damaged (board_profile_key b)) = Some (damaged_fields b)"
  "bad_timestamp (damaged_fields ''bad'')"
  by (auto simp: damaged_def board_index_def key_defs board_index_key_def board_profile_key_def)
    (simp_all add: damaged_fields_def bad_timestamp_def board_field_defs parse_time_def p_bind_def get_date_def get_year_def)

end
