(* ===== verification/JsonBody.thy ===== *)
theory JsonBody
  imports Http
begin

section \<open>Replies as JSON values, as the service writes and its clients read them\<close>

text \<open>
  The service encodes its response structs and the scripts decode them into their own, by the field
  names in the tags on either side. A JSON value is a \<open>json\<close>; the text between the two ends is left
  out: for valid UTF-8 \<open>encoding/json\<close> reads back what it wrote. Decoding follows
  \<open>json.Unmarshal\<close>: a field that is missing or null stays at its zero value, other fields are
  ignored, and a value of another type is an error (\<open>None\<close>).
\<close>

datatype json = JNull | JBool bool | JInt int | JFloat f64 | JStr string | JArr "json list" | JObj "(string \<times> json) list"

subsection \<open>Encoding (the tags of package \<open>handlers\<close>)\<close>

text \<open>A field tagged \<open>omitempty\<close> is left out when it is empty.\<close>

definition omit_empty :: "string \<Rightarrow> string \<Rightarrow> (string \<times> json) list" where
  "omit_empty k s = (if s = [] then [] else [(k, JStr s)])"

definition enc_offset_meta :: "offset_meta \<Rightarrow> json" where
  "enc_offset_meta m = JObj [(''limit'', JInt (om_limit m)), (''offset'', JInt (om_offset m)), (''total'', JInt (om_total m))]"

definition enc_cursor_meta :: "cursor_meta \<Rightarrow> json" where
  "enc_cursor_meta m = JObj [(''limit'', JInt (cm_limit m)), (''next_after'', JStr (cm_next_after m))]"

definition enc_limit_meta :: "int \<Rightarrow> json" where
  "enc_limit_meta n = JObj [(''limit'', JInt n)]"

definition enc_total_meta :: "int \<Rightarrow> json" where
  "enc_total_meta n = JObj [(''total'', JInt n)]"

definition enc_score_event :: "score_event \<Rightarrow> json" where
  "enc_score_event e = JObj
     [(''event_id'', JStr (se_id e)), (''type'', JStr (se_type e)), (''player_id'', JStr (se_player e)),
      (''board_id'', JStr (se_board e)), (''amount'', JInt (se_amount e)), (''request_id'', JStr (se_request e)),
      (''created_at'', JStr (se_created e))]"

definition enc_score_entry :: "score_entry \<Rightarrow> json" where
  "enc_score_entry e = JObj
     [(''player_id'', JStr (sc_player e)), (''score'', JInt (sc_score e)), (''rank'', JInt (sc_rank e))]"

definition enc_board :: "board_resp \<Rightarrow> json" where
  "enc_board b = JObj
     [(''board_id'', JStr (br_id b)), (''board_name'', JStr (br_name b)), (''status'', JStr (br_state b)),
      (''created_at'', JStr (br_created b))]"

definition enc_player :: "player_resp \<Rightarrow> json" where
  "enc_player p = JObj [(''player_id'', JStr (pr_id p)), (''player_name'', JStr (pr_name p))]"

definition enc_mismatch :: "mismatch_resp \<Rightarrow> json" where
  "enc_mismatch m = JObj
     [(''board_id'', JStr (mr_board m)), (''player_id'', JStr (mr_player m)), (''live_score'', JFloat (mr_live m)),
      (''live_present'', JBool (mr_live_present m)), (''replay_score'', JFloat (mr_replay m)),
      (''replay_present'', JBool (mr_replay_present m))]"

definition enc_activity_entry :: "string \<times> int \<Rightarrow> json" where
  "enc_activity_entry e = JObj [(''player_id'', JStr (fst e)), (''count'', JInt (snd e))]"

definition enc_health :: "health_resp \<Rightarrow> json" where
  "enc_health h = JObj ((''status'', JStr (hl_status h)) # omit_empty ''dependency'' (hl_dependency h))"

definition enc_history :: "string \<Rightarrow> score_event list \<Rightarrow> int \<Rightarrow> json" where
  "enc_history p es limit = JObj
     [(''player_id'', JStr p), (''events'', JArr (map enc_score_event es)), (''metadata'', enc_limit_meta limit)]"

definition enc_list_scores :: "score_entry list \<Rightarrow> offset_meta \<Rightarrow> json" where
  "enc_list_scores es m = JObj [(''scores'', JArr (map enc_score_entry es)), (''metadata'', enc_offset_meta m)]"

definition enc_rank :: "score_entry \<Rightarrow> int \<Rightarrow> json" where
  "enc_rank e tot = JObj [(''standing'', enc_score_entry e), (''metadata'', enc_total_meta tot)]"

definition enc_list_events :: "score_event list \<Rightarrow> cursor_meta \<Rightarrow> json" where
  "enc_list_events es m = JObj [(''events'', JArr (map enc_score_event es)), (''metadata'', enc_cursor_meta m)]"

definition enc_get_board :: "board_resp \<Rightarrow> json" where
  "enc_get_board b = JObj [(''board'', enc_board b)]"

definition enc_list_boards :: "board_resp list \<Rightarrow> json" where
  "enc_list_boards bs = JObj [(''boards'', JArr (map enc_board bs))]"

definition enc_create_player :: "player_resp \<Rightarrow> json" where
  "enc_create_player p = JObj [(''player'', enc_player p)]"

definition enc_get_player :: "player_resp \<Rightarrow> json" where
  "enc_get_player p = JObj [(''player'', enc_player p)]"

definition enc_verify :: "mismatch_resp list \<Rightarrow> json" where
  "enc_verify ms = JObj [(''mismatches'', JArr (map enc_mismatch ms))]"

definition enc_activity :: "string \<Rightarrow> (string \<times> int) list \<Rightarrow> int \<Rightarrow> json" where
  "enc_activity d es limit = JObj
     [(''date'', JStr d), (''entries'', JArr (map enc_activity_entry es)), (''metadata'', enc_limit_meta limit)]"

text \<open>The bodies written as JSON by the types of this repository; errors are shaped by \<open>httputils\<close>.\<close>

fun encode_body :: "body \<Rightarrow> json option" where
  "encode_body (HistoryResp p es limit) = Some (enc_history p es limit)"
| "encode_body (ListScoresResp es m) = Some (enc_list_scores es m)"
| "encode_body (RankResp e tot) = Some (enc_rank e tot)"
| "encode_body (ListEventsResp es m) = Some (enc_list_events es m)"
| "encode_body (GetBoardResp b) = Some (enc_get_board b)"
| "encode_body (ListBoardsResp bs) = Some (enc_list_boards bs)"
| "encode_body (CreatePlayerResp p) = Some (enc_create_player p)"
| "encode_body (GetPlayerResp p) = Some (enc_get_player p)"
| "encode_body (VerifyProjectionResp ms) = Some (enc_verify ms)"
| "encode_body (ListDailyActivityResp d es limit) = Some (enc_activity d es limit)"
| "encode_body (HealthResp h) = Some (enc_health h)"
| "encode_body _ = None"

subsection \<open>Decoding\<close>

fun as_str :: "json \<Rightarrow> string option" where
  "as_str (JStr s) = Some s" | "as_str _ = None"

fun as_int :: "json \<Rightarrow> int option" where
  "as_int (JInt n) = Some n" | "as_int _ = None"

fun as_list :: "(json \<Rightarrow> 'a option) \<Rightarrow> json \<Rightarrow> 'a list option" where
  "as_list dec (JArr xs) = those (map dec xs)" | "as_list dec _ = None"

definition obj_field :: "string \<Rightarrow> (json \<Rightarrow> 'a option) \<Rightarrow> 'a \<Rightarrow> json \<Rightarrow> 'a option" where
  "obj_field k dec zero j =
     (case j of
        JObj fs \<Rightarrow> (case map_of fs k of None \<Rightarrow> Some zero | Some JNull \<Rightarrow> Some zero | Some v \<Rightarrow> dec v)
      | JNull \<Rightarrow> Some zero
      | _ \<Rightarrow> None)"

lemma those_map_enc: "(\<And>x. dec (enc x) = Some x) \<Longrightarrow> those (map dec (map enc xs)) = Some xs"
  by (induction xs) simp_all

lemma those_map_Some [simp]: "those (map Some xs) = Some xs"
  by (induction xs) simp_all

lemma obj_field_enc [simp]:
  "obj_field k dec zero (JObj ((k', v) # fs)) =
    (if k = k' then (if v = JNull then Some zero else dec v) else obj_field k dec zero (JObj fs))"
  "obj_field k dec zero (JObj []) = Some zero"
  by (auto simp: obj_field_def split: json.splits)

end
