(* ===== verification/ApexHttp.thy ===== *)
theory ApexHttp
  imports Service Standings JsonBody
begin

section \<open>The API client of the scripts (\<open>apiscripts/apexhttp\<close>)\<close>

text \<open>
  The calls the load and verification scripts make. The HTTP client (resty) is the parameter \<open>rc\<close>: a
  method, a path with its query and a body give a transport error, or a status and the reply. A call
  decodes the JSON of a 2xx reply into its response type (\<open>SetResult\<close>); a value of another type than
  the field's is an error, and any other reply leaves the zero value.
\<close>

datatype client_body = NoReqBody | IntField string int | TextField string string

datatype 'e client_error = Transport 'e | UndecodableReply | UnexpectedStatus int body | EmptyPlayerId | ProjectionDrift nat

type_synonym ('w, 'e) resty = "string \<Rightarrow> string \<Rightarrow> client_body \<Rightarrow> ('w, 'e, int \<times> body) io"

definition do_json :: "(body \<Rightarrow> 'a option) \<Rightarrow> ('w, 'e) resty \<Rightarrow> string \<Rightarrow> string \<Rightarrow> client_body \<Rightarrow> int list \<Rightarrow>
    ('w, 'e client_error, 'a) io" where
  "do_json decode rc method path b expected w =
     (case rc method path b w of
        (Inl e, w') \<Rightarrow> (Inl (Transport e), w')
      | (Inr (status, reply), w') \<Rightarrow>
          (case decode (if 200 \<le> status \<and> status < 300 then reply else NoBody) of
             None \<Rightarrow> Inl UndecodableReply
           | Some x \<Rightarrow> if status \<in> set expected then Inr x else Inl (UnexpectedStatus status reply), w'))"

text \<open>A result of type \<open>any\<close> takes every value.\<close>

definition decode_any :: "body \<Rightarrow> unit option" where
  "decode_any r = Some ()"

subsection \<open>Response types\<close>

text \<open>One decoder per struct, by its tags. Both ends keep numbers as \<open>int64\<close>, so none is out of range.\<close>

definition decode_reply :: "(json \<Rightarrow> 'a option) \<Rightarrow> 'a \<Rightarrow> body \<Rightarrow> 'a option" where
  "decode_reply dec zero r = (case encode_body r of None \<Rightarrow> Some zero | Some j \<Rightarrow> dec j)"

definition no_standing :: score_entry where
  "no_standing = \<lparr>sc_player = [], sc_score = 0, sc_rank = 0\<rparr>"

definition dec_standing :: "json \<Rightarrow> score_entry option" where
  "dec_standing j =
     (case (obj_field ''player_id'' as_str [] j, obj_field ''rank'' as_int 0 j, obj_field ''score'' as_int 0 j) of
        (Some p, Some r, Some n) \<Rightarrow> Some \<lparr>sc_player = p, sc_score = n, sc_rank = r\<rparr>
      | _ \<Rightarrow> None)"

definition dec_create_player :: "json \<Rightarrow> string option" where
  "dec_create_player = obj_field ''player'' (obj_field ''player_id'' as_str []) []"

definition dec_score_event :: "json \<Rightarrow> score_event option" where
  "dec_score_event j =
     (case (obj_field ''event_id'' as_str [] j, obj_field ''type'' as_str [] j, obj_field ''player_id'' as_str [] j,
            obj_field ''board_id'' as_str [] j, obj_field ''amount'' as_int 0 j, obj_field ''request_id'' as_str [] j,
            obj_field ''created_at'' as_str [] j) of
        (Some i, Some t, Some p, Some b, Some n, Some rq, Some c) \<Rightarrow>
          Some \<lparr>se_id = i, se_type = t, se_player = p, se_board = b, se_amount = n, se_request = rq, se_created = c\<rparr>
      | _ \<Rightarrow> None)"

definition dec_verify :: "json \<Rightarrow> json list option" where
  "dec_verify = obj_field ''mismatches'' (as_list Some) []"

definition dec_history :: "json \<Rightarrow> (string \<times> score_event list) option" where
  "dec_history j =
     (case (obj_field ''player_id'' as_str [] j, obj_field ''events'' (as_list dec_score_event) [] j) of
        (Some p, Some es) \<Rightarrow> Some (p, es) | _ \<Rightarrow> None)"

text \<open>Of the metadata only the total is used, but every field has to decode.\<close>

definition dec_page_total :: "json \<Rightarrow> int option" where
  "dec_page_total j =
     (case (obj_field ''limit'' as_int 0 j, obj_field ''offset'' as_int 0 j, obj_field ''total'' as_int 0 j) of
        (Some _, Some _, Some n) \<Rightarrow> Some n | _ \<Rightarrow> None)"

definition dec_total :: "json \<Rightarrow> int option" where
  "dec_total = obj_field ''metadata'' (obj_field ''total'' as_int 0) 0"

definition dec_list_scores :: "json \<Rightarrow> (score_entry list \<times> int) option" where
  "dec_list_scores j =
     (case (obj_field ''scores'' (as_list dec_standing) [] j, obj_field ''metadata'' dec_page_total 0 j) of
        (Some es, Some tot) \<Rightarrow> Some (es, tot) | _ \<Rightarrow> None)"

definition dec_standing_resp :: "json \<Rightarrow> (score_entry \<times> int) option" where
  "dec_standing_resp j =
     (case (obj_field ''standing'' dec_standing no_standing j, dec_total j) of
        (Some e, Some tot) \<Rightarrow> Some (e, tot) | _ \<Rightarrow> None)"

definition dec_activity_entry :: "json \<Rightarrow> (string \<times> int) option" where
  "dec_activity_entry j =
     (case (obj_field ''player_id'' as_str [] j, obj_field ''count'' as_int 0 j) of
        (Some p, Some n) \<Rightarrow> Some (p, n) | _ \<Rightarrow> None)"

definition dec_activity :: "json \<Rightarrow> (string \<times> (string \<times> int) list) option" where
  "dec_activity j =
     (case (obj_field ''date'' as_str [] j, obj_field ''entries'' (as_list dec_activity_entry) [] j,
            obj_field ''metadata'' (obj_field ''limit'' as_int 0) 0 j) of
        (Some d, Some es, Some _) \<Rightarrow> Some (d, es) | _ \<Rightarrow> None)"

text \<open>What the service writes, its clients read back.\<close>

lemmas enc_defs = enc_offset_meta_def enc_total_meta_def enc_limit_meta_def enc_history_def enc_list_scores_def
  enc_rank_def enc_create_player_def enc_player_def enc_verify_def enc_activity_def

lemma dec_enc [simp]:
  "dec_standing (enc_score_entry e) = Some e"
  "dec_score_event (enc_score_event ev) = Some ev"
  "dec_activity_entry (enc_activity_entry x) = Some x"
  by (simp_all add: dec_standing_def enc_score_entry_def dec_score_event_def enc_score_event_def
      dec_activity_entry_def enc_activity_entry_def)

lemma as_list_Some [simp]: "as_list Some (JArr xs) = Some xs"
  by simp

lemma enc_score_entry_not_null [simp]: "enc_score_entry e \<noteq> JNull"
  by (simp add: enc_score_entry_def)

lemma as_list_enc [simp]: "(\<And>x. dec (enc x) = Some x) \<Longrightarrow> as_list dec (JArr (map enc xs)) = Some xs"
  using those_map_enc [of dec enc xs] by simp

lemma decode_replies [simp]:
  "decode_reply dec_create_player z (CreatePlayerResp p) = Some (pr_id p)"
  "decode_reply dec_list_scores z' (ListScoresResp rows m) = Some (rows, om_total m)"
  "decode_reply dec_standing_resp z'' (RankResp e tot) = Some (e, tot)"
  "decode_reply dec_history h (HistoryResp p' es limit) = Some (p', es)"
  "decode_reply dec_activity d (ListDailyActivityResp day xs limit) = Some (day, xs)"
  "decode_reply dec_verify v (VerifyProjectionResp ms) = Some (map enc_mismatch ms)"
  by (simp_all add: decode_reply_def enc_defs dec_create_player_def dec_list_scores_def dec_total_def dec_page_total_def
      dec_standing_resp_def dec_history_def dec_activity_def dec_verify_def del: as_list.simps)

lemma decode_no_json [simp]:
  "decode_reply dec z NoBody = Some z" "decode_reply dec z (ErrorBody e) = Some z" "decode_reply dec z (RootText t) = Some z"
  by (simp_all add: decode_reply_def)

lemma decode_any_Some [simp]: "decode_any r = Some ()"
  by (simp add: decode_any_def)

subsection \<open>Calls\<close>

definition seed_board_id :: "string \<Rightarrow> time \<Rightarrow> string" where
  "seed_board_id prefix now = prefix @ ''-'' @ format_int (unix_milli now)"

fun join_with :: "string \<Rightarrow> string list \<Rightarrow> string" where
  "join_with sep [] = []"
| "join_with sep [x] = x"
| "join_with sep (x # y # xs) = x @ sep @ join_with sep (y # xs)"

definition player_names :: "string list" where
  "player_names =
    [''Alice'', ''Bob'', ''Carol'', ''Dave'', ''Erin'', ''Frank'',
     ''Grace'', ''Heidi'', ''Ivan'', ''Judy'', ''Kimberly'', ''Lulu'',
     ''Mallory'', ''Nicholas'', ''Olivia'', ''Pluto'', ''Queenie'',
     ''Rex Complex'', ''Steven Even'', ''Todd Odd'', ''Ursa'',
     ''Vortex'', ''Wilson'', ''Xyla'', ''Youhan'', ''Zera'']"

text \<open>The last five digits of the start in milliseconds; Go's remainder has the sign of the dividend.\<close>

definition run_stamp :: "time \<Rightarrow> int" where
  "run_stamp start = (let ms = unix_milli start in if ms < 0 then - (- ms mod 100000) else ms mod 100000)"

lemma run_stamp_digits: "\<bar>run_stamp start\<bar> < 100000"
  by (simp add: run_stamp_def Let_def)

definition api_player_name :: "int \<Rightarrow> nat \<Rightarrow> string list \<Rightarrow> string" where
  "api_player_name stamp i tags =
     (let parts = (player_names ! (i mod length player_names)) # tags;
          name = join_with ''-'' parts @ ''-'' @ format_int stamp;
          wrap = i div length player_names
      in if 0 < wrap then name @ ''-'' @ show_nat wrap else name)"

text \<open>\<open>pick\<close> is what \<open>rand.IntN\<close> draws.\<close>

definition random_player_name :: "int \<Rightarrow> nat \<Rightarrow> string list \<Rightarrow> string" where
  "random_player_name stamp pick tags = api_player_name stamp pick tags"

definition api_create_player :: "('w, 'e) resty \<Rightarrow> string \<Rightarrow> ('w, 'e client_error, string) io" where
  "api_create_player rc name =
     io_bind (do_json (decode_reply dec_create_player []) rc ''POST'' ''/api/v1/players'' (TextField ''player_name'' name) [201])
       (\<lambda>player_id. if player_id = [] then io_fail EmptyPlayerId else io_ret player_id)"

definition api_create_board :: "('w, 'e) resty \<Rightarrow> string \<Rightarrow> string \<Rightarrow> ('w, 'e client_error, unit) io" where
  "api_create_board rc board_id name =
     do_json decode_any rc ''PUT'' (''/api/v1/boards/'' @ board_id) (TextField ''board_name'' name) [201]"

definition api_ensure_board :: "('w, 'e) resty \<Rightarrow> string \<Rightarrow> string \<Rightarrow> ('w, 'e client_error, unit) io" where
  "api_ensure_board rc board_id name =
     do_json decode_any rc ''PUT'' (''/api/v1/boards/'' @ board_id) (TextField ''board_name'' name) [201, 409]"

definition api_set_score :: "('w, 'e) resty \<Rightarrow> string \<Rightarrow> string \<Rightarrow> int \<Rightarrow> ('w, 'e client_error, unit) io" where
  "api_set_score rc board_id player_id v =
     do_json decode_any rc ''PUT'' (score_path board_id player_id) (IntField ''player_score'' v) [204]"

definition api_increment_score :: "('w, 'e) resty \<Rightarrow> string \<Rightarrow> string \<Rightarrow> int \<Rightarrow> ('w, 'e client_error, unit) io" where
  "api_increment_score rc board_id player_id amount =
     do_json decode_any rc ''POST'' (score_path board_id player_id @ ''/increment'') (IntField ''amount'' amount) [204]"

definition scores_path :: "string \<Rightarrow> int \<Rightarrow> int \<Rightarrow> string" where
  "scores_path board_id limit offset =
     ''/api/v1/boards/'' @ board_id @ ''/scores?limit='' @ format_int limit @ ''&offset='' @ format_int offset"

definition fetch_scores :: "('w, 'e) resty \<Rightarrow> string \<Rightarrow> int \<Rightarrow> int \<Rightarrow> ('w, 'e client_error, score_entry list \<times> int) io" where
  "fetch_scores rc board_id limit offset =
     do_json (decode_reply dec_list_scores ([], 0)) rc ''GET'' (scores_path board_id limit offset) NoReqBody [200]"

definition fetch_standing :: "('w, 'e) resty \<Rightarrow> string \<Rightarrow> string \<Rightarrow> ('w, 'e client_error, score_entry \<times> int) io" where
  "fetch_standing rc board_id player_id =
     do_json (decode_reply dec_standing_resp (no_standing, 0)) rc ''GET'' (score_path board_id player_id) NoReqBody [200]"

definition fetch_history :: "('w, 'e) resty \<Rightarrow> string \<Rightarrow> string \<Rightarrow> int \<Rightarrow>
    ('w, 'e client_error, string \<times> score_event list) io" where
  "fetch_history rc board_id player_id limit =
     do_json (decode_reply dec_history ([], [])) rc ''GET''
       (score_path board_id player_id @ ''/history'' @ (if 0 < limit then ''?limit='' @ format_int limit else []))
       NoReqBody [200]"

definition fetch_daily_activity :: "('w, 'e) resty \<Rightarrow> string \<Rightarrow> int \<Rightarrow>
    ('w, 'e client_error, string \<times> (string \<times> int) list) io" where
  "fetch_daily_activity rc date limit =
     do_json (decode_reply dec_activity ([], [])) rc ''GET''
       (''/api/v1/activity/daily?date='' @ date @ ''&limit='' @ format_int limit) NoReqBody [200]"

definition api_verify_projection :: "('w, 'e) resty \<Rightarrow> string \<Rightarrow> ('w, 'e client_error, unit) io" where
  "api_verify_projection rc board_id =
     io_bind (do_json (decode_reply dec_verify []) rc ''GET''
         (''/api/v1/admin/boards/'' @ board_id @ ''/projection/verify'') NoReqBody [200])
       (\<lambda>ms. if length ms \<noteq> 0 then io_fail (ProjectionDrift (length ms)) else io_ret ())"

lemma do_json_run:
  "rc m p b w = (Inr (st, r), w') \<Longrightarrow> decode (if 200 \<le> st \<and> st < 300 then r else NoBody) = Some x \<Longrightarrow> st \<in> set expected \<Longrightarrow>
    do_json decode rc m p b expected w = (Inr x, w')"
  "rc m p b w = (Inr (st, r), w') \<Longrightarrow> decode (if 200 \<le> st \<and> st < 300 then r else NoBody) = Some x \<Longrightarrow> st \<notin> set expected \<Longrightarrow>
    do_json decode rc m p b expected w = (Inl (UnexpectedStatus st r), w')"
  "rc m p b w = (Inl e, w') \<Longrightarrow> do_json decode rc m p b expected w = (Inl (Transport e), w')"
  by (simp_all add: do_json_def)

subsection \<open>Scripts\<close>

text \<open>A script ends at the first call that fails, with a message, or the first check that does.\<close>

datatype ('e, 'f) script_failure = CallFailed string "'e client_error" | CheckFailed 'f

definition fatal_on :: "string \<Rightarrow> ('w, 'e client_error, 'a) io \<Rightarrow> ('w, ('e, 'f) script_failure, 'a) io" where
  "fatal_on what act w =
     (case act w of (Inl e, w') \<Rightarrow> (Inl (CallFailed what e), w') | (Inr x, w') \<Rightarrow> (Inr x, w'))"

lemma fatal_on_run:
  "act w = (Inr x, w') \<Longrightarrow> fatal_on what act w = (Inr x, w')"
  "act w = (Inl e, w') \<Longrightarrow> fatal_on what act w = (Inl (CallFailed what e), w')"
  by (simp_all add: fatal_on_def)

end
