(* ===== verification/Fanout.thy ===== *)
theory Fanout
  imports ApexHttp
begin

section \<open>The fan-out check (\<open>apiscripts/fanout\<close>)\<close>

text \<open>
  A script that gives many players distinct scores on one board, reads the whole leaderboard page by
  page and compares it with the order it expects. The locale \<open>ranked_board\<close> states what it relies
  on: pages and standings of one ranking that stays as it is. Inside it the paging loop returns the
  whole ranking in one round per hundred rows, and the check accepts it. The service is such a board.
\<close>

subsection \<open>Flags\<close>

record fanout_config =
  fc_base_url :: string
  fc_players :: int
  fc_chunk_size :: int
  fc_chunk_delay :: int
  fc_history_out :: string

text \<open>The flags as parsed; \<open>Inl\<close> is \<open>log.Fatal\<close>.\<close>

definition fanout_flags :: "fanout_config \<Rightarrow> string + fanout_config" where
  "fanout_flags cfg =
     (if fc_players cfg \<le> 0 then Inl ''players must be positive''
      else if fc_chunk_size cfg \<le> 0 then Inl ''chunk-size must be positive''
      else Inr cfg)"

subsection \<open>Launching in chunks\<close>

function launch_chunks :: "nat \<Rightarrow> 'a list \<Rightarrow> 'a list list" where
  "launch_chunks n xs = (if xs = [] \<or> n = 0 then [] else take n xs # launch_chunks n (drop n xs))"
  by pat_completeness auto
termination
  by (relation "measure (length \<circ> snd)") auto

declare launch_chunks.simps [simp del]

lemma launch_chunks_all: "0 < n \<Longrightarrow> concat (launch_chunks n xs) = xs"
  by (induction n xs rule: launch_chunks.induct) (subst launch_chunks.simps, simp)

lemma launch_chunks_bounded: "c \<in> set (launch_chunks n xs) \<Longrightarrow> length c \<le> n"
  by (induction n xs rule: launch_chunks.induct) (metis launch_chunks.simps empty_iff empty_set length_take min.cobounded2 set_ConsD)

subsection \<open>The calls of the script\<close>

text \<open>The board's id, made from the clock, and its creation.\<close>

definition fanout_create_board :: "('w, 'e) resty \<Rightarrow> time \<Rightarrow> ('w, ('e, 'f) script_failure, string) io" where
  "fanout_create_board rc now =
     (let board_id = seed_board_id ''fanout'' now
      in io_bind (fatal_on ''create board'' (api_create_board rc board_id ''Fan-out Test'')) (\<lambda>_. io_ret board_id))"

definition fanout_verify_projection :: "('w, 'e) resty \<Rightarrow> string \<Rightarrow> ('w, ('e, 'f) script_failure, unit) io" where
  "fanout_verify_projection rc board_id = fatal_on ''projection verify'' (api_verify_projection rc board_id)"

text \<open>Player \<open>i\<close> gets score \<open>i + 1\<close>.\<close>

fun create_players :: "('w, 'e) resty \<Rightarrow> int \<Rightarrow> nat \<Rightarrow> nat \<Rightarrow> ('w, 'e client_error, (string \<times> int) list) io" where
  "create_players rc stamp i 0 = io_ret []"
| "create_players rc stamp i (Suc n) =
     io_bind (api_create_player rc (api_player_name stamp i [])) (\<lambda>player_id.
     io_bind (create_players rc stamp (i + 1) n) (\<lambda>rest. io_ret ((player_id, int (i + 1)) # rest)))"

lemma upt_head: "[i..<Suc (i + n)] = i # [Suc i..<Suc (i + n)]"
  by (simp add: upt_conv_Cons del: upt_Suc)

lemma create_players_scores:
  "create_players rc stamp i n w = (Inr ps, w') \<Longrightarrow> map snd ps = map (\<lambda>j. int (j + 1)) [i..<i + n]"
proof (induction n arbitrary: i w ps w')
  case (Suc n)
  from Suc.prems obtain w1 w2 p rest where "create_players rc stamp (i + 1) n w1 = (Inr rest, w2)" "ps = (p, int (i + 1)) # rest"
    by (auto simp: io_bind_eq_Inr)
  with Suc.IH [of "i + 1" w1 rest w2] show ?case by (simp add: upt_head del: upt_Suc)
qed simp

subsection \<open>Reading the leaderboard\<close>

definition page_size :: int where "page_size = 100"

text \<open>The paging loop; without rounds left it is still running.\<close>

fun fetch_rows :: "nat \<Rightarrow> (int \<Rightarrow> int \<Rightarrow> ('w, 'x, score_entry list \<times> int) io) \<Rightarrow> int \<Rightarrow> score_entry list \<Rightarrow>
    ('w, 'x, (score_entry list \<times> int) option) io" where
  "fetch_rows 0 fetch offset rows = io_ret None"
| "fetch_rows (Suc k) fetch offset rows =
     io_bind (fetch page_size offset) (\<lambda>(page, tot).
       let rows' = rows @ page
       in if page = [] \<or> tot \<le> int (length rows') then io_ret (Some (rows', tot))
          else fetch_rows k fetch (offset + page_size) rows')"

definition fetch_all_rows :: "nat \<Rightarrow> ('w, 'e) resty \<Rightarrow> string \<Rightarrow>
    ('w, 'e client_error, (score_entry list \<times> int) option) io" where
  "fetch_all_rows k rc board_id = fetch_rows k (fetch_scores rc board_id) 0 []"

subsection \<open>Checking the ranking\<close>

datatype ranking_failure =
    TotalMismatch int | RowCountMismatch nat | RankNotContiguous nat | WrongPlayer nat | WrongScore nat
  | NotDescending nat | StandingDisagrees string | IndexOutOfRange | WritesFailed nat

text \<open>The rows against the expected players, \<open>prev\<close> the score of the row before.\<close>

fun check_rows :: "nat \<Rightarrow> int option \<Rightarrow> (string \<times> int) list \<Rightarrow> score_entry list \<Rightarrow> ranking_failure option" where
  "check_rows i prev (want # expected) (row # rows) =
     (if sc_rank row \<noteq> int i + 1 then Some (RankNotContiguous i)
      else if sc_player row \<noteq> fst want then Some (WrongPlayer i)
      else if sc_score row \<noteq> snd want then Some (WrongScore i)
      else if (case prev of None \<Rightarrow> False | Some v \<Rightarrow> v \<le> sc_score row) then Some (NotDescending i)
      else check_rows (i + 1) (Some (sc_score row)) expected rows)"
| "check_rows i prev expected rows = None"

text \<open>\<open>sort.Slice\<close> by descending score; the scores are distinct, so the order is determined.\<close>

definition expected_order :: "(string \<times> int) list \<Rightarrow> (string \<times> int) list" where
  "expected_order players = rev (sort_key snd players)"

fun check_samples :: "(string \<Rightarrow> ('w, 'x, score_entry \<times> int) io) \<Rightarrow> score_entry list \<Rightarrow> nat list \<Rightarrow>
    ('w, 'x, ranking_failure option) io" where
  "check_samples standing rows [] = io_ret None"
| "check_samples standing rows (idx # idxs) =
     (if length rows \<le> idx then io_ret (Some IndexOutOfRange)
      else let want = rows ! idx
        in io_bind (standing (sc_player want)) (\<lambda>(got, _).
          if sc_rank got \<noteq> sc_rank want \<or> sc_score got \<noteq> sc_score want
          then io_ret (Some (StandingDisagrees (sc_player want)))
          else check_samples standing rows idxs))"

definition verify_ranking :: "(string \<Rightarrow> ('w, 'x, score_entry \<times> int) io) \<Rightarrow> (string \<times> int) list \<Rightarrow>
    score_entry list \<Rightarrow> int \<Rightarrow> ('w, 'x, ranking_failure option) io" where
  "verify_ranking standing players rows tot =
     (if tot \<noteq> int (length players) then io_ret (Some (TotalMismatch tot))
      else if length rows \<noteq> length players then io_ret (Some (RowCountMismatch (length rows)))
      else case check_rows 0 None (expected_order players) rows of
        Some f \<Rightarrow> io_ret (Some f)
      | None \<Rightarrow> check_samples standing rows [0, length rows div 2, length rows - 1])"

subsection \<open>The script\<close>

text \<open>
  The scores are set by goroutines; \<open>order\<close> lists the players in the order in which their writes take
  effect.
\<close>

fun run_fanout_sets :: "('w, 'e) resty \<Rightarrow> string \<Rightarrow> (string \<times> int) list \<Rightarrow> 'w \<Rightarrow> 'e client_error list \<times> 'w" where
  "run_fanout_sets rc board_id [] w = ([], w)"
| "run_fanout_sets rc board_id (p # order) w =
     (case api_set_score rc board_id (fst p) (snd p) w of
        (Inl e, w1) \<Rightarrow> (case run_fanout_sets rc board_id order w1 of (errs, w2) \<Rightarrow> (e # errs, w2))
      | (Inr _, w1) \<Rightarrow> run_fanout_sets rc board_id order w1)"

definition fanout_sets :: "('w, 'e) resty \<Rightarrow> string \<Rightarrow> (string \<times> int) list \<Rightarrow>
    ('w, ('e, ranking_failure) script_failure, unit) io" where
  "fanout_sets rc board_id order w =
     (case run_fanout_sets rc board_id order w of
        (errs, w') \<Rightarrow> (if errs \<noteq> [] then Inl (CheckFailed (WritesFailed (length errs))) else Inr (), w'))"

text \<open>The checks give the rows they passed, none while the paging loop is still running.\<close>

definition fanout_checks :: "nat \<Rightarrow> ('w, 'e) resty \<Rightarrow> string \<Rightarrow> (string \<times> int) list \<Rightarrow>
    ('w, ('e, ranking_failure) script_failure, score_entry list option) io" where
  "fanout_checks k rc board_id players =
     io_bind (fatal_on ''list scores'' (fetch_all_rows k rc board_id)) (\<lambda>r. case r of
       None \<Rightarrow> io_ret None
     | Some (rows, tot) \<Rightarrow>
         io_bind (fatal_on ''standing'' (verify_ranking (fetch_standing rc board_id) players rows tot)) (\<lambda>f. case f of
           Some f \<Rightarrow> io_fail (CheckFailed f)
         | None \<Rightarrow>
             io_bind (fanout_verify_projection rc board_id) (\<lambda>_. io_ret (Some rows))))"

definition fanout_run :: "nat \<Rightarrow> ('w, 'e) resty \<Rightarrow> string \<Rightarrow> (string \<times> int) list \<Rightarrow> (string \<times> int) list \<Rightarrow>
    ('w, ('e, ranking_failure) script_failure, score_entry list option) io" where
  "fanout_run k rc board_id players order =
     io_bind (fanout_sets rc board_id order) (\<lambda>_. fanout_checks k rc board_id players)"

text \<open>
  \<open>main\<close>, without the printing and the file: \<open>arrange\<close> is the scheduler's order, \<open>now\<close> the clock at
  the board's id. It ends with the top player's history.
\<close>

definition fanout_main :: "nat \<Rightarrow> ('w, 'e) resty \<Rightarrow> int \<Rightarrow> time \<Rightarrow> fanout_config \<Rightarrow>
    ((string \<times> int) list \<Rightarrow> (string \<times> int) list) \<Rightarrow>
    ('w, ('e, ranking_failure) script_failure, (string \<times> score_event list) option) io" where
  "fanout_main k rc stamp now cfg arrange =
     io_bind (fanout_create_board rc now) (\<lambda>board_id.
         io_bind (fatal_on ''create player'' (create_players rc stamp 0 (nat (fc_players cfg)))) (\<lambda>players.
         io_bind (fanout_run k rc board_id players (arrange players)) (\<lambda>rows. case rows of
           None \<Rightarrow> io_ret None
         | Some [] \<Rightarrow> io_fail (CheckFailed IndexOutOfRange)
         | Some (row1 # _) \<Rightarrow>
             io_bind (fatal_on ''top player history'' (fetch_history rc board_id (sc_player row1) 0)) (\<lambda>h. io_ret (Some h)))))"

subsection \<open>What the row check accepts\<close>

definition rows_match :: "nat \<Rightarrow> (string \<times> int) list \<Rightarrow> score_entry list \<Rightarrow> bool" where
  "rows_match i expected rows \<longleftrightarrow>
     map (\<lambda>r. (sc_player r, sc_score r)) rows = expected \<and>
     map sc_rank rows = map (\<lambda>j. int j + 1) [i..<i + length rows]"

lemma rows_match_Cons:
  "rows_match i (w # ws) (r # rs) \<longleftrightarrow> sc_rank r = int i + 1 \<and> w = (sc_player r, sc_score r) \<and> rows_match (i + 1) ws rs"
  by (auto simp: rows_match_def upt_head simp del: upt_Suc)

text \<open>Exactly the expected rows, ranked without a gap and with strictly falling scores.\<close>

lemma check_rows_iff:
  assumes "length rows = length expected"
  shows "check_rows i prev expected rows = None \<longleftrightarrow>
    rows_match i expected rows \<and> sorted_wrt (\<lambda>a b. b < a) ((case prev of None \<Rightarrow> [] | Some v \<Rightarrow> [v]) @ map snd expected)"
  using assms
proof (induction i prev expected rows rule: check_rows.induct)
  case (1 i prev want expected row rows)
  have tr: "sorted_wrt (\<lambda>a b. b < a) (v # s # ss) \<longleftrightarrow> s < v \<and> sorted_wrt (\<lambda>a b. b < a) (s # ss)"
    for v s :: int and ss by auto
  obtain p v where want: "want = (p, v)" by fastforce
  show ?case
  proof (cases "sc_rank row = int i + 1 \<and> sc_player row = p \<and> sc_score row = v \<and> (\<forall>u. prev = Some u \<longrightarrow> v < u)")
    case True
    then have "check_rows i prev (want # expected) (row # rows) = check_rows (i + 1) (Some v) expected rows"
      by (auto simp: want split: option.split)
    with 1 True show ?thesis
      by (cases prev) (simp_all add: want rows_match_Cons tr not_le del: sorted_wrt.simps(2))
  next
    case False
    then have "check_rows i prev (want # expected) (row # rows) \<noteq> None"
      by (auto simp: want split: option.split)
    moreover have "\<not> (rows_match i (want # expected) (row # rows) \<and>
        sorted_wrt (\<lambda>a b. b < a) ((case prev of None \<Rightarrow> [] | Some u \<Rightarrow> [u]) @ map snd (want # expected)))"
      using False by (auto simp: want rows_match_Cons)
    ultimately show ?thesis by blast
  qed
qed (auto simp: rows_match_def split: option.split)

lemma expected_descending:
  assumes "distinct (map snd players)"
  shows "sorted_wrt (\<lambda>a b. b < a) (map snd (expected_order players))"
proof -
  have "distinct (map snd (sort_key snd players))"
    using assms by (metis distinct_map distinct_sort set_sort)
  then have "sorted_wrt (<) (map snd (sort_key snd players))"
    by (simp add: strict_sorted_iff)
  then show ?thesis by (simp add: expected_order_def rev_map [symmetric] sorted_wrt_rev)
qed

subsection \<open>A board that stays as it is\<close>

locale ranked_board =
  fixes fetch :: "int \<Rightarrow> int \<Rightarrow> ('w, 'x, score_entry list \<times> int) io"
    and standing :: "string \<Rightarrow> ('w, 'x, score_entry \<times> int) io"
    and ok :: "'w \<Rightarrow> bool" and board :: "score_entry list"
  assumes page: "ok w \<Longrightarrow> 0 \<le> offset \<Longrightarrow> offset \<le> int (length board) \<Longrightarrow>
      \<exists>w'. fetch page_size offset w =
        (Inr (slice (nat offset) (nat (offset + page_size)) board, int (length board)), w') \<and> ok w'"
    and row: "ok w \<Longrightarrow> e \<in> set board \<Longrightarrow> \<exists>w' tot. standing (sc_player e) w = (Inr (e, tot), w') \<and> ok w'"
begin

lemma fetch_rows_all:
  assumes "ok w" "n \<le> length board" "length board \<le> n + 100 * k" "0 < k"
  shows "\<exists>w'. fetch_rows k fetch (int n) (take n board) w = (Inr (Some (board, int (length board))), w') \<and> ok w'"
  using assms
proof (induction k arbitrary: w n)
  case (Suc k)
  from page [of w "int n"] Suc.prems(1,2) obtain w1 where
    w1: "fetch page_size (int n) w = (Inr (slice n (n + 100) board, int (length board)), w1)" "ok w1"
    by (auto simp: page_size_def nat_add_distrib)
  have rows: "take n board @ slice n (n + 100) board = take (n + 100) board"
    unfolding slice_def drop_take by (simp add: take_add)
  show ?case
  proof (cases "length board \<le> n + 100")
    case True
    then have "take (n + 100) board = board" by simp
    with True w1 rows Suc.prems(2) show ?thesis by (simp add: io_bind_def w1(1) Let_def min_def)
  next
    case False
    with Suc.prems(3) have k: "0 < k" by (cases k) auto
    have more: "length board \<le> n + 100 + 100 * k" using Suc.prems(3) by simp
    from Suc.IH [OF w1(2) _ more k] False obtain w' where
      "fetch_rows k fetch (int (n + 100)) (take (n + 100) board) w1 = (Inr (Some (board, int (length board))), w')" "ok w'"
      by auto
    moreover have "slice n (n + 100) board \<noteq> []" using False by (simp add: slice_def)
    ultimately show ?thesis
      using False rows by (simp add: io_bind_def w1(1) [unfolded page_size_def] page_size_def Let_def)
  qed
qed simp

lemma check_samples_ok:
  assumes "ok w" "\<forall>i \<in> set idxs. i < length board"
  shows "\<exists>w'. check_samples standing board idxs w = (Inr None, w') \<and> ok w'"
  using assms
proof (induction idxs arbitrary: w)
  case (Cons i idxs)
  from row [OF Cons.prems(1), of "board ! i"] Cons.prems(2) obtain w1 tot where
    w1: "standing (sc_player (board ! i)) w = (Inr (board ! i, tot), w1)" "ok w1" by auto
  from Cons.IH [OF this(2)] Cons.prems(2) show ?case by (simp add: io_bind_def w1(1) Let_def)
qed simp

text \<open>One round per hundred rows reads the whole ranking, and the check of the expected order passes.\<close>

lemma check_passes:
  assumes "ok w" and "players \<noteq> []" and "distinct (map snd players)" and "length players \<le> 100 * k"
    and "rows_match 0 (expected_order players) board"
  shows "\<exists>w1 w2. fetch_rows k fetch 0 [] w = (Inr (Some (board, int (length board))), w1) \<and>
    verify_ranking standing players board (int (length board)) w1 = (Inr None, w2) \<and> ok w2"
proof -
  have len: "length board = length players"
    using assms(5) by (metis rows_match_def expected_order_def length_map length_rev length_sort)
  have "0 < k" using assms(2,4) by (cases k) auto
  with fetch_rows_all [of w 0 k] assms(1,4) len obtain w1 where
    w1: "fetch_rows k fetch 0 [] w = (Inr (Some (board, int (length board))), w1)" "ok w1" by auto
  have "check_rows 0 None (expected_order players) board = None"
    using check_rows_iff [of board "expected_order players"] assms(3,5) len expected_descending
    by (simp add: expected_order_def)
  moreover from check_samples_ok [OF w1(2), of "[0, length board div 2, length board - 1]"] assms(2) len
  obtain w2 where "check_samples standing board [0, length board div 2, length board - 1] w1 = (Inr None, w2)" "ok w2"
    by (auto simp: Suc_le_eq)
  ultimately show ?thesis using w1 len by (auto simp: verify_ranking_def)
qed

end

end
