(* ===== verification/FanoutService.thy ===== *)
theory FanoutService
  imports Fanout "HOL-Library.Multiset"
begin

section \<open>The fan-out check against the service\<close>

text \<open>
  The service, called in process, is a \<open>ranked_board\<close>: its listing and standing routes, through mux,
  handlers and storage, return the pages and rows of the ranking the ledger determines. What the HTTP
  client and the query parser do with a path is \<open>reads_scores\<close>. So the check passes on every board
  whose scores are those the script set.
\<close>

lemma sort_swap:
  fixes players :: "(string \<times> int) list"
  assumes "distinct (map snd players)"
  shows "sort (map prod.swap players) = map prod.swap (sort_key snd players)"
proof -
  have "distinct (map snd (sort_key snd players))"
    using assms by (metis distinct_map distinct_sort set_sort)
  then have "sorted_wrt (<) (map snd (sort_key snd players))" by (simp add: strict_sorted_iff)
  then have "sorted_wrt (<) (map prod.swap (sort_key snd players))"
    by (auto simp: sorted_wrt_map prod.swap_def less_prod_def elim: sorted_wrt_mono_rel [rotated])
  moreover have "distinct players" using assms by (simp add: distinct_map)
  then have "distinct (map prod.swap players)" by (simp add: distinct_map)
  ultimately show ?thesis
    by (intro sorted_distinct_set_unique) (simp_all add: strict_sorted_iff)
qed

text \<open>The ranking of distinct scores is the order the script expects.\<close>

lemma ranking_expected:
  assumes "is_ranking (map_of players) rows" and "distinct (map fst players)" and "distinct (map snd players)"
  shows "rows_match 0 (expected_order players) (map score_entry_of rows)"
proof -
  have "rows = sorted_standings players"
    using is_ranking_unique [OF assms(1) sorted_standings_ranking [OF assms(2)]] .
  then have rows: "rows = rank_rows 1 (map prod.swap (expected_order players))"
    by (simp add: sorted_standings_def sort_swap [OF assms(3)] expected_order_def rev_map)
  have "map prod.swap (map (\<lambda>row. (st_score row, st_player row)) rows) = expected_order players"
    unfolding rows rank_rows_map(1) by (simp add: comp_def)
  moreover have "map st_rank rows = map (\<lambda>i. 1 + int i) [0..<length rows]"
    unfolding rows using rank_rows_map(2) [of 1 "map prod.swap (expected_order players)"] by simp
  ultimately show ?thesis by (simp add: rows_match_def score_entry_of_def comp_def add.commute)
qed

subsection \<open>The service as a client sees it\<close>

text \<open>\<open>send\<close> is the request the server reads for a client's method, path and body.\<close>

definition service_rc :: "'l rate_ext \<Rightarrow> http_ext \<Rightarrow> ext \<Rightarrow> 's redis \<Rightarrow> 's ambient \<Rightarrow>
    (string \<Rightarrow> string \<Rightarrow> client_body \<Rightarrow> request) \<Rightarrow> ('s world, unit) resty" where
  "service_rc E H X R A send method path b w =
     (case serve_http E H X R A (send method path b) None w of
        (r, w', _) \<Rightarrow> (Inr (rs_status r, rs_body r), w'))"

text \<open>A path segment that needs no escaping and ends nothing.\<close>

definition plain_segment :: "string \<Rightarrow> bool" where
  "plain_segment s \<longleftrightarrow> s \<noteq> [] \<and> CHR ''/'' \<notin> set s \<and> CHR ''?'' \<notin> set s \<and> CHR ''%'' \<notin> set s \<and> CHR ''#'' \<notin> set s"

lemma plain_segmentD: "plain_segment s \<Longrightarrow> s \<noteq> []" "plain_segment s \<Longrightarrow> CHR ''/'' \<notin> set s"
  by (simp_all add: plain_segment_def)

definition reads_scores :: "http_ext \<Rightarrow> (string \<Rightarrow> string \<Rightarrow> client_body \<Rightarrow> request) \<Rightarrow> string \<Rightarrow> bool" where
  "reads_scores H send b \<longleftrightarrow>
     (\<forall>p. plain_segment p \<longrightarrow> rq_method (send ''GET'' (score_path b p) NoReqBody) = ''GET'' \<and>
        rq_path (send ''GET'' (score_path b p) NoReqBody) = score_path b p) \<and>
     (\<forall>limit offset. let rq = send ''GET'' (scores_path b limit offset) NoReqBody in
        rq_method rq = ''GET'' \<and> rq_path rq = ''/api/v1/boards/'' @ b @ ''/scores'' \<and> rq_query rq as_of_query = None \<and>
        (1 \<le> limit \<and> limit \<le> max_list_limit \<and> 0 \<le> offset \<and> offset < 2 ^ 63 \<longrightarrow>
          (\<forall>vs i. parse_int_query H (with_path_values vs (rq\<lparr>rq_context_id := i\<rparr>)) limit_query default_list_limit 1 max_list_limit = Inr limit \<and>
             parse_int_query H (with_path_values vs (rq\<lparr>rq_context_id := i\<rparr>)) offset_query 0 0 0 = Inr offset)))"

lemma service_rc_run:
  assumes "serve_mux H X R A ((send m p b)\<lparr>rq_context_id := am_request_id A\<rparr>) w = (Some r, w')"
  shows "service_rc E H X R A send m p b w = (Inr (rs_status r, rs_body r), w')"
  using serve_http_unlimited [OF assms, of E] by (simp add: service_rc_def)

lemma listing_route:
  assumes "CHR ''/'' \<notin> set b" "b \<noteq> []"
  shows "route_request ''GET'' (''/api/v1/boards/'' @ b @ ''/scores'') = Serve RouteListScores [(''board_id'', b)]"
proof -
  have "split_on (CHR ''/'') (b @ CHR ''/'' # ''scores'') = [b, ''scores'']" using assms(1) by simp
  then have "tl (split_on (CHR ''/'') (''/api/v1/boards/'' @ b @ ''/scores'')) = [''api'', ''v1'', ''boards'', b, ''scores'']"
    by simp
  moreover have "path_matches [''api'', ''v1'', ''boards'', b, ''scores''] =
      [((''GET'', ''/api/v1/boards/{board_id}/scores''), RouteListScores)]"
    using assms(2) by (simp add: path_matches_def new_mux_def pattern_segs_mux)
  ultimately show ?thesis
    using assms(2) by (simp add: route_request_def routes_for_def method_matches_def pattern_segs_mux)
qed

definition reads_sets :: "http_ext \<Rightarrow> (string \<Rightarrow> string \<Rightarrow> client_body \<Rightarrow> request) \<Rightarrow> string \<Rightarrow> bool" where
  "reads_sets H send b \<longleftrightarrow>
     (\<forall>p n. plain_segment p \<longrightarrow> is_int64 n \<longrightarrow>
        (let path = score_path b p; rq = send ''PUT'' path (IntField ''player_score'' n)
         in rq_method rq = ''PUT'' \<and> rq_path rq = path \<and> rq_headers rq idempotency_key_header = None \<and>
           (\<forall>vs i. read_json_int H (with_path_values vs (rq\<lparr>rq_context_id := i\<rparr>)) ''player_score'' max_request_body_bytes = Inr (Some n))))"

definition reads_verify :: "(string \<Rightarrow> string \<Rightarrow> client_body \<Rightarrow> request) \<Rightarrow> string \<Rightarrow> bool" where
  "reads_verify send b \<longleftrightarrow>
     (let rq = send ''GET'' (''/api/v1/admin/boards/'' @ b @ ''/projection/verify'') NoReqBody
      in rq_method rq = ''GET'' \<and> rq_path rq = ''/api/v1/admin/boards/'' @ b @ ''/projection/verify'')"

lemma verify_route:
  assumes "CHR ''/'' \<notin> set b" "b \<noteq> []"
  shows "route_request ''GET'' (''/api/v1/admin/boards/'' @ b @ ''/projection/verify'') = Serve RouteVerify [(''board_id'', b)]"
proof -
  have "split_on (CHR ''/'') (b @ CHR ''/'' # ''projection/verify'') = [b, ''projection'', ''verify'']" using assms(1) by simp
  then have "tl (split_on (CHR ''/'') (''/api/v1/admin/boards/'' @ b @ ''/projection/verify'')) =
      [''api'', ''v1'', ''admin'', ''boards'', b, ''projection'', ''verify'']"
    by simp
  moreover have "path_matches [''api'', ''v1'', ''admin'', ''boards'', b, ''projection'', ''verify''] =
      [((''GET'', ''/api/v1/admin/boards/{board_id}/projection/verify''), RouteVerify)]"
    using assms(2) by (simp add: path_matches_def new_mux_def pattern_segs_mux)
  ultimately show ?thesis
    using assms(2) by (simp add: route_request_def routes_for_def method_matches_def pattern_segs_mux)
qed

context redis_server
begin

lemma served_page:
  assumes "world_inv X UNIV (view s)" "is_ranking (board_scores X b (ledger_of (view s))) rows"
    and "reads_scores H send b" "board_id_validate X b" "plain_segment b"
    and "1 \<le> limit" "limit \<le> max_list_limit" "0 \<le> offset" "offset + limit < 2 ^ 63"
  shows "\<exists>s'. fetch_scores (service_rc E H X R A send) b limit offset (quiet s) =
      (Inr (slice (nat offset) (nat (offset + limit)) (map score_entry_of rows), int (length rows)), quiet s') \<and>
    view s' = view s"
proof -
  let ?rq = "send ''GET'' (scores_path b limit offset) NoReqBody"
  let ?rq' = "with_path_values [(''board_id'', b)] (?rq\<lparr>rq_context_id := am_request_id A\<rparr>)"
  have rq: "rq_method ?rq = ''GET''" "rq_path ?rq = ''/api/v1/boards/'' @ b @ ''/scores''" "rq_query ?rq as_of_query = None"
    "parse_int_query H ?rq' limit_query default_list_limit 1 max_list_limit = Inr limit"
    "parse_int_query H ?rq' offset_query 0 0 0 = Inr offset"
    using assms(3,6-9) by (simp_all add: reads_scores_def Let_def)
  have id: "board_id_from_path X ?rq' = Inr b" "rq_query ?rq' = rq_query ?rq"
    using assms(4) by (simp_all add: board_id_from_path_def with_path_values_def board_id_path_value_def)
  obtain rows' where rows': "is_ranking (board_scores X b (ledger_of (view s))) rows'"
    "list_standings (doc_redis (0, 1)) b limit offset (quiet (view s)) =
      (Inr (slice (nat offset) (nat (offset + limit)) rows', int (length rows')), quiet (view s))"
    using doc_list_standings [OF assms(1), of limit offset b "(0, 1)"] assms(6,8,9) by auto
  then have "rows' = rows" using assms(2) is_ranking_unique by blast
  with qsim_result [OF qsim_list_standings rows'(2)] obtain s' where
    s': "list_standings R b limit offset (quiet s) =
      (Inr (slice (nat offset) (nat (offset + limit)) rows, int (length rows)), quiet s')" "view s' = view s" by blast
  have "serve_mux H X R A (?rq\<lparr>rq_context_id := am_request_id A\<rparr>) (quiet s) =
      (Some (list_scores_resp limit offset (slice (nat offset) (nat (offset + limit)) rows, int (length rows))), quiet s')"
    using rq id s'(1) listing_route [OF plain_segmentD(2,1) [OF assms(5)]]
    by (simp add: serve_mux_def handle_list_scores_def stored_run(2))
  from service_rc_run [where send = send and E = E, OF this] s'(2) show ?thesis
    by (auto simp: fetch_scores_def do_json_def list_scores_resp_def slice_map)
qed

lemma served_standing:
  assumes "world_inv X UNIV (view s)" "is_ranking (board_scores X b (ledger_of (view s))) rows" "row \<in> set rows"
    and "reads_scores H send b" "board_id_validate X b" "plain_segment b"
    and "player_id_validate X (st_player row)" "plain_segment (st_player row)"
  shows "\<exists>s'. fetch_standing (service_rc E H X R A send) b (st_player row) (quiet s) =
      (Inr (score_entry_of row, int (length rows)), quiet s') \<and> view s' = view s"
proof -
  let ?p = "st_player row"
  let ?rq = "send ''GET'' (score_path b ?p) NoReqBody"
  have rq: "rq_method ?rq = ''GET''" "rq_path ?rq = score_path b ?p" using assms(4,8) by (simp_all add: reads_scores_def)
  have "board_scores X b (ledger_of (view s)) ?p = Some (st_score row)"
    using assms(2,3) unfolding is_ranking_def by blast
  from ranked_player [OF assms(2) this] obtain row' where
    row': "find (\<lambda>row. st_player row = ?p) rows = Some row'" "st_player row' = ?p" by blast
  then have "row' \<in> set rows" by (auto simp: find_Some_iff)
  with row'(2) assms(2,3) have "row' = row" by (auto simp: is_ranking_def distinct_map inj_on_def)
  moreover obtain rows' where rows': "is_ranking (board_scores X b (ledger_of (view s))) rows'"
    "get_standing (doc_redis (0, 1)) ?p b (quiet (view s)) =
      (case find (\<lambda>row. st_player row = ?p) rows' of
         None \<Rightarrow> Inl ErrNotFound | Some row \<Rightarrow> Inr (row, int (length rows')), quiet (view s))"
    using doc_get_standing [OF assms(1)] by blast
  moreover have "rows' = rows" using rows'(1) assms(2) is_ranking_unique by blast
  ultimately have "get_standing (doc_redis (0, 1)) ?p b (quiet (view s)) = (Inr (row, int (length rows)), quiet (view s))"
    using row'(1) by simp
  from qsim_result [OF qsim_get_standing this] obtain s' where
    s': "get_standing R ?p b (quiet s) = (Inr (row, int (length rows)), quiet s')" "view s' = view s" by blast
  have "handle_get_rank X R (score_request A b ?p ?rq) (quiet s) =
      (Some (write_json 200 (RankResp (score_entry_of row) (int (length rows)))), quiet s')"
    using assms(5,7) s'(1) by (simp add: handle_get_rank_def stored_run(2) score_entry_of_def)
  then have "serve_mux H X R A (?rq\<lparr>rq_context_id := am_request_id A\<rparr>) (quiet s) =
      (Some (write_json 200 (RankResp (score_entry_of row) (int (length rows)))), quiet s')"
    by (simp only: serve_score_routes(2) [OF plain_segmentD(2) [OF assms(6)] plain_segmentD(2) [OF assms(8)]
        plain_segmentD(1) [OF assms(6)] plain_segmentD(1) [OF assms(8)] rq(2,1)])
  from service_rc_run [where send = send and E = E, OF this] s'(2) show ?thesis
    by (auto simp: fetch_standing_def do_json_def)
qed

lemma served_verify:
  assumes "world_inv X UNIV (view s)" "view s (board_profile_key b) \<noteq> None" "board_id_validate X b" "plain_segment b"
    and "reads_verify send b"
  shows "\<exists>s'. api_verify_projection (service_rc E H X R A send) b (quiet s) = (Inr (), quiet s')"
proof -
  let ?path = "''/api/v1/admin/boards/'' @ b @ ''/projection/verify''"
  let ?rq = "send ''GET'' ?path NoReqBody"
  have rq: "rq_method ?rq = ''GET''" "rq_path ?rq = ?path" using assms(5) by (simp_all add: reads_verify_def Let_def)
  obtain s' where s': "verify_projection X R b (quiet s) = (Inr [], quiet s')"
    using verify_clean [OF assms(1,2)] by blast
  have "board_id_from_path X (with_path_values [(''board_id'', b)] (?rq\<lparr>rq_context_id := am_request_id A\<rparr>)) = Inr b"
    using assms(3) by (simp add: board_id_from_path_def with_path_values_def board_id_path_value_def)
  then have "serve_mux H X R A (?rq\<lparr>rq_context_id := am_request_id A\<rparr>) (quiet s) =
      (Some (write_json 200 (VerifyProjectionResp [])), quiet s')"
    using verify_route [OF plain_segmentD(2,1) [OF assms(4)]] rq s'
    by (simp add: serve_mux_def handle_verify_projection_def stored_run(2))
  from service_rc_run [where send = send and E = E, OF this] show ?thesis
    by (simp add: api_verify_projection_def do_json_def io_bind_def)
qed

end

subsection \<open>A board that takes writes\<close>

definition board_open :: "ext \<Rightarrow> string \<Rightarrow> string set \<Rightarrow> (string \<rightharpoonup> int) \<Rightarrow> keyspace \<Rightarrow> bool" where
  "board_open X b ps m ks \<longleftrightarrow> world_inv X UNIV ks \<and> ks (board_profile_key b) \<noteq> None \<and>
     board_state_of ks b \<noteq> Some board_closed \<and> (\<forall>p \<in> ps. ks (player_profile_key p) \<noteq> None) \<and>
     board_scores X b (ledger_of ks) = m"

lemma wrote_board_open:
  assumes "wrote X op p b n rq idem ks ks'" "writable X op p b n rq" "board_open X b ps m ks"
  shows "board_open X b ps (m(p \<mapsto> new_score m op p n)) ks'"
proof -
  have same: "ks' (player_profile_key q) = ks (player_profile_key q)" "ks' (board_profile_key b) = ks (board_profile_key b)" for q
    using wrote_other [OF assms(1)] by (simp_all add: key_simps)
  then have "board_state_of ks' b = board_state_of ks b" by (simp add: board_state_of_def)
  moreover have "world_inv X UNIV ks'"
    using wrote_world_inv [OF assms(1) _ assms(2)] assms(3) by (simp add: board_open_def)
  ultimately show ?thesis
    using assms(3) same wrote_scores [OF assms(1,2), of b] by (simp add: board_open_def)
qed

lemma decide_open:
  "board_open X b ps m ks \<Longrightarrow> p \<in> ps \<Longrightarrow> score_validate (new_score m op p n) \<Longrightarrow> decide m ks op p b n [] = None"
  by (simp add: decide_def idem_record_def board_open_def)

context redis_server
begin

lemma served_set:
  assumes "board_open X b ps m (view s)" "p \<in> ps" "ids_nonempty X" "am_uuid A \<noteq> []"
    and "board_id_validate X b" "player_id_validate X p" "plain_segment b" "plain_segment p"
    and "reads_sets H send b" "score_validate n" "last_sid (ledger_of (view s)) < sid_max"
  shows "\<exists>s'. api_set_score (service_rc E H X R A send) b p n (quiet s) = (Inr (), quiet s') \<and>
    board_open X b ps (m(p \<mapsto> n)) (view s')"
proof -
  note seg = plain_segmentD(2) [OF assms(7)] plain_segmentD(2) [OF assms(8)] plain_segmentD(1) [OF assms(7)] plain_segmentD(1) [OF assms(8)]
  let ?rq = "send ''PUT'' (score_path b p) (IntField ''player_score'' n)"
  have "is_int64 n" using assms(10) by (rule score_int64)
  then have rq: "rq_method ?rq = ''PUT''" "rq_path ?rq = score_path b p" "rq_headers ?rq idempotency_key_header = None"
    "read_json_int H (score_request A b p ?rq) ''player_score'' max_request_body_bytes = Inr (Some n)"
    using assms(8,9) by (simp_all add: reads_sets_def Let_def score_request_def)
  have acc: "accepts_write H X (write_field event_set) (score_request A b p ?rq) b p [] n"
    using assms(5,6,10) rq(3,4) by (simp add: accepts_write_def write_field_def read_idempotency_key_def)
  have inv: "world_inv X UNIV (view s)" and m: "board_scores X b (ledger_of (view s)) = m"
    using assms(1) by (simp_all add: board_open_def)
  have "decide m (view s) event_set p b n [] = None"
    using decide_open [OF assms(1,2)] assms(10) by (simp add: new_score_def)
  then obtain s1 where s1: "handle_write event_set H X R (am_uuid A) (score_request A b p ?rq) (quiet s) = (Some (write_header 204), quiet s1)"
    "wrote X event_set p b n (request_id (am_uuid A) (score_request A b p ?rq)) [] (view s) (view s1)"
    "writable X event_set p b n (request_id (am_uuid A) (score_request A b p ?rq))"
    using accepted_write_runs [OF acc _ inv assms(3,4,11)] m by auto
  have "serve_mux H X R A (?rq\<lparr>rq_context_id := am_request_id A\<rparr>) (quiet s) = (Some (write_header 204), quiet s1)"
    using s1(1) by (simp add: serve_score_routes(1) [OF seg rq(2,1)] handle_write_def)
  from service_rc_run [where send = send and E = E, OF this] wrote_board_open [OF s1(2,3) assms(1)] show ?thesis
    by (auto simp: api_set_score_def do_json_def new_score_def)
qed

text \<open>The sets in the order given: all of them, or as many as there were ids for.\<close>

lemma sets_in_order:
  assumes "board_open X b ps m (view s)" "ids_nonempty X" "am_uuid A \<noteq> []" "board_id_validate X b" "plain_segment b" "reads_sets H send b"
    and "\<forall>(p, n) \<in> set order. p \<in> ps \<and> player_id_validate X p \<and> plain_segment p \<and> score_validate n"
  shows "(\<exists>s'. run_fanout_sets (service_rc E H X R A send) b order (quiet s) = ([], quiet s') \<and>
        board_open X b ps (m ++ map_of (rev order)) (view s')) \<or>
    (\<exists>k s'. k < length order \<and> run_fanout_sets (service_rc E H X R A send) b (take k order) (quiet s) = ([], quiet s') \<and>
        \<not> last_sid (ledger_of (view s')) < sid_max)"
  using assms(1,7)
proof (induction order arbitrary: m s)
  case (Cons x order)
  obtain p n where x: "x = (p, n)" by fastforce
  let ?run = "run_fanout_sets (service_rc E H X R A send) b"
  show ?case
  proof (cases "last_sid (ledger_of (view s)) < sid_max")
    case True
    from Cons.prems(2) have p: "p \<in> ps" "player_id_validate X p" "plain_segment p" "score_validate n" by (simp_all add: x)
    from served_set [OF Cons.prems(1) p(1) assms(2-4) p(2) assms(5) p(3) assms(6) p(4) True] obtain s1 where
      s1: "api_set_score (service_rc E H X R A send) b p n (quiet s) = (Inr (), quiet s1)"
      "board_open X b ps (m(p \<mapsto> n)) (view s1)" by blast
    have "\<forall>(p, n) \<in> set order. p \<in> ps \<and> player_id_validate X p \<and> plain_segment p \<and> score_validate n"
      using Cons.prems(2) by simp
    from Cons.IH [OF s1(2) this] show ?thesis
    proof
      assume "\<exists>s'. ?run order (quiet s1) = ([], quiet s') \<and> board_open X b ps (m(p \<mapsto> n) ++ map_of (rev order)) (view s')"
      then show ?thesis using s1(1) by (intro disjI1) (auto simp: x)
    next
      assume "\<exists>k s'. k < length order \<and> ?run (take k order) (quiet s1) = ([], quiet s') \<and> \<not> last_sid (ledger_of (view s')) < sid_max"
      then obtain k s' where "k < length order" "?run (take k order) (quiet s1) = ([], quiet s')"
        "\<not> last_sid (ledger_of (view s')) < sid_max" by blast
      then show ?thesis using s1(1) by (intro disjI2 exI [of _ "k + 1"] exI [of _ s']) (simp add: x)
    qed
  next
    case False
    then show ?thesis by (intro disjI2 exI [of _ 0] exI [of _ s]) simp
  qed
qed auto

end

subsection \<open>A board of the service is a ranked board\<close>

locale board_service = redis_server R view for R :: "'s redis" and view :: "'s \<Rightarrow> keyspace" +
  fixes E :: "'l rate_ext" and H :: http_ext and X :: ext and A :: "'s ambient"
    and send :: "string \<Rightarrow> string \<Rightarrow> client_body \<Rightarrow> request" and b :: string and rows :: "standing list"
  assumes board: "board_id_validate X b" "plain_segment b"
    and players: "row \<in> set rows \<Longrightarrow> player_id_validate X (st_player row) \<and> plain_segment (st_player row)"
    and reads: "reads_scores H send b" and small: "int (length rows) < 2 ^ 62"

definition board_stands :: "ext \<Rightarrow> ('s \<Rightarrow> keyspace) \<Rightarrow> string \<Rightarrow> standing list \<Rightarrow> 's world \<Rightarrow> bool" where
  "board_stands X view b rows w \<longleftrightarrow> (\<exists>s. w = quiet s \<and> world_inv X UNIV (view s) \<and>
     view s (board_profile_key b) \<noteq> None \<and> is_ranking (board_scores X b (ledger_of (view s))) rows)"

sublocale board_service \<subseteq> pages: ranked_board "fetch_scores (service_rc E H X R A send) b"
    "fetch_standing (service_rc E H X R A send) b" "board_stands X view b rows" "map score_entry_of rows"
proof
  fix w offset
  assume w: "board_stands X view b rows w" and off: "0 \<le> offset" "offset \<le> int (length (map score_entry_of rows))"
  from w obtain s where s: "w = quiet s" "world_inv X UNIV (view s)" "is_ranking (board_scores X b (ledger_of (view s))) rows"
    "view s (board_profile_key b) \<noteq> None" by (auto simp: board_stands_def)
  have lim: "1 \<le> page_size" "page_size \<le> max_list_limit" "offset + page_size < 2 ^ 63"
    using small off(2) by (simp_all add: page_size_def max_list_limit_def)
  from served_page [OF s(2,3) reads board lim(1,2) off(1) lim(3)] s
  show "\<exists>w'. fetch_scores (service_rc E H X R A send) b page_size offset w =
      (Inr (slice (nat offset) (nat (offset + page_size)) (map score_entry_of rows), int (length (map score_entry_of rows))), w') \<and>
    board_stands X view b rows w'"
    by (fastforce simp: board_stands_def)
next
  fix w e
  assume w: "board_stands X view b rows w" and e: "e \<in> set (map score_entry_of rows)"
  from w obtain s where s: "w = quiet s" "world_inv X UNIV (view s)" "is_ranking (board_scores X b (ledger_of (view s))) rows"
    "view s (board_profile_key b) \<noteq> None" by (auto simp: board_stands_def)
  from e obtain row where row: "row \<in> set rows" "e = score_entry_of row" by auto
  with players have p: "player_id_validate X (st_player row)" "plain_segment (st_player row)" by auto
  from served_standing [OF s(2,3) row(1) reads board p] s row(2)
  show "\<exists>w' tot. fetch_standing (service_rc E H X R A send) b (sc_player e) w = (Inr (e, tot), w') \<and> board_stands X view b rows w'"
    by (fastforce simp: board_stands_def score_entry_of_def)
qed

context board_service
begin

lemma fanout_checks_pass:
  assumes "board_stands X view b rows (quiet s)"
    and "board_scores X b (ledger_of (view s)) = map_of players" and "players \<noteq> []"
    and "distinct (map fst players)" and "distinct (map snd players)" and "length players \<le> 100 * k"
    and "reads_verify send b"
  shows "\<exists>w. fanout_checks k (service_rc E H X R A send) b players (quiet s) = (Inr (Some (map score_entry_of rows)), w)"
proof -
  let ?board = "map score_entry_of rows" and ?rc = "service_rc E H X R A send"
  have "rows_match 0 (expected_order players) ?board"
    using ranking_expected assms(1,2,4,5) by (auto simp: board_stands_def)
  from pages.check_passes [OF assms(1,3,5,6) this] obtain w1 w2 where
    run: "fetch_all_rows k ?rc b (quiet s) = (Inr (Some (?board, int (length ?board))), w1)"
      "verify_ranking (fetch_standing ?rc b) players ?board (int (length ?board)) w1 = (Inr None, w2)"
      "board_stands X view b rows w2"
    unfolding fetch_all_rows_def by blast
  from run(3) obtain s2 where s2: "w2 = quiet s2" "world_inv X UNIV (view s2)" "view s2 (board_profile_key b) \<noteq> None"
    by (auto simp: board_stands_def)
  from served_verify [OF s2(2,3) board assms(7)] obtain s3 where "api_verify_projection ?rc b w2 = (Inr (), quiet s3)"
    unfolding s2(1) by blast
  with run(1,2) show ?thesis by (simp add: fanout_checks_def fanout_verify_projection_def io_bind_def fatal_on_def)
qed

end

text \<open>
  The sets in any order, then the checks: the run passes with the rows expected, unless the ledger runs
  out of stream ids during the writes.
\<close>

context redis_server
begin

lemma fanout_run_passes:
  assumes "board_open X b (fst ` set players) Map.empty (view s)" "ids_nonempty X" "am_uuid A \<noteq> []"
    and "board_id_validate X b" "plain_segment b" "mset order = mset players" "players \<noteq> []"
    and "distinct (map fst players)" "distinct (map snd players)"
    and "length players \<le> 100 * k" "int (length players) < 2 ^ 62"
    and players: "\<forall>(p, n) \<in> set players. player_id_validate X p \<and> plain_segment p \<and> score_validate n"
    and "reads_sets H send b" "reads_scores H send b" "reads_verify send b"
  shows "(\<exists>rows w. fanout_run k (service_rc E H X R A send) b players order (quiet s) = (Inr (Some rows), w) \<and>
      rows_match 0 (expected_order players) rows) \<or>
    (\<exists>j s'. j < length order \<and> run_fanout_sets (service_rc E H X R A send) b (take j order) (quiet s) = ([], quiet s') \<and>
      \<not> last_sid (ledger_of (view s')) < sid_max)"
proof -
  let ?rc = "service_rc E H X R A send"
  have same: "set order = set players" using assms(6) by (rule mset_eq_setD)
  have "distinct (map fst order)" using assms(6,8) by (metis mset_map mset_eq_imp_distinct_iff)
  then have m: "Map.empty ++ map_of (rev order) = map_of players"
    using same assms(8) by (simp add: rev_map [symmetric] map_of_inject_set)
  have "\<forall>(p, n) \<in> set order. p \<in> fst ` set players \<and> player_id_validate X p \<and> plain_segment p \<and> score_validate n"
    using players by (force simp: same)
  from sets_in_order [OF assms(1-5,13) this, of E] consider
    (all) s1 where "run_fanout_sets ?rc b order (quiet s) = ([], quiet s1)"
      "board_open X b (fst ` set players) (map_of players) (view s1)"
  | (dry) j s' where "j < length order" "run_fanout_sets ?rc b (take j order) (quiet s) = ([], quiet s')"
      "\<not> last_sid (ledger_of (view s')) < sid_max"
    unfolding m by blast
  then show ?thesis
  proof cases
    case all
    let ?rows = "sorted_standings players"
    have rank: "is_ranking (map_of players) ?rows" by (rule sorted_standings_ranking [OF assms(8)])
    have "player_id_validate X (st_player row) \<and> plain_segment (st_player row)" if "row \<in> set ?rows" for row
    proof -
      have "map_of players (st_player row) = Some (st_score row)" using rank that unfolding is_ranking_def by blast
      with players show ?thesis by (force dest: map_of_SomeD)
    qed
    moreover have "length ?rows = length players" by (simp add: sorted_standings_def)
    ultimately have "board_service R view H X send b ?rows"
      using assms(4,5,11,14) redis_server_axioms by (intro board_service.intro board_service_axioms.intro) auto
    moreover have "board_stands X view b ?rows (quiet s1)" and "board_scores X b (ledger_of (view s1)) = map_of players"
      using all(2) rank by (simp_all add: board_stands_def board_open_def)
    ultimately obtain w where "fanout_checks k ?rc b players (quiet s1) = (Inr (Some (map score_entry_of ?rows)), w)"
      using board_service.fanout_checks_pass [of R view H X send b ?rows s1 players k E A] assms(7-10,15) by blast
    moreover have "rows_match 0 (expected_order players) (map score_entry_of ?rows)"
      by (rule ranking_expected [OF rank assms(8,9)])
    ultimately show ?thesis
      using all(1) by (intro disjI1) (auto simp: fanout_run_def fanout_sets_def io_bind_def)
  qed blast
qed

end

end
