(* ===== verification/LoadChecks.thy ===== *)
theory LoadChecks
  imports ApexHttp LedgerSpec
begin

section \<open>The load, history and activity scripts (\<open>apiscripts/loadscore\<close>, \<open>randomhistory\<close>, \<open>dailyactivity\<close>)\<close>

text \<open>
  What the scripts expect of the service and how they check it, over the client \<open>rc\<close> of ApexHttp.
  The random generator is a parameter: a state and a draw below a bound. Polling loops take the list
  of answers of the clock after each unsuccessful poll; when it is used up the loop is still polling.
  The lemmas: the score the random script expects is the replay of the events it wrote, its history
  check accepts exactly the newest events in reverse order, the activity check exactly the expected
  counts, and a polling loop whose deadline passes ends.
\<close>

subsection \<open>Flags\<close>

record load_test_config =
  lc_base_url :: string
  lc_requests :: int
  lc_amount :: int
  lc_chunk_size :: int
  lc_chunk_delay :: int
  lc_history_out :: string

record random_history_config =
  rh_base_url :: string
  rh_board :: string
  rh_board_name :: string
  rh_events :: int
  rh_seed :: int
  rh_progress_every :: int
  rh_timeout :: int

text \<open>The flags as parsed, \<open>now_ns\<close> the clock that gives a seed for 0; \<open>Inl\<close> is \<open>log.Fatal\<close>.\<close>

definition load_flags :: "load_test_config \<Rightarrow> string + load_test_config" where
  "load_flags cfg =
     (if lc_requests cfg \<le> 0 then Inl ''requests must be positive''
      else if lc_chunk_size cfg \<le> 0 then Inl ''chunk-size must be positive''
      else Inr cfg)"

definition random_history_flags :: "int \<Rightarrow> random_history_config \<Rightarrow> string + random_history_config" where
  "random_history_flags now_ns cfg =
     (if rh_events cfg \<le> 0 then Inl ''events must be positive''
      else if rh_timeout cfg \<le> 0 then Inl ''timeout must be positive''
      else Inr (if rh_seed cfg = 0 then cfg\<lparr>rh_seed := now_ns mod 2 ^ 64\<rparr> else cfg))"

subsection \<open>Expected events\<close>

record expected_event =
  xe_type :: string
  xe_amount :: int

type_synonym 'g rng = "int \<Rightarrow> 'g \<Rightarrow> int \<times> 'g"

definition big_increment_pct :: int where "big_increment_pct = 15"
definition set_pct :: int where "set_pct = 5"
definition history_page_limit :: nat where "history_page_limit = 100"

text \<open>The draws in the order of the code: the first event draws no percentage for the set.\<close>

definition pick_event :: "'g rng \<Rightarrow> nat \<Rightarrow> 'g \<Rightarrow> expected_event \<times> 'g" where
  "pick_event int_n i g0 =
     (let (is_set, g1) = (if i = 0 then (True, g0) else let (d, g) = int_n 100 g0 in (d < set_pct, g))
      in if is_set then (let (a, g2) = int_n 5000 g1 in (\<lparr>xe_type = event_set, xe_amount = a\<rparr>, g2))
         else let (d, g2) = int_n 100 g1
           in if d < big_increment_pct
              then (let (a, g3) = int_n 1001 g2 in (\<lparr>xe_type = event_increment, xe_amount = a - 500\<rparr>, g3))
              else (let (a, g3) = int_n 151 g2 in (\<lparr>xe_type = event_increment, xe_amount = a - 50\<rparr>, g3)))"

text \<open>\<open>n\<close> events from number \<open>i\<close> on, written so far \<open>acc\<close> with the score \<open>sc\<close>.\<close>

fun write_random_events :: "('w, 'e) resty \<Rightarrow> string \<Rightarrow> string \<Rightarrow> 'g rng \<Rightarrow> nat \<Rightarrow> nat \<Rightarrow> 'g \<Rightarrow>
    expected_event list \<Rightarrow> int \<Rightarrow> ('w, 'e client_error, expected_event list \<times> int) io" where
  "write_random_events rc b p int_n i 0 g acc sc = io_ret (acc, sc)"
| "write_random_events rc b p int_n i (Suc n) g acc sc =
     (let (event, g') = pick_event int_n i g
      in io_bind (if xe_type event = event_set then api_set_score rc b p (xe_amount event)
                  else api_increment_score rc b p (xe_amount event)) (\<lambda>_.
           write_random_events rc b p int_n (i + 1) n g' (acc @ [event])
             (if xe_type event = event_set then xe_amount event else wrap64 (sc + xe_amount event))))"

text \<open>The history, newest first, against what was written, oldest first: the index of a mismatch.\<close>

datatype history_failure = LengthMismatch | EventMismatch nat

fun compare_events :: "nat \<Rightarrow> (string \<times> int) list \<Rightarrow> expected_event list \<Rightarrow> history_failure option" where
  "compare_events i (got # gots) (want # wants) =
     (if fst got \<noteq> xe_type want \<or> snd got \<noteq> xe_amount want then Some (EventMismatch i)
      else compare_events (i + 1) gots wants)"
| "compare_events i gots wants = None"

definition event_key :: "score_event \<Rightarrow> string \<times> int" where
  "event_key e = (se_type e, se_amount e)"

definition verify_history :: "score_event list \<Rightarrow> expected_event list \<Rightarrow> history_failure option" where
  "verify_history events written =
     (if length events \<noteq> length written then Some LengthMismatch
      else compare_events 0 (map event_key (rev events)) written)"

subsection \<open>Polling\<close>

datatype ('e, 'a) poll = PollFailed 'e | PollReady 'a | PollAgain | PollTimedOut

text \<open>One poll after the other; \<open>late\<close> says after each whether the deadline has passed.\<close>

fun poll_until :: "('w, 'e, 'a) io \<Rightarrow> ('a \<Rightarrow> 'e + bool) \<Rightarrow> bool list \<Rightarrow> 'w \<Rightarrow> ('e, 'a) poll \<times> 'w" where
  "poll_until fetch ready [] w = (PollAgain, w)"
| "poll_until fetch ready (late # lates) w =
     (case fetch w of
        (Inl e, w') \<Rightarrow> (PollFailed e, w')
      | (Inr x, w') \<Rightarrow>
          (case ready x of
             Inl e \<Rightarrow> (PollFailed e, w')
           | Inr True \<Rightarrow> (PollReady x, w')
           | Inr False \<Rightarrow> if late then (PollTimedOut, w') else poll_until fetch ready lates w'))"

lemma poll_until_ends:
  assumes "True \<in> set lates" shows "fst (poll_until fetch ready lates w) \<noteq> PollAgain"
  using assms
proof (induction lates arbitrary: w)
  case (Cons late lates)
  obtain r w' where "fetch w = (r, w')" by fastforce
  with Cons show ?case by (auto split: sum.splits bool.splits)
qed simp

lemma poll_until_ready:
  "poll_until fetch ready lates w = (PollReady x, w') \<Longrightarrow> ready x = Inr True \<and> (\<exists>v. fetch v = (Inr x, w'))"
proof (induction lates arbitrary: w)
  case (Cons late lates)
  obtain r w1 where "fetch w = (r, w1)" by fastforce
  with Cons show ?case by (auto split: sum.splits bool.splits if_splits)
qed simp

text \<open>A head of the page wanted, of the expected length, is the newest event written.\<close>

definition history_ready :: "nat \<Rightarrow> expected_event \<Rightarrow> string \<times> score_event list \<Rightarrow> bool" where
  "history_ready want newest h \<longleftrightarrow> length (snd h) = want \<and>
     (case snd h of [] \<Rightarrow> False | e # _ \<Rightarrow> se_type e = xe_type newest \<and> se_amount e = xe_amount newest)"

definition wait_for_history :: "('w, 'e) resty \<Rightarrow> string \<Rightarrow> string \<Rightarrow> nat \<Rightarrow> expected_event \<Rightarrow> bool list \<Rightarrow>
    'w \<Rightarrow> ('e client_error, string \<times> score_event list) poll \<times> 'w" where
  "wait_for_history rc b p want newest lates =
     poll_until (fetch_history rc b p (int want)) (\<lambda>h. Inr (history_ready want newest h)) lates"

subsection \<open>Daily activity\<close>

record activity_player =
  ap_name :: string
  ap_id :: string
  ap_expected :: int

definition activity_limit :: int where "activity_limit = 100"

fun send_increments :: "('w, 'e) resty \<Rightarrow> string \<Rightarrow> string \<Rightarrow> nat \<Rightarrow> ('w, 'e client_error, unit) io" where
  "send_increments rc b p 0 = io_ret ()"
| "send_increments rc b p (Suc n) = io_bind (api_increment_score rc b p 1) (\<lambda>_. send_increments rc b p n)"

definition write_activity :: "('w, 'e) resty \<Rightarrow> string \<Rightarrow> activity_player \<Rightarrow> ('w, 'e client_error, unit) io" where
  "write_activity rc b pl =
     io_bind (api_set_score rc b (ap_id pl) 0) (\<lambda>_. send_increments rc b (ap_id pl) (nat (ap_expected pl - 1)))"

text \<open>Go's map of the entries: a later entry of a player replaces an earlier one.\<close>

definition entry_counts :: "(string \<times> int) list \<Rightarrow> string \<rightharpoonup> int" where
  "entry_counts entries = map_of (rev entries)"

datatype 'e activity_error = ActivityCall "'e client_error" | DateMismatch string | TooMany string int

fun has_expected_counts :: "(string \<times> int) list \<Rightarrow> activity_player list \<Rightarrow> 'e activity_error + bool" where
  "has_expected_counts entries [] = Inr True"
| "has_expected_counts entries (pl # pls) =
     (case entry_counts entries (ap_id pl) of
        None \<Rightarrow> Inr False
      | Some n \<Rightarrow>
          if n < ap_expected pl then Inr False
          else if ap_expected pl < n then Inl (TooMany (ap_id pl) n)
          else has_expected_counts entries pls)"

definition activity_ready :: "string \<Rightarrow> activity_player list \<Rightarrow> string \<times> (string \<times> int) list \<Rightarrow> 'e activity_error + bool" where
  "activity_ready date players a =
     (if fst a \<noteq> date then Inl (DateMismatch (fst a)) else has_expected_counts (snd a) players)"

definition wait_for_activity :: "('w, 'e) resty \<Rightarrow> string \<Rightarrow> activity_player list \<Rightarrow> bool list \<Rightarrow>
    'w \<Rightarrow> ('e activity_error, string \<times> (string \<times> int) list) poll \<times> 'w" where
  "wait_for_activity rc date players lates =
     poll_until (\<lambda>w. case fetch_daily_activity rc date activity_limit w of
         (Inl e, w') \<Rightarrow> (Inl (ActivityCall e), w') | (Inr a, w') \<Rightarrow> (Inr a, w'))
       (activity_ready date players) lates"

definition entry_positions :: "(string \<times> int) list \<Rightarrow> string \<rightharpoonup> nat" where
  "entry_positions entries = map_of (rev (zip (map fst entries) [0..<length entries]))"

definition position :: "(string \<times> int) list \<Rightarrow> string \<Rightarrow> nat" where
  "position entries p = (case entry_positions entries p of None \<Rightarrow> 0 | Some i \<Rightarrow> i)"

fun verify_fixture_order :: "(string \<times> int) list \<Rightarrow> activity_player list \<Rightarrow> string option" where
  "verify_fixture_order entries (previous # current # pls) =
     (if position entries (ap_id current) \<le> position entries (ap_id previous) then Some (ap_id current)
      else verify_fixture_order entries (current # pls))"
| "verify_fixture_order entries _ = None"

subsection \<open>Increment load\<close>

text \<open>
  The requests are launched as goroutines; \<open>order\<close> lists their numbers in the order in which they
  take effect. A failure is recorded with its number, a success counted.
\<close>

definition send_increment_request :: "('w, 'e) resty \<Rightarrow> string \<Rightarrow> int \<Rightarrow> ('w, 'e client_error, unit) io" where
  "send_increment_request rc path amount =
     do_json decode_any rc ''POST'' path (IntField ''amount'' amount) [200, 204]"

fun run_requests :: "('w, 'e) resty \<Rightarrow> string \<Rightarrow> int \<Rightarrow> nat list \<Rightarrow> nat \<times> (nat \<times> 'e client_error) list \<Rightarrow>
    'w \<Rightarrow> (nat \<times> (nat \<times> 'e client_error) list) \<times> 'w" where
  "run_requests rc path amount [] res w = (res, w)"
| "run_requests rc path amount (i # order) (succeeded, errs) w =
     (case send_increment_request rc path amount w of
        (Inl e, w') \<Rightarrow> run_requests rc path amount order (succeeded, errs @ [(i, e)]) w'
      | (Inr _, w') \<Rightarrow> run_requests rc path amount order (succeeded + 1, errs) w')"

definition run_increment_load :: "('w, 'e) resty \<Rightarrow> string \<Rightarrow> int \<Rightarrow> nat list \<Rightarrow>
    'w \<Rightarrow> (nat \<times> (nat \<times> 'e client_error) list) \<times> 'w" where
  "run_increment_load rc path amount order = run_requests rc path amount order (0, [])"

text \<open>Every request is accounted for once.\<close>

lemma run_requests_total:
  "fst (fst (run_requests rc path amount order res w)) + length (snd (fst (run_requests rc path amount order res w))) =
    fst res + length (snd res) + length order"
  by (induction rc path amount order res w rule: run_requests.induct) (auto split: prod.splits sum.splits)

lemma run_requests_append:
  "run_requests rc path amount (xs @ ys) res w =
    (case run_requests rc path amount xs res w of (res', w') \<Rightarrow> run_requests rc path amount ys res' w')"
  by (induction rc path amount xs res w rule: run_requests.induct) (auto split: prod.splits sum.splits)

text \<open>The expected score is computed in \<open>int64\<close>.\<close>

definition verify_final_score :: "score_entry \<Rightarrow> int \<Rightarrow> int \<Rightarrow> bool" where
  "verify_final_score e request_count amount \<longleftrightarrow> sc_score e = wrap64 (request_count * amount)"

definition create_apex_fixtures :: "('w, 'e) resty \<Rightarrow> int \<Rightarrow> time \<Rightarrow> ('w, 'e client_error, string \<times> string \<times> string) io" where
  "create_apex_fixtures rc stamp now =
     io_bind (api_create_player rc (api_player_name stamp 0 [])) (\<lambda>player_id.
     let board_id = seed_board_id ''load'' now
     in io_bind (api_create_board rc board_id ''Load Test'') (\<lambda>_.
        io_bind (api_set_score rc board_id player_id 0) (\<lambda>_.
          io_ret (player_id, board_id, score_path board_id player_id))))"

subsection \<open>The scripts\<close>

text \<open>
  The mains, without printing and files; a result of none is a polling loop still at work. \<open>stamp\<close> is the
  run stamp of the names, \<open>now\<close> the clock at the board's id.
\<close>

datatype 'e check_failure =
    ScoreMismatch int int | RequestsFailed nat | HistoryWrong history_failure | TimedOut | NoEvents
  | ActivityWrong "'e activity_error" | DateChanged string string | OrderWrong string

type_synonym ('e) script_error = "('e, 'e check_failure) script_failure"

text \<open>An action that cannot fail, and how a polling loop ends the script or goes on.\<close>

definition infallible :: "('w \<Rightarrow> 'a \<times> 'w) \<Rightarrow> ('w, 'x, 'a) io" where
  "infallible f w = (case f w of (x, w') \<Rightarrow> (Inr x, w'))"

definition end_poll :: "('e \<Rightarrow> 'x) \<Rightarrow> 'x \<Rightarrow> ('w \<Rightarrow> ('e, 'a) poll \<times> 'w) \<Rightarrow> ('w, 'x, 'a option) io" where
  "end_poll failed timed_out f w =
     (case f w of
        (PollFailed e, w') \<Rightarrow> (Inl (failed e), w')
      | (PollTimedOut, w') \<Rightarrow> (Inl timed_out, w')
      | (PollAgain, w') \<Rightarrow> (Inr None, w')
      | (PollReady x, w') \<Rightarrow> (Inr (Some x), w'))"

lemma infallible_Inr [simp]: "infallible f w = (Inr x, w') \<longleftrightarrow> f w = (x, w')"
  by (auto simp: infallible_def split: prod.split)

lemma end_poll_Some [simp]: "end_poll failed t f w = (Inr (Some x), w') \<longleftrightarrow> f w = (PollReady x, w')"
  by (auto simp: end_poll_def split: prod.split poll.split)

definition load_main :: "('w, 'e) resty \<Rightarrow> int \<Rightarrow> time \<Rightarrow> load_test_config \<Rightarrow> nat list \<Rightarrow> ('w, 'e script_error, score_entry) io" where
  "load_main rc stamp now cfg order =
     io_bind (fatal_on ''create fixtures'' (create_apex_fixtures rc stamp now)) (\<lambda>(player_id, board_id, path).
     io_bind (infallible (run_increment_load rc (path @ ''/increment'') (lc_amount cfg) order)) (\<lambda>(succeeded, errs).
     io_bind (fatal_on ''get standing'' (fetch_standing rc board_id player_id)) (\<lambda>(e, _).
     io_bind (fatal_on ''get history'' (fetch_history rc board_id player_id 0)) (\<lambda>_.
       if \<not> verify_final_score e (lc_requests cfg) (lc_amount cfg)
       then io_fail (CheckFailed (ScoreMismatch (sc_score e) (wrap64 (lc_requests cfg * lc_amount cfg))))
       else if errs \<noteq> [] then io_fail (CheckFailed (RequestsFailed (length errs)))
       else io_ret e))))"

text \<open>\<open>pick\<close> is the index \<open>RandomPlayerName\<close> draws.\<close>

definition random_history_main :: "('w, 'e) resty \<Rightarrow> int \<Rightarrow> time \<Rightarrow> nat \<Rightarrow> random_history_config \<Rightarrow> 'g rng \<Rightarrow> 'g \<Rightarrow> bool list \<Rightarrow>
    ('w, 'e script_error, (expected_event list \<times> score_entry \<times> score_event list) option) io" where
  "random_history_main rc stamp now pick cfg int_n g lates =
     (let board_id = (if rh_board cfg = [] then seed_board_id ''random-history'' now else rh_board cfg)
      in io_bind (fatal_on ''create board'' (api_ensure_board rc board_id (rh_board_name cfg))) (\<lambda>_.
         io_bind (fatal_on ''create player'' (api_create_player rc (random_player_name stamp pick []))) (\<lambda>player_id.
         io_bind (fatal_on ''write event'' (write_random_events rc board_id player_id int_n 0 (nat (rh_events cfg)) g [] 0))
           (\<lambda>(written, expected).
         io_bind (fatal_on ''fetch standing'' (fetch_standing rc board_id player_id)) (\<lambda>(e, _).
           if sc_score e \<noteq> expected then io_fail (CheckFailed (ScoreMismatch (sc_score e) expected))
           else if written = [] then io_fail (CheckFailed NoEvents)
           else let verified = min (length written) history_page_limit
             in io_bind (end_poll (CallFailed ''fetch history'') (CheckFailed TimedOut)
                 (wait_for_history rc board_id player_id verified (last written) lates)) (\<lambda>r. case r of
                 None \<Rightarrow> io_ret None
               | Some h \<Rightarrow>
                   (case verify_history (snd h) (drop (length written - verified) written) of
                      Some f \<Rightarrow> io_fail (CheckFailed (HistoryWrong f))
                    | None \<Rightarrow> io_bind (fatal_on ''projection verify'' (api_verify_projection rc board_id))
                        (\<lambda>_. io_ret (Some (written, e, snd h))))))))))"

text \<open>The flag of the daily activity script; \<open>Inl\<close> is \<open>log.Fatal\<close>.\<close>

definition daily_activity_flags :: "string \<Rightarrow> int \<Rightarrow> string + string \<times> int" where
  "daily_activity_flags base_url timeout =
     (if timeout \<le> 0 then Inl ''timeout must be positive'' else Inr (base_url, timeout))"

text \<open>The three players of the activity fixture, each count part of the name.\<close>

fun create_fixture_players :: "('w, 'e) resty \<Rightarrow> int \<Rightarrow> nat \<Rightarrow> int list \<Rightarrow> ('w, 'e client_error, activity_player list) io" where
  "create_fixture_players rc stamp i [] = io_ret []"
| "create_fixture_players rc stamp i (n # counts) =
     (let name = api_player_name stamp i [format_int n]
      in io_bind (api_create_player rc name) (\<lambda>player_id.
         io_bind (create_fixture_players rc stamp (i + 1) counts) (\<lambda>rest.
           io_ret (\<lparr>ap_name = name, ap_id = player_id, ap_expected = n\<rparr> # rest))))"

fun write_all_activity :: "('w, 'e) resty \<Rightarrow> string \<Rightarrow> activity_player list \<Rightarrow> ('w, 'e client_error, unit) io" where
  "write_all_activity rc board_id [] = io_ret ()"
| "write_all_activity rc board_id (pl # pls) =
     io_bind (write_activity rc board_id pl) (\<lambda>_. write_all_activity rc board_id pls)"

text \<open>\<open>before\<close> and \<open>after\<close> are the clock around the writes.\<close>

definition daily_activity_main :: "('w, 'e) resty \<Rightarrow> int \<Rightarrow> time \<Rightarrow> time \<Rightarrow> time \<Rightarrow> bool list \<Rightarrow>
    ('w, 'e script_error, (activity_player list \<times> (string \<times> int) list) option) io" where
  "daily_activity_main rc stamp now before after lates =
     (let board_id = seed_board_id ''daily-activity'' now; date = format_date before
      in io_bind (fatal_on ''create board'' (api_create_board rc board_id ''Daily Activity Test'')) (\<lambda>_.
         io_bind (fatal_on ''create player'' (create_fixture_players rc stamp 0 [30, 20, 10])) (\<lambda>players.
         io_bind (fatal_on ''write activity'' (write_all_activity rc board_id players)) (\<lambda>_.
           if format_date after \<noteq> date then io_fail (CheckFailed (DateChanged date (format_date after)))
           else io_bind (end_poll (\<lambda>err. CheckFailed (ActivityWrong err)) (CheckFailed TimedOut)
                 (wait_for_activity rc date players lates)) (\<lambda>r. case r of
                 None \<Rightarrow> io_ret None
               | Some (_, entries) \<Rightarrow>
                   (case verify_fixture_order entries players of
                      Some p \<Rightarrow> io_fail (CheckFailed (OrderWrong p))
                    | None \<Rightarrow> io_ret (Some (players, entries))))))))"

subsection \<open>What the checks mean\<close>

definition expected_score :: "expected_event list \<Rightarrow> int" where
  "expected_score xs = foldl (\<lambda>sc x. if xe_type x = event_set then xe_amount x else sc + xe_amount x) 0 xs"

lemma expected_score_snoc:
  "expected_score (xs @ [x]) = (if xe_type x = event_set then xe_amount x else expected_score xs + xe_amount x)"
  by (simp add: expected_score_def)

definition fair_rng :: "'g rng \<Rightarrow> bool" where
  "fair_rng int_n \<longleftrightarrow> (\<forall>n g. 0 < n \<longrightarrow> 0 \<le> fst (int_n n g) \<and> fst (int_n n g) < n)"

lemma pick_event_small:
  assumes "fair_rng int_n" shows "\<bar>xe_amount (fst (pick_event int_n i g))\<bar> \<le> 5000"
proof -
  have "0 \<le> fst (int_n n g) \<and> fst (int_n n g) < n" if "0 < n" for n g
    using assms that by (simp add: fair_rng_def)
  from this [of 5000] this [of 1001] this [of 151] show ?thesis
    by (simp add: pick_event_def Let_def split_beta abs_le_iff) (smt (verit))
qed

text \<open>The score the script expects is the fold of the events it wrote; it stays far inside \<open>int64\<close>.\<close>

lemma write_random_events_score:
  assumes "write_random_events rc b p int_n i n g acc sc w = (Inr (written, tot), w')" and "fair_rng int_n"
    and "sc = expected_score acc" and "\<bar>sc\<bar> \<le> 5000 * int (length acc)" and "length acc + n \<le> 10 ^ 9"
  shows "tot = expected_score written \<and> length written = length acc + n"
  using assms
proof (induction n arbitrary: i g acc sc w)
  case (Suc n)
  obtain x g' where x: "pick_event int_n i g = (x, g')" by fastforce
  with pick_event_small [OF Suc.prems(2), of i g] have small: "\<bar>xe_amount x\<bar> \<le> 5000" by simp
  let ?sc = "if xe_type x = event_set then xe_amount x else wrap64 (sc + xe_amount x)"
  have "int (length acc) \<le> 10 ^ 9" using Suc.prems(5) by simp
  with Suc.prems(4) have "\<bar>sc\<bar> \<le> 5000 * 10 ^ 9" by linarith
  with small have "is_int64 (sc + xe_amount x)" unfolding is_int64_def by (simp add: abs_le_iff)
  then have sc: "?sc = expected_score (acc @ [x])" by (simp add: expected_score_snoc Suc.prems(3))
  from Suc.prems(1) obtain w1 where
    "write_random_events rc b p int_n (i + 1) n g' (acc @ [x]) ?sc w1 = (Inr (written, tot), w')"
    by (auto simp: x io_bind_eq_Inr)
  moreover have "\<bar>?sc\<bar> \<le> 5000 * int (length (acc @ [x]))"
    unfolding sc expected_score_snoc using Suc.prems(3,4) small by (auto simp: abs_le_iff)
  ultimately show ?case using Suc.IH [OF _ Suc.prems(2) sc] Suc.prems(5) by simp
qed simp

text \<open>It is what the replay of the ledger gives the player.\<close>

lemma replay_expected:
  assumes "map (\<lambda>e. (ev_type e, ev_amount e)) evs = map (\<lambda>x. (xe_type x, xe_amount x)) xs"
    and "\<forall>e \<in> set evs. ev_player e = p"
  shows "replay evs p = (if xs = [] then None else Some (expected_score xs))"
  using assms
proof (induction evs arbitrary: xs rule: rev_induct)
  case Nil
  then show ?case by (simp add: replay_def)
next
  case (snoc e evs)
  then obtain ys x where xs: "xs = ys @ [x]" by (cases xs rule: rev_cases) auto
  with snoc have "replay evs p = (if ys = [] then None else Some (expected_score ys))" by simp
  then have cur: "(case replay evs p of None \<Rightarrow> 0 | Some c \<Rightarrow> c) = expected_score ys"
    by (simp add: expected_score_def)
  have "replay (evs @ [e]) p = replay1 (replay evs) e p" by (simp add: replay_def)
  also have "\<dots> = Some (expected_score xs)"
    using snoc.prems cur by (simp add: xs replay1_def expected_score_snoc)
  finally show ?case by (simp add: xs)
qed

text \<open>The history check accepts exactly the events written, in reverse order.\<close>

lemma compare_events_iff:
  "length gots = length wants \<Longrightarrow>
    compare_events i gots wants = None \<longleftrightarrow> gots = map (\<lambda>x. (xe_type x, xe_amount x)) wants"
  by (induction i gots wants rule: compare_events.induct) (auto simp: prod_eq_iff)

lemma verify_history_iff:
  "verify_history events written = None \<longleftrightarrow>
    map event_key (rev events) = map (\<lambda>x. (xe_type x, xe_amount x)) written"
proof -
  have "map event_key (rev events) = map (\<lambda>x. (xe_type x, xe_amount x)) written \<Longrightarrow> length events = length written"
    using map_eq_imp_length_eq by fastforce
  then show ?thesis using compare_events_iff [of "map event_key (rev events)" written 0]
    by (auto simp: verify_history_def)
qed

lemma has_expected_counts_iff:
  "has_expected_counts entries players = Inr True \<longleftrightarrow>
    (\<forall>pl \<in> set players. entry_counts entries (ap_id pl) = Some (ap_expected pl))"
  by (induction entries players rule: has_expected_counts.induct) (auto split: option.split)

text \<open>A poll that ends ready has seen the page it waited for; one whose deadline passes ends.\<close>

lemma wait_for_history_ready:
  "wait_for_history rc b p want newest lates w = (PollReady h, w') \<Longrightarrow> history_ready want newest h"
  unfolding wait_for_history_def by (drule poll_until_ready) simp

lemma wait_for_activity_ready:
  "wait_for_activity rc date players lates w = (PollReady a, w') \<Longrightarrow>
    fst a = date \<and> (\<forall>pl \<in> set players. entry_counts (snd a) (ap_id pl) = Some (ap_expected pl))"
  unfolding wait_for_activity_def
  by (drule poll_until_ready) (auto simp: activity_ready_def has_expected_counts_iff split: if_splits)

lemma polling_ends:
  "True \<in> set lates \<Longrightarrow> fst (wait_for_history rc b p want newest lates w) \<noteq> PollAgain"
  "True \<in> set lates \<Longrightarrow> fst (wait_for_activity rc date players lates w) \<noteq> PollAgain"
  by (simp_all add: wait_for_history_def wait_for_activity_def poll_until_ends)

text \<open>What the scripts have seen when they end well.\<close>

lemma fatal_on_Inr: "fatal_on what act w = (Inr x, w') \<longleftrightarrow> act w = (Inr x, w')"
  by (auto simp: fatal_on_def split: prod.splits sum.splits)

lemma go_on_Some:
  "(case r of None \<Rightarrow> io_ret None | Some x \<Rightarrow> g x) w = (Inr (Some y), w') \<longleftrightarrow> (\<exists>x. r = Some x \<and> g x w = (Inr (Some y), w'))"
  by (cases r) simp_all

lemma check_None:
  "(case f of None \<Rightarrow> m | Some x \<Rightarrow> io_fail (h x)) w = (Inr y, w') \<longleftrightarrow> f = None \<and> m w = (Inr y, w')"
  by (cases f) simp_all

lemmas script_ends = io_bind_eq_Inr fatal_on_Inr go_on_Some check_None

lemma load_main_sound:
  assumes "load_main rc stamp now cfg order w = (Inr e, w')"
  shows "sc_score e = wrap64 (lc_requests cfg * lc_amount cfg)"
  using assms
  by (auto simp: load_main_def io_bind_eq_Inr fatal_on_Inr verify_final_score_def split: prod.split_asm if_split_asm)

lemma random_history_sound:
  assumes "random_history_main rc stamp now pick cfg int_n g lates w = (Inr (Some (written, e, events)), w')"
    and "fair_rng int_n" and "rh_events cfg \<le> 10 ^ 9"
  shows "sc_score e = expected_score written \<and> int (length written) = rh_events cfg \<and>
    map event_key (rev events) = map (\<lambda>x. (xe_type x, xe_amount x)) (drop (length written - history_page_limit) written)"
proof -
  let ?n = "nat (rh_events cfg)"
  from assms(1) obtain b p w1 w2 expected where
    run: "write_random_events rc b p int_n 0 ?n g [] 0 w1 = (Inr (written, expected), w2)" and
    ok: "sc_score e = expected" "written \<noteq> []"
      "verify_history events (drop (length written - min (length written) history_page_limit) written) = None"
    unfolding random_history_main_def Let_def
    by (auto simp: script_ends split: prod.split_asm if_split_asm)
  have "?n \<le> 10 ^ 9" using assms(3) by (simp add: nat_le_iff)
  then have len: "expected = expected_score written" "length written = ?n"
    using write_random_events_score [OF run assms(2)] by (simp_all add: expected_score_def)
  have "length written - min (length written) history_page_limit = length written - history_page_limit"
    by (simp add: min_def)
  with ok(3) have "map event_key (rev events) = map (\<lambda>x. (xe_type x, xe_amount x)) (drop (length written - history_page_limit) written)"
    by (simp add: verify_history_iff)
  moreover have "int (length written) = rh_events cfg" using len(2) ok(2) by (cases "rh_events cfg \<le> 0") simp_all
  ultimately show ?thesis using ok(1) len(1) by simp
qed

lemma fixture_counts:
  "create_fixture_players rc stamp i counts w = (Inr players, w') \<Longrightarrow> map ap_expected players = counts"
  by (induction rc stamp i counts arbitrary: players w w' rule: create_fixture_players.induct)
    (auto simp: Let_def io_bind_eq_Inr)

lemma fixture_order:
  "verify_fixture_order entries players = None \<Longrightarrow> sorted_wrt (<) (map (\<lambda>pl. position entries (ap_id pl)) players)"
proof (induction entries players rule: verify_fixture_order.induct)
  case (1 entries previous current pls)
  then have "sorted_wrt (<) (map (\<lambda>pl. position entries (ap_id pl)) (current # pls))"
    "position entries (ap_id previous) < position entries (ap_id current)"
    by (simp_all split: if_splits)
  then show ?case by auto
qed auto

lemma daily_activity_sound:
  assumes "daily_activity_main rc stamp now before after lates w = (Inr (Some (players, entries)), w')"
  shows "map ap_expected players = [30, 20, 10] \<and>
    (\<forall>pl \<in> set players. entry_counts entries (ap_id pl) = Some (ap_expected pl)) \<and>
    sorted_wrt (<) (map (\<lambda>pl. position entries (ap_id pl)) players)"
proof -
  from assms obtain date date' w1 w2 w3 w4 where
    run: "create_fixture_players rc stamp 0 [30, 20, 10] w1 = (Inr players, w2)"
      "wait_for_activity rc date players lates w3 = (PollReady (date', entries), w4)"
      "verify_fixture_order entries players = None"
    unfolding daily_activity_main_def Let_def
    by (auto simp: script_ends simp del: create_fixture_players.simps split: prod.split_asm if_split_asm)
  with fixture_counts [OF run(1)] fixture_order [OF run(3)] wait_for_activity_ready [OF run(2)] show ?thesis by simp
qed

end
