(* ===== verification/LoadService.thy ===== *)
theory LoadService
  imports FanoutService LoadChecks
begin

section \<open>The increment load against the service\<close>

text \<open>
  Increments sent one after the other through the whole service (mux, handler, script) all succeed and
  add up, as long as the ledger has ids left; reading the standing then gives the sum the script
  expects. The requests the server reads are \<open>reads_increments\<close>.
\<close>

definition reads_increments :: "http_ext \<Rightarrow> (string \<Rightarrow> string \<Rightarrow> client_body \<Rightarrow> request) \<Rightarrow> string \<Rightarrow> string \<Rightarrow> int \<Rightarrow> bool" where
  "reads_increments H send b p a \<longleftrightarrow>
     (let path = score_path b p @ ''/increment''; rq = send ''POST'' path (IntField ''amount'' a)
      in rq_method rq = ''POST'' \<and> rq_path rq = path \<and> rq_headers rq idempotency_key_header = None \<and>
        (\<forall>vs i. read_json_int H (with_path_values vs (rq\<lparr>rq_context_id := i\<rparr>)) ''amount'' max_request_body_bytes = Inr (Some a)))"

lemma increment_route:
  assumes "CHR ''/'' \<notin> set b" "CHR ''/'' \<notin> set p" "b \<noteq> []" "p \<noteq> []"
  shows "route_request ''POST'' (score_path b p @ ''/increment'') =
    Serve RouteIncrementScore [(''board_id'', b), (''player_id'', p)]"
proof -
  have "split_on (CHR ''/'') (b @ CHR ''/'' # ''scores/'' @ p @ CHR ''/'' # ''increment'') = [b, ''scores'', p, ''increment'']"
    using assms by simp
  then have "tl (split_on (CHR ''/'') (score_path b p @ ''/increment'')) =
      [''api'', ''v1'', ''boards'', b, ''scores'', p, ''increment'']"
    by (simp add: score_path_def)
  moreover have "path_matches [''api'', ''v1'', ''boards'', b, ''scores'', p, ''increment''] =
      [((''POST'', ''/api/v1/boards/{board_id}/scores/{player_id}/increment''), RouteIncrementScore)]"
    using assms(3,4) by (simp add: path_matches_def new_mux_def pattern_segs_mux)
  ultimately show ?thesis
    using assms(3,4) by (simp add: route_request_def routes_for_def method_matches_def pattern_segs_mux)
qed

text \<open>A board and a player that take writes, with the player's score so far.\<close>

definition open_for :: "ext \<Rightarrow> string \<Rightarrow> string \<Rightarrow> int \<Rightarrow> keyspace \<Rightarrow> bool" where
  "open_for X b p c ks \<longleftrightarrow> (\<exists>m. board_open X b {p} m ks \<and> m p = Some c)"

context redis_server
begin

lemma served_increment:
  assumes "open_for X b p c (view s)" "ids_nonempty X" "am_uuid A \<noteq> []"
    and "board_id_validate X b" "player_id_validate X p" "plain_segment b" "plain_segment p"
    and "reads_increments H send b p a" "score_validate a" "score_validate (c + a)" "last_sid (ledger_of (view s)) < sid_max"
  shows "\<exists>s'. send_increment_request (service_rc E H X R A send) (score_path b p @ ''/increment'') a (quiet s) = (Inr (), quiet s') \<and>
    open_for X b p (c + a) (view s')"
proof -
  note seg = plain_segmentD(2) [OF assms(6)] plain_segmentD(2) [OF assms(7)] plain_segmentD(1) [OF assms(6)] plain_segmentD(1) [OF assms(7)]
  from assms(1) obtain m where m: "board_open X b {p} m (view s)" "m p = Some c" by (auto simp: open_for_def)
  then have new: "new_score m event_increment p a = c + a" by (simp add: new_score_def event_set_def event_increment_def)
  let ?path = "score_path b p @ ''/increment''"
  let ?rq = "send ''POST'' ?path (IntField ''amount'' a)"
  let ?rq' = "score_request A b p ?rq"
  have rq: "rq_method ?rq = ''POST''" "rq_path ?rq = ?path" "rq_headers ?rq idempotency_key_header = None"
    "read_json_int H ?rq' ''amount'' max_request_body_bytes = Inr (Some a)"
    using assms(8) by (simp_all add: reads_increments_def Let_def score_request_def)
  have acc: "accepts_write H X (write_field event_increment) ?rq' b p [] a"
    using assms(4,5,9) rq(3,4) by (simp add: accepts_write_def write_field_def read_idempotency_key_def event_set_def event_increment_def)
  have inv: "world_inv X UNIV (view s)" "board_scores X b (ledger_of (view s)) = m"
    using m(1) by (simp_all add: board_open_def)
  have "decide m (view s) event_increment p b a [] = None" using decide_open [OF m(1)] new assms(10) by simp
  then obtain s1 where s1: "handle_write event_increment H X R (am_uuid A) ?rq' (quiet s) = (Some (write_header 204), quiet s1)"
    "wrote X event_increment p b a (request_id (am_uuid A) ?rq') [] (view s) (view s1)"
    "writable X event_increment p b a (request_id (am_uuid A) ?rq')"
    using accepted_write_runs [OF acc _ inv(1) assms(2,3,11)] inv(2) by auto
  then have "serve_mux H X R A (?rq\<lparr>rq_context_id := am_request_id A\<rparr>) (quiet s) = (Some (write_header 204), quiet s1)"
    using increment_route [OF seg] rq(1,2)
    by (simp add: serve_mux_def score_request_def handle_write_def event_set_def event_increment_def)
  moreover have "open_for X b p (c + a) (view s1)"
    using wrote_board_open [OF s1(2,3) m(1)] new by (auto simp: open_for_def)
  ultimately show ?thesis
    using service_rc_run [where send = send and E = E] by (fastforce simp: send_increment_request_def do_json_def)
qed

text \<open>A run of increments: all of them, or as many as there were ids for.\<close>

lemma increments_add_up:
  assumes "open_for X b p c (view s)" "ids_nonempty X" "am_uuid A \<noteq> []"
    and "board_id_validate X b" "player_id_validate X p" "plain_segment b" "plain_segment p"
    and "reads_increments H send b p a" "score_validate a"
    and "\<forall>k \<le> length order. score_validate (c + int k * a)"
  shows "(\<exists>s'. run_requests (service_rc E H X R A send) (score_path b p @ ''/increment'') a order (m, []) (quiet s) =
        ((m + length order, []), quiet s') \<and> open_for X b p (c + int (length order) * a) (view s')) \<or>
    (\<exists>k s'. k < length order \<and> run_requests (service_rc E H X R A send) (score_path b p @ ''/increment'') a
        (take k order) (m, []) (quiet s) = ((m + k, []), quiet s') \<and> \<not> last_sid (ledger_of (view s')) < sid_max)"
  using assms(1,10)
proof (induction order arbitrary: c s m)
  case (Cons i order)
  let ?run = "run_requests (service_rc E H X R A send) (score_path b p @ ''/increment'') a"
  show ?case
  proof (cases "last_sid (ledger_of (view s)) < sid_max")
    case True
    have "score_validate (c + a)" using Cons.prems(2) [rule_format, of 1] by simp
    from served_increment [OF Cons.prems(1) assms(2-9) this True] obtain s1 where
      s1: "send_increment_request (service_rc E H X R A send) (score_path b p @ ''/increment'') a (quiet s) = (Inr (), quiet s1)"
      "open_for X b p (c + a) (view s1)" by blast
    have "\<forall>k \<le> length order. score_validate (c + a + int k * a)"
    proof (intro allI impI)
      fix k assume "k \<le> length order"
      then show "score_validate (c + a + int k * a)"
        using Cons.prems(2) [rule_format, of "k + 1"] by (simp add: algebra_simps)
    qed
    from Cons.IH [OF s1(2) this, of "m + 1"] show ?thesis
    proof
      assume "\<exists>s'. ?run order (m + 1, []) (quiet s1) = ((m + 1 + length order, []), quiet s') \<and>
        open_for X b p (c + a + int (length order) * a) (view s')"
      then show ?thesis using s1(1) by (intro disjI1) (auto simp: algebra_simps)
    next
      assume "\<exists>k s'. k < length order \<and> ?run (take k order) (m + 1, []) (quiet s1) = ((m + 1 + k, []), quiet s') \<and>
        \<not> last_sid (ledger_of (view s')) < sid_max"
      then obtain k s' where "k < length order" "?run (take k order) (m + 1, []) (quiet s1) = ((m + 1 + k, []), quiet s')"
        "\<not> last_sid (ledger_of (view s')) < sid_max" by blast
      then show ?thesis using s1(1) by (intro disjI2 exI [of _ "k + 1"] exI [of _ s']) simp
    qed
  next
    case False
    then show ?thesis by (intro disjI2 exI [of _ 0] exI [of _ s]) simp
  qed
qed auto

lemma standing_read:
  assumes "open_for X b p c (view s)" "board_id_validate X b" "player_id_validate X p"
    and "plain_segment b" "plain_segment p" "reads_scores H send b"
  shows "\<exists>e tot w. fetch_standing (service_rc E H X R A send) b p (quiet s) = (Inr (e, tot), w) \<and> sc_player e = p \<and> sc_score e = c"
proof -
  have inv: "world_inv X UNIV (view s)" and sc: "board_scores X b (ledger_of (view s)) p = Some c"
    using assms(1) by (auto simp: open_for_def board_open_def)
  from doc_get_standing [OF inv] obtain rows where rows: "is_ranking (board_scores X b (ledger_of (view s))) rows" by blast
  from ranked_player [OF rows sc] obtain row where
    row: "find (\<lambda>row. st_player row = p) rows = Some row" "st_player row = p" "st_score row = c" by blast
  then have "row \<in> set rows" by (auto simp: find_Some_iff)
  from served_standing [OF inv rows this assms(6,2,4), of E A] row assms(3,5) show ?thesis
    by (auto simp: score_entry_of_def)
qed

end

end
