(* ===== verification/ApiWalk.thy ===== *)
theory ApiWalk
  imports LoadService
begin

section \<open>The demonstration walk (\<open>apiscripts/apiwalk\<close>)\<close>

text \<open>
  A script that calls one endpoint after the other and prints what comes back; its step titles say what
  is to come. \<open>walk_scores\<close> are its calls from the first score on. The comments and titles are the
  specification: an abstract board with a state, one score and the idempotency keys it has seen. The
  service refines it for the writes of the walk, in any order and number.
\<close>

subsection \<open>Colours\<close>

definition ansi :: "string \<Rightarrow> string" where "ansi code = CHR 0x1B # ''['' @ code @ ''m''"

definition ansi_reset :: string where "ansi_reset = ansi ''0''"
definition ansi_red :: string where "ansi_red = ansi ''31''"
definition ansi_green :: string where "ansi_green = ansi ''32''"
definition ansi_yellow :: string where "ansi_yellow = ansi ''33''"
definition ansi_gray :: string where "ansi_gray = ansi ''37''"

text \<open>\<open>tty\<close> is whether standard output can be examined and is a character device.\<close>

definition use_color :: "(string \<Rightarrow> string) \<Rightarrow> bool \<Rightarrow> string \<Rightarrow> bool" where
  "use_color getenv tty mode =
     (if mode = ''always'' then True
      else if mode = ''never'' then False
      else if getenv ''NO_COLOR'' \<noteq> [] then False else tty)"

definition paint :: "bool \<Rightarrow> string \<Rightarrow> string \<Rightarrow> string" where
  "paint colored color s = (if \<not> colored then s else color @ s @ ansi_reset)"

definition status_color :: "int \<Rightarrow> string" where
  "status_color code =
     (if 500 \<le> code then ansi_red
      else if 400 \<le> code then ansi_yellow
      else if 200 \<le> code \<and> code < 300 then ansi_green else ansi_gray)"

subsection \<open>Calls\<close>

text \<open>An empty key sends no \<open>Idempotency-Key\<close>; a transport error gives no response, and the walk goes on.\<close>

record walk_call =
  wk_method :: string
  wk_path :: string
  wk_body :: client_body
  wk_key :: string

type_synonym ('w, 'e) walk_rc = "string \<Rightarrow> string \<Rightarrow> client_body \<Rightarrow> string \<Rightarrow> ('w, 'e, int \<times> body) io"

definition call_with_key :: "('w, 'e) walk_rc \<Rightarrow> walk_call \<Rightarrow> 'w \<Rightarrow> (int \<times> body) option \<times> 'w" where
  "call_with_key rc c w =
     (case rc (wk_method c) (wk_path c) (wk_body c) (wk_key c) w of
        (Inl e, w') \<Rightarrow> (None, w') | (Inr r, w') \<Rightarrow> (Some r, w'))"

definition walk_get :: "string \<Rightarrow> walk_call" where
  "walk_get path = \<lparr>wk_method = ''GET'', wk_path = path, wk_body = NoReqBody, wk_key = []\<rparr>"

definition walk_post :: "string \<Rightarrow> walk_call" where
  "walk_post path = \<lparr>wk_method = ''POST'', wk_path = path, wk_body = NoReqBody, wk_key = []\<rparr>"

fun run_walk :: "('w, 'e) walk_rc \<Rightarrow> walk_call list \<Rightarrow> 'w \<Rightarrow> (int \<times> body) option list \<times> 'w" where
  "run_walk rc [] w = ([], w)"
| "run_walk rc (c # cs) w =
     (case call_with_key rc c w of (r, w1) \<Rightarrow> (case run_walk rc cs w1 of (rs, w2) \<Rightarrow> (r # rs, w2)))"

text \<open>A key holds the clock when it is made, so that a later run does not meet it again.\<close>

definition walk_key :: "(string \<Rightarrow> time) \<Rightarrow> string \<Rightarrow> string" where
  "walk_key clock name = ''walk-'' @ format_int (unix_milli (clock name)) @ ''-'' @ name"

definition walk_board_name :: string where
  "walk_board_name = ''Demo Cup '' @ [CHR 0xF0, CHR 0x9F, CHR 0x8C, CHR 0xB3]"

definition walk_setup :: "string \<Rightarrow> string \<Rightarrow> walk_call list" where
  "walk_setup b p =
     [walk_get (''/api/v1/players/'' @ p),
      \<lparr>wk_method = ''PUT'', wk_path = ''/api/v1/boards/'' @ b, wk_body = TextField ''board_name'' walk_board_name, wk_key = []\<rparr>,
      walk_get ''/api/v1/boards'',
      walk_get (''/api/v1/boards/'' @ b)]"

definition walk_scores :: "string \<Rightarrow> string \<Rightarrow> (string \<Rightarrow> time) \<Rightarrow> walk_call list" where
  "walk_scores b p clock =
     (let scores = ''/api/v1/boards/'' @ b @ ''/scores'';
          standing = scores @ ''/'' @ p;
          board = ''/api/v1/boards/'' @ b;
          admin = ''/api/v1/admin/boards/'' @ b @ ''/projection'';
          increment_key = walk_key clock ''increment'';
          increment = (\<lambda>n key. \<lparr>wk_method = ''POST'', wk_path = standing @ ''/increment'',
            wk_body = IntField ''amount'' n, wk_key = key\<rparr>);
          put = (\<lambda>n key. \<lparr>wk_method = ''PUT'', wk_path = standing, wk_body = IntField ''player_score'' n, wk_key = key\<rparr>)
      in [put 100 (walk_key clock ''set''),
          increment 5 increment_key,
          increment 5 increment_key,
          increment 7 increment_key,
          walk_get (scores @ ''?limit=10''),
          walk_get standing,
          walk_get (standing @ ''/history''),
          walk_get ''/api/v1/events?after=0-0&limit=10'',
          walk_post (board @ ''/close''),
          walk_get board,
          put 999 [],
          walk_get scores,
          walk_post (board @ ''/open''),
          increment 1 (walk_key clock ''reopen-increment''),
          walk_get (admin @ ''/verify''),
          walk_post (admin @ ''/rebuild''),
          walk_get (admin @ ''/verify'')])"

text \<open>A string down a path of keys; a body that is not JSON, a missing key and another type give nothing.\<close>

fun field_from :: "json \<Rightarrow> string list \<Rightarrow> string" where
  "field_from (JStr s) [] = s"
| "field_from (JObj fs) (k # ks) = (case map_of fs k of None \<Rightarrow> [] | Some v \<Rightarrow> field_from v ks)"
| "field_from _ _ = []"

definition json_field :: "json option \<Rightarrow> string list \<Rightarrow> string" where
  "json_field j keys = (case j of None \<Rightarrow> [] | Some node \<Rightarrow> field_from node keys)"

text \<open>The whole walk; \<open>stamp\<close> is the run stamp in the player's name.\<close>

definition api_walk :: "('w, 'e) walk_rc \<Rightarrow> int \<Rightarrow> string \<Rightarrow> (string \<Rightarrow> time) \<Rightarrow> 'w \<Rightarrow> (int \<times> body) option list \<times> 'w" where
  "api_walk rc stamp b clock w =
     (case call_with_key rc (walk_get ''/'') w of (r0, w0) \<Rightarrow>
     (case call_with_key rc \<lparr>wk_method = ''POST'', wk_path = ''/api/v1/players'',
         wk_body = TextField ''player_name'' (api_player_name stamp 0 []), wk_key = walk_key clock ''player''\<rparr> w0 of (created, w1) \<Rightarrow>
     (let p = (case created of None \<Rightarrow> [] | Some (_, reply) \<Rightarrow> json_field (encode_body reply) [''player'', ''player_id''])
      in case run_walk rc (walk_setup b p @ walk_scores b p clock) w1 of (rs, w2) \<Rightarrow> (r0 # created # rs, w2))))"

subsection \<open>The specification: an abstract board\<close>

datatype walk_op = WScore string int string | WState string | WRebuild

record walk_board =
  wb_state :: string
  wb_score :: "int option"
  wb_keys :: "string \<rightharpoonup> string \<times> int"

fun walk_step :: "walk_op \<Rightarrow> walk_board \<Rightarrow> int \<times> walk_board" where
  "walk_step (WScore op n key) a =
     (case (if key = [] then None else wb_keys a key) of
        Some seen \<Rightarrow> (if seen = (op, n) then 204 else 409, a)
      | None \<Rightarrow>
          let new = (if op = event_set then n else (case wb_score a of None \<Rightarrow> 0 | Some c \<Rightarrow> c) + n)
          in if wb_state a = board_closed \<or> \<not> score_validate new then (409, a)
             else (204, a\<lparr>wb_score := Some new, wb_keys := (if key = [] then wb_keys a else (wb_keys a)(key \<mapsto> (op, n)))\<rparr>))"
| "walk_step (WState st) a = (204, a\<lparr>wb_state := st\<rparr>)"
| "walk_step WRebuild a = (204, a)"

fun walk_spec :: "walk_op list \<Rightarrow> walk_board \<Rightarrow> int list \<times> walk_board" where
  "walk_spec [] a = ([], a)"
| "walk_spec (x # xs) a =
     (case walk_step x a of (st, a1) \<Rightarrow> (case walk_spec xs a1 of (sts, a2) \<Rightarrow> (st # sts, a2)))"

text \<open>The call of an operation, and the operations of the walk.\<close>

fun walk_call_of :: "string \<Rightarrow> string \<Rightarrow> walk_op \<Rightarrow> walk_call" where
  "walk_call_of b p (WScore op n key) =
     \<lparr>wk_method = (if op = event_set then ''PUT'' else ''POST''),
      wk_path = score_path b p @ (if op = event_set then [] else ''/increment''),
      wk_body = IntField (write_field op) n, wk_key = key\<rparr>"
| "walk_call_of b p (WState st) = walk_post (''/api/v1/boards/'' @ b @ (if st = board_closed then ''/close'' else ''/open''))"
| "walk_call_of b p WRebuild = walk_post (''/api/v1/admin/boards/'' @ b @ ''/projection/rebuild'')"

definition walk_ops :: "(string \<Rightarrow> time) \<Rightarrow> walk_op list" where
  "walk_ops clock =
     [WScore event_set 100 (walk_key clock ''set''),
      WScore event_increment 5 (walk_key clock ''increment''), WScore event_increment 5 (walk_key clock ''increment''),
      WScore event_increment 7 (walk_key clock ''increment''),
      WState board_closed, WScore event_set 999 [], WState board_active,
      WScore event_increment 1 (walk_key clock ''reopen-increment''), WRebuild]"

lemma walk_writes:
  "filter (\<lambda>c. wk_method c \<noteq> ''GET'') (walk_scores b p clock) = map (walk_call_of b p) (walk_ops clock)"
  by (simp add: walk_scores_def walk_ops_def walk_get_def walk_post_def Let_def score_path_def write_field_def
      event_set_def event_increment_def board_closed_def board_active_def)

lemma format_int_chars: "c \<notin> set (format_int n)" if "digit_val c = None" "c \<noteq> CHR ''-''"
proof
  assume "c \<in> set (format_int n)"
  then have "c = CHR ''-'' \<or> c \<in> set (show_nat (nat \<bar>n\<bar>))"
    by (auto simp: format_int_def split: if_splits)
  then show False using that show_nat_digits by blast
qed

lemma walk_keys_distinct:
  "walk_key clock ''set'' \<noteq> walk_key clock ''increment''"
  "walk_key clock ''set'' \<noteq> walk_key clock ''reopen-increment''"
  "walk_key clock ''increment'' \<noteq> walk_key clock ''reopen-increment''"
  "walk_key clock name \<noteq> []"
proof -
  show "walk_key clock ''set'' \<noteq> walk_key clock ''increment''" "walk_key clock ''set'' \<noteq> walk_key clock ''reopen-increment''"
    by (auto simp: walk_key_def dest!: arg_cong [where f = rev])
  show "walk_key clock name \<noteq> []" by (simp add: walk_key_def)
  show "walk_key clock ''increment'' \<noteq> walk_key clock ''reopen-increment''"
  proof
    assume "walk_key clock ''increment'' = walk_key clock ''reopen-increment''"
    then have "format_int (unix_milli (clock ''increment'')) @ ''-increment'' =
        (format_int (unix_milli (clock ''reopen-increment'')) @ ''-reopen'') @ ''-increment''"
      by (simp add: walk_key_def)
    then have "format_int (unix_milli (clock ''increment'')) = format_int (unix_milli (clock ''reopen-increment'')) @ ''-reopen''"
      by (simp only: append_same_eq)
    then have "CHR ''p'' \<in> set (format_int (unix_milli (clock ''increment'')))" by simp
    moreover have "digit_val (CHR ''p'') = None" by (simp add: digit_val_def)
    ultimately show False using format_int_chars by blast
  qed
qed

text \<open>What the titles say: the retry and the last two writes succeed, the reused key and the closed board are 409.\<close>

lemma walk_as_told:
  assumes "wb_keys a = Map.empty" "wb_state a = board_active"
  shows "fst (walk_spec (walk_ops clock) a) = [204, 204, 204, 409, 204, 409, 204, 204, 204]"
    "wb_score (snd (walk_spec (walk_ops clock) a)) = Some 106"
    "wb_state (snd (walk_spec (walk_ops clock) a)) = board_active"
  using assms
  by (simp_all add: walk_ops_def walk_keys_distinct walk_keys_distinct [symmetric] event_set_def event_increment_def
      board_active_def board_closed_def score_validate_abs score_max_def)

subsection \<open>The service refines it\<close>

definition seen_as :: "(string \<times> int) option \<Rightarrow> string option \<Rightarrow> bool" where
  "seen_as seen rec \<longleftrightarrow>
     (case seen of
        None \<Rightarrow> rec = None
      | Some (op, n) \<Rightarrow> \<exists>e. rec = Some (record_value e op (format_int n)) \<and> CHR ''|'' \<notin> set e \<and> CHR ''|'' \<notin> set op)"

definition walk_rep :: "ext \<Rightarrow> string \<Rightarrow> string \<Rightarrow> string set \<Rightarrow> walk_board \<Rightarrow> keyspace \<Rightarrow> bool" where
  "walk_rep X b p K a ks \<longleftrightarrow> world_inv X UNIV ks \<and> ks (board_profile_key b) \<noteq> None \<and> ks (player_profile_key p) \<noteq> None \<and>
     board_state_of ks b = Some (wb_state a) \<and> board_scores X b (ledger_of ks) p = wb_score a \<and>
     (\<forall>key \<in> K. key \<noteq> [] \<longrightarrow> seen_as (wb_keys a key) (idem_record ks b p key))"

lemma idem_record_cong:
  "ks' idempotency_hash_key = ks idempotency_hash_key \<Longrightarrow> idem_record ks' b p key = idem_record ks b p key"
  by (simp add: idem_record_def)

lemma wrote_idem_other:
  assumes "wrote X op p b n rq idem ks ks'" "key \<noteq> idem"
  shows "idem_record ks' b p key = idem_record ks b p key"
proof -
  obtain i new where "ks' = score_applied i op p b n new rq idem ks" using assms(1) by (auto simp: wrote_def)
  then show ?thesis
    using assms(2)
    by (auto simp: idem_record_def score_applied_def Let_def update_conv' dedupe_field_def split: option.split)
qed

lemma decide_walk:
  assumes "walk_rep X b p K a ks" "key \<in> K"
  shows "status_of (decide (board_scores X b (ledger_of ks)) ks op p b n key) = fst (walk_step (WScore op n key) a) \<and>
    (decide (board_scores X b (ledger_of ks)) ks op p b n key = None \<longleftrightarrow>
      (key = [] \<or> wb_keys a key = None) \<and> wb_state a \<noteq> board_closed \<and>
      score_validate (new_score (board_scores X b (ledger_of ks)) op p n))"
proof (cases "if key = [] then None else wb_keys a key")
  case None
  then have "idem_record ks b p key = None"
    using assms by (cases "key = []") (auto simp: walk_rep_def seen_as_def idem_record_def split: if_splits)
  with assms(1) None show ?thesis
    by (auto simp: walk_rep_def decide_def new_score_def status_of_def apply_code_defs Let_def split: if_splits)
next
  case (Some seen)
  then obtain op' n' e where "key \<noteq> []" "wb_keys a key = Some (op', n')" "seen = (op', n')"
    "idem_record ks b p key = Some (record_value e op' (format_int n'))" "CHR ''|'' \<notin> set e" "CHR ''|'' \<notin> set op'"
    using assms unfolding walk_rep_def by (cases seen) (fastforce simp: seen_as_def split: if_splits)
  then show ?thesis
    by (auto simp: decide_def check_record_value status_of_def apply_code_defs)
qed

lemma wrote_walk_rep:
  assumes "wrote X op p b n rq key ks ks'" "writable X op p b n rq" "walk_rep X b p K a ks"
    and "key = [] \<or> wb_keys a key = None" "wb_state a \<noteq> board_closed"
    and "score_validate (new_score (board_scores X b (ledger_of ks)) op p n)"
  shows "walk_rep X b p K (snd (walk_step (WScore op n key) a)) ks'"
proof -
  have same: "ks' (player_profile_key p) = ks (player_profile_key p)" "ks' (board_profile_key b) = ks (board_profile_key b)"
    using wrote_other [OF assms(1)] by (simp_all add: key_simps)
  then have state: "board_state_of ks' b = board_state_of ks b" by (simp add: board_state_of_def)
  have inv: "world_inv X UNIV ks'" using wrote_world_inv [OF assms(1) _ assms(2)] assms(3) by (simp add: walk_rep_def)
  have score: "board_scores X b (ledger_of ks') p = Some (new_score (board_scores X b (ledger_of ks)) op p n)"
    using wrote_scores [OF assms(1,2), of b] by simp
  have step: "snd (walk_step (WScore op n key) a) = a\<lparr>wb_score := Some (new_score (board_scores X b (ledger_of ks)) op p n),
      wb_keys := (if key = [] then wb_keys a else (wb_keys a)(key \<mapsto> (op, n)))\<rparr>"
    using assms(3-6) by (auto simp: walk_rep_def new_score_def Let_def)
  have "seen_as ((if key = [] then wb_keys a else (wb_keys a)(key \<mapsto> (op, n))) key') (idem_record ks' b p key')"
    if "key' \<in> K" "key' \<noteq> []" for key'
  proof (cases "key' = key")
    case True
    with that(2) wrote_idem [OF assms(1)] writable_op [OF assms(2)] show ?thesis by (auto simp: seen_as_def)
  next
    case False
    with wrote_idem_other [OF assms(1) False] assms(3) that show ?thesis by (auto simp: walk_rep_def)
  qed
  with inv same state score assms(3) show ?thesis unfolding step by (simp add: walk_rep_def)
qed

lemma state_set_walk_rep:
  assumes "walk_rep X b p K a ks" "board_state_validate st"
  shows "walk_rep X b p K (a\<lparr>wb_state := st\<rparr>) (state_set b st ks)"
proof -
  have "world_inv X UNIV (state_set b st ks)"
    using assms by (intro state_set_world) (simp_all add: walk_rep_def)
  moreover have "board_state_of (state_set b st ks) b = Some st" by (simp add: board_state_of_def state_set_def update_conv')
  moreover have "ledger_of (state_set b st ks) = ledger_of ks" by (simp add: ledger_of_def state_set_other)
  moreover have "idem_record (state_set b st ks) b p key = idem_record ks b p key" for key
    by (rule idem_record_cong) (simp add: state_set_other)
  moreover have "state_set b st ks (board_profile_key b) \<noteq> None" by (simp add: state_set_def)
  ultimately show ?thesis using assms(1) by (simp add: walk_rep_def state_set_other)
qed

lemma rebuilt_walk_rep:
  assumes "walk_rep X b p K a ks" "\<forall>k. k \<noteq> leaderboard_key b \<longrightarrow> ks' k = ks k"
    and "projection_ok ks' (leaderboard_key b) (board_scores X b (ledger_of ks))"
  shows "walk_rep X b p K a ks'"
proof -
  have same: "ledger_of ks' = ledger_of ks" "ks' ledger_key = ks ledger_key" "board_state_of ks' b = board_state_of ks b"
    using assms(2) by (simp_all add: ledger_of_def board_state_of_def)
  have "registry_inv ks' = registry_inv ks" "players_inv ks' = players_inv ks" "aux_inv ks' = aux_inv ks"
    using assms(2) by (auto intro!: registry_inv_frame players_inv_frame aux_inv_frame)
  moreover have "hashes_ok ks' = hashes_ok ks" using assms(2) by (simp add: hashes_ok_def)
  moreover have "ledger_inv X UNIV ks'"
  proof -
    have "projection_ok ks' (leaderboard_key c) (board_scores X c (ledger_of ks'))" for c
      using assms(1,2,3) same by (cases "c = b") (auto simp: walk_rep_def world_inv_def store_inv_def ledger_inv_def projection_ok_def)
    moreover have "zset_ok (ks' (leaderboard_key c))" for c
      using assms same
      by (cases "c = b") (auto simp: walk_rep_def world_inv_def store_inv_def ledger_inv_def intro: projection_zset)
    ultimately show ?thesis using assms(1) same by (simp add: walk_rep_def world_inv_def store_inv_def ledger_inv_def)
  qed
  ultimately have "world_inv X UNIV ks'" using assms(1) by (simp add: walk_rep_def world_inv_def store_inv_def)
  moreover have "idem_record ks' b p key = idem_record ks b p key" for key
    using assms(2) by (intro idem_record_cong) simp
  ultimately show ?thesis using assms(1,2) same by (simp add: walk_rep_def)
qed

text \<open>\<open>send\<close> is the request the server reads for a call, its key in the header.\<close>

definition service_walk :: "'l rate_ext \<Rightarrow> http_ext \<Rightarrow> ext \<Rightarrow> 's redis \<Rightarrow> 's ambient \<Rightarrow>
    (string \<Rightarrow> string \<Rightarrow> client_body \<Rightarrow> string \<Rightarrow> request) \<Rightarrow> ('s world, unit) walk_rc" where
  "service_walk E H X R A send method path body key = service_rc E H X R A (\<lambda>m q c. send m q c key) method path body"

definition reads_call :: "http_ext \<Rightarrow> (string \<Rightarrow> string \<Rightarrow> client_body \<Rightarrow> string \<Rightarrow> request) \<Rightarrow> walk_call \<Rightarrow> bool" where
  "reads_call H send c \<longleftrightarrow>
     (let rq = send (wk_method c) (wk_path c) (wk_body c) (wk_key c)
      in rq_method rq = wk_method c \<and> rq_path rq = wk_path c \<and>
        rq_headers rq idempotency_key_header = (if wk_key c = [] then None else Some [wk_key c]) \<and>
        (\<forall>field n. wk_body c = IntField field n \<longrightarrow>
          (\<forall>vs i. read_json_int H (with_path_values vs (rq\<lparr>rq_context_id := i\<rparr>)) field max_request_body_bytes = Inr (Some n))))"

fun walk_op_ok :: "string set \<Rightarrow> walk_op \<Rightarrow> bool" where
  "walk_op_ok K (WScore op n key) \<longleftrightarrow> (op = event_set \<or> op = event_increment) \<and> score_validate n \<and> key \<in> K \<and> length key \<le> 128"
| "walk_op_ok K (WState st) \<longleftrightarrow> st = board_active \<or> st = board_closed"
| "walk_op_ok K WRebuild \<longleftrightarrow> True"

lemma board_action_routes:
  assumes "CHR ''/'' \<notin> set b" "b \<noteq> []"
  shows "route_request ''POST'' (''/api/v1/boards/'' @ b @ ''/close'') = Serve RouteCloseBoard [(''board_id'', b)]"
    "route_request ''POST'' (''/api/v1/boards/'' @ b @ ''/open'') = Serve RouteOpenBoard [(''board_id'', b)]"
    "route_request ''POST'' (''/api/v1/admin/boards/'' @ b @ ''/projection/rebuild'') = Serve RouteRebuild [(''board_id'', b)]"
proof -
  have "split_on (CHR ''/'') (b @ CHR ''/'' # ''close'') = [b, ''close'']" "split_on (CHR ''/'') (b @ CHR ''/'' # ''open'') = [b, ''open'']"
    "split_on (CHR ''/'') (b @ CHR ''/'' # ''projection/rebuild'') = [b, ''projection'', ''rebuild'']"
    using assms(1) by simp_all
  then have "tl (split_on (CHR ''/'') (''/api/v1/boards/'' @ b @ ''/close'')) = [''api'', ''v1'', ''boards'', b, ''close'']"
    "tl (split_on (CHR ''/'') (''/api/v1/boards/'' @ b @ ''/open'')) = [''api'', ''v1'', ''boards'', b, ''open'']"
    "tl (split_on (CHR ''/'') (''/api/v1/admin/boards/'' @ b @ ''/projection/rebuild'')) =
      [''api'', ''v1'', ''admin'', ''boards'', b, ''projection'', ''rebuild'']"
    by simp_all
  moreover have "path_matches [''api'', ''v1'', ''boards'', b, ''close''] = [((''POST'', ''/api/v1/boards/{board_id}/close''), RouteCloseBoard)]"
    "path_matches [''api'', ''v1'', ''boards'', b, ''open''] = [((''POST'', ''/api/v1/boards/{board_id}/open''), RouteOpenBoard)]"
    "path_matches [''api'', ''v1'', ''admin'', ''boards'', b, ''projection'', ''rebuild''] =
      [((''POST'', ''/api/v1/admin/boards/{board_id}/projection/rebuild''), RouteRebuild)]"
    using assms(2) by (simp_all add: path_matches_def new_mux_def pattern_segs_mux)
  ultimately show "route_request ''POST'' (''/api/v1/boards/'' @ b @ ''/close'') = Serve RouteCloseBoard [(''board_id'', b)]"
    "route_request ''POST'' (''/api/v1/boards/'' @ b @ ''/open'') = Serve RouteOpenBoard [(''board_id'', b)]"
    "route_request ''POST'' (''/api/v1/admin/boards/'' @ b @ ''/projection/rebuild'') = Serve RouteRebuild [(''board_id'', b)]"
    using assms(2) by (simp_all add: route_request_def routes_for_def method_matches_def pattern_segs_mux)
qed

lemma call_served:
  assumes "serve_mux H X R A ((send (wk_method c) (wk_path c) (wk_body c) (wk_key c))\<lparr>rq_context_id := am_request_id A\<rparr>) w = (Some r, w')"
  shows "call_with_key (service_walk E H X R A send) c w = (Some (rs_status r, rs_body r), w')"
  using service_rc_run [where send = "\<lambda>m q d. send m q d (wk_key c)" and E = E, OF assms]
  by (simp add: call_with_key_def service_walk_def)

lemma read_key:
  "rq_headers rq idempotency_key_header = (if key = [] then None else Some [key]) \<Longrightarrow> length key \<le> 128 \<Longrightarrow>
    read_idempotency_key rq = Inr key"
  by (simp add: read_idempotency_key_def first_value_def max_idempotency_key_len_def Let_def split: if_splits)

context redis_server
begin

text \<open>A score write of the walk.\<close>

lemma walk_score_served:
  assumes rep: "walk_rep X b p K a (view s)" and "ids_nonempty X" "am_uuid A \<noteq> []"
    and "board_id_validate X b" "player_id_validate X p" "plain_segment b" "plain_segment p"
    and x: "x = WScore op n key" "walk_op_ok K x" and reads: "reads_call H send (walk_call_of b p x)"
    and room: "last_sid (ledger_of (view s)) < sid_max"
  shows "\<exists>r s'. call_with_key (service_walk E H X R A send) (walk_call_of b p x) (quiet s) =
      (Some (fst (walk_step x a), r), quiet s') \<and> walk_rep X b p K (snd (walk_step x a)) (view s')"
proof -
  note seg = plain_segmentD(2) [OF assms(6)] plain_segmentD(2) [OF assms(7)] plain_segmentD(1) [OF assms(6)] plain_segmentD(1) [OF assms(7)]
  let ?c = "walk_call_of b p x"
  let ?rq = "send (wk_method ?c) (wk_path ?c) (wk_body ?c) (wk_key ?c)"
  let ?rq' = "score_request A b p ?rq"
  have op: "op = event_set \<or> op = event_increment" and n: "score_validate n" and key: "key \<in> K" "length key \<le> 128"
    using x by simp_all
  have "read_idempotency_key ?rq = Inr key" "read_json_int H ?rq' (write_field op) max_request_body_bytes = Inr (Some n)"
    using reads key(2) by (auto simp: x(1) reads_call_def Let_def score_request_def intro!: read_key)
  then have acc: "accepts_write H X (write_field op) ?rq' b p key n"
    using assms(4,5) n by (simp add: accepts_write_def)
  have inv: "world_inv X UNIV (view s)" using rep by (simp add: walk_rep_def)
  let ?d = "decide (board_scores X b (ledger_of (view s))) (view s) op p b n key"
  obtain r s' where run: "handle_write op H X R (am_uuid A) ?rq' (quiet s) = (Some r, quiet s')" "rs_status r = status_of ?d"
    "if ?d = None then wrote X op p b n (request_id (am_uuid A) ?rq') key (view s) (view s') else view s' = view s"
    using write_status [OF inv assms(2,3) op acc room] by blast
  have rq: "rq_method ?rq = wk_method ?c" "rq_path ?rq = wk_path ?c" using reads by (simp_all add: reads_call_def Let_def)
  have "serve_mux H X R A (?rq\<lparr>rq_context_id := am_request_id A\<rparr>) (quiet s) = (Some r, quiet s')"
    using op
  proof
    assume set: "op = event_set"
    with rq show ?thesis using run(1) serve_score_routes(1) [OF seg, where rq = ?rq and R = R] by (simp add: x(1) handle_write_def)
  next
    assume "op = event_increment"
    with rq show ?thesis using run(1) increment_route [OF seg]
      by (simp add: x(1) serve_mux_def score_request_def handle_write_def event_set_def event_increment_def)
  qed
  from call_served [where send = send and E = E, OF this] have
    "call_with_key (service_walk E H X R A send) ?c (quiet s) = (Some (fst (walk_step x a), rs_body r), quiet s')"
    using decide_walk [OF rep key(1)] run(2) by (simp add: x(1))
  moreover have "walk_rep X b p K (snd (walk_step x a)) (view s')"
  proof (cases "?d = None")
    case True
    have w: "writable X op p b n (request_id (am_uuid A) ?rq')" by (rule accepts_writable [OF acc assms(2,3) op])
    from True run(3) have wr: "wrote X op p b n (request_id (am_uuid A) ?rq') key (view s) (view s')" by simp
    have "(key = [] \<or> wb_keys a key = None) \<and> wb_state a \<noteq> board_closed \<and>
        score_validate (new_score (board_scores X b (ledger_of (view s))) op p n)"
      by (rule iffD1 [OF conjunct2 [OF decide_walk [OF rep key(1)]] True])
    then show ?thesis unfolding x(1) by (elim conjE) (rule wrote_walk_rep [OF wr w rep], assumption+)
  next
    case False
    with decide_walk [OF rep key(1), of op n] have "snd (walk_step x a) = a"
      using rep by (auto simp: x(1) walk_rep_def new_score_def Let_def split: option.splits if_splits)
    with False run(3) rep show ?thesis by simp
  qed
  ultimately show ?thesis by blast
qed

lemma walk_op_served:
  assumes rep: "walk_rep X b p K a (view s)" and "ids_nonempty X" "am_uuid A \<noteq> []"
    and "board_id_validate X b" "player_id_validate X p" "plain_segment b" "plain_segment p"
    and ok: "walk_op_ok K x" and reads: "reads_call H send (walk_call_of b p x)"
    and "last_sid (ledger_of (view s)) < sid_max"
  shows "\<exists>r s'. call_with_key (service_walk E H X R A send) (walk_call_of b p x) (quiet s) =
      (Some (fst (walk_step x a), r), quiet s') \<and> walk_rep X b p K (snd (walk_step x a)) (view s')"
proof -
  note seg = plain_segmentD(2,1) [OF assms(6)]
  let ?c = "walk_call_of b p x"
  let ?rq = "send (wk_method ?c) (wk_path ?c) (wk_body ?c) (wk_key ?c)"
  have id: "board_id_from_path X (with_path_values [(''board_id'', b)] (?rq\<lparr>rq_context_id := am_request_id A\<rparr>)) = Inr b"
    using assms(4) by (simp add: board_id_from_path_def with_path_values_def board_id_path_value_def)
  have rq: "rq_method ?rq = wk_method ?c" "rq_path ?rq = wk_path ?c" using reads by (simp_all add: reads_call_def Let_def)
  have st: "hashes_ok (view s)" "ledger_inv X UNIV (view s)" and board: "view s (board_profile_key b) \<noteq> None"
    using rep by (simp_all add: walk_rep_def world_inv_def store_inv_def)
  show ?thesis
  proof (cases x)
    case (WScore op n key)
    from walk_score_served [OF assms(1-7) this ok reads assms(10)] show ?thesis .
  next
    case (WState st)
    have valid: "board_state_validate st" using ok WState by (auto simp: board_state_validate_def)
    then have "set_board_state (doc_redis (0, 1)) b st (quiet (view s)) = (Inr (), quiet (state_set b st (view s)))"
      using board doc_set_board_state_script [OF \<open>hashes_ok (view s)\<close>, of "(0, 1)" b st]
      by (simp add: set_board_state_def io_bind_def call_quiet)
    from qsim_result [OF qsim_set_board_state this] obtain s' where
      s': "set_board_state R b st (quiet s) = (Inr (), quiet s')" "view s' = state_set b st (view s)" by blast
    have "serve_mux H X R A (?rq\<lparr>rq_context_id := am_request_id A\<rparr>) (quiet s) = (Some (write_header 204), quiet s')"
      using ok rq id board_action_routes [OF seg] s'(1)
      by (auto simp: WState serve_mux_def handle_close_board_def handle_open_board_def handle_set_state_def walk_post_def
          stored_run(2) board_active_def board_closed_def)
    from call_served [where send = send and E = E, OF this] s'(2) state_set_walk_rep [OF rep valid] show ?thesis
      by (auto simp: WState)
  next
    case WRebuild
    obtain ks where ks: "rebuild_projection X (doc_redis (0, 1)) b (quiet (view s)) = (Inr (), quiet ks)"
      "\<forall>k. k \<noteq> leaderboard_key b \<longrightarrow> ks k = view s k"
      "projection_ok ks (leaderboard_key b) (board_scores X b (ledger_of (view s)))"
      using doc_rebuild [OF board ledger_inv_stream [OF st(2)], of X "(0, 1)"] st(2) by (auto simp: ledger_inv_def ledger_wf_def)
    from qsim_result [OF qsim_rebuild ks(1)] obtain s' where
      s': "rebuild_projection X R b (quiet s) = (Inr (), quiet s')" "view s' = ks" by blast
    have "serve_mux H X R A (?rq\<lparr>rq_context_id := am_request_id A\<rparr>) (quiet s) = (Some (write_header 204), quiet s')"
      using rq id board_action_routes(3) [OF seg] s'(1)
      by (simp add: WRebuild serve_mux_def handle_rebuild_projection_def walk_post_def stored_run(2))
    from call_served [where send = send and E = E, OF this] s'(2) rebuilt_walk_rep [OF rep ks(2,3)] show ?thesis
      by (auto simp: WRebuild)
  qed
qed

text \<open>A run of writes: the statuses of the specification, or as many as there were ids for.\<close>

lemma walk_run_served:
  assumes "walk_rep X b p K a (view s)" "ids_nonempty X" "am_uuid A \<noteq> []"
    and "board_id_validate X b" "player_id_validate X p" "plain_segment b" "plain_segment p"
    and "\<forall>x \<in> set xs. walk_op_ok K x \<and> reads_call H send (walk_call_of b p x)"
  shows "(\<exists>rs s'. run_walk (service_walk E H X R A send) (map (walk_call_of b p) xs) (quiet s) = (rs, quiet s') \<and>
      map (map_option fst) rs = map Some (fst (walk_spec xs a)) \<and> walk_rep X b p K (snd (walk_spec xs a)) (view s')) \<or>
    (\<exists>k rs s'. k < length xs \<and> run_walk (service_walk E H X R A send) (map (walk_call_of b p) (take k xs)) (quiet s) = (rs, quiet s') \<and>
      map (map_option fst) rs = map Some (take k (fst (walk_spec xs a))) \<and> \<not> last_sid (ledger_of (view s')) < sid_max)"
  using assms(1,8)
proof (induction xs arbitrary: a s)
  case (Cons x xs)
  let ?run = "\<lambda>ys. run_walk (service_walk E H X R A send) (map (walk_call_of b p) ys)"
  obtain st a1 where step: "walk_step x a = (st, a1)" by fastforce
  obtain sts a2 where rest: "walk_spec xs a1 = (sts, a2)" by fastforce
  show ?case
  proof (cases "last_sid (ledger_of (view s)) < sid_max")
    case True
    from Cons.prems(2) have x: "walk_op_ok K x" "reads_call H send (walk_call_of b p x)" by simp_all
    from walk_op_served [OF Cons.prems(1) assms(2-7) x True, of E] obtain r s1 where
      s1: "call_with_key (service_walk E H X R A send) (walk_call_of b p x) (quiet s) = (Some (st, r), quiet s1)"
      "walk_rep X b p K a1 (view s1)" by (auto simp: step)
    have more: "\<forall>x \<in> set xs. walk_op_ok K x \<and> reads_call H send (walk_call_of b p x)" using Cons.prems(2) by simp
    from Cons.IH [OF s1(2) more] show ?thesis
    proof (elim disjE exE conjE)
      fix rs s'
      assume "?run xs (quiet s1) = (rs, quiet s')" "map (map_option fst) rs = map Some (fst (walk_spec xs a1))"
        "walk_rep X b p K (snd (walk_spec xs a1)) (view s')"
      then show ?thesis using s1(1) by (intro disjI1) (auto simp: step rest)
    next
      fix k rs s'
      assume "k < length xs" "?run (take k xs) (quiet s1) = (rs, quiet s')"
        "map (map_option fst) rs = map Some (take k (fst (walk_spec xs a1)))" "\<not> last_sid (ledger_of (view s')) < sid_max"
      then show ?thesis using s1(1)
        by (intro disjI2 exI [of _ "Suc k"] exI [of _ "Some (st, r) # rs"] exI [of _ s']) (simp add: step rest)
    qed
  next
    case False
    then show ?thesis by (intro disjI2 exI [of _ 0] exI [of _ "[]"] exI [of _ s]) (simp add: step rest)
  qed
qed auto

end

end
