(* ===== verification/ToolRunner.thy ===== *)
theory ToolRunner
  imports RedisClient ServerConfig
begin

section \<open>The tool runner (\<open>apiscripts/toolrunner\<close>)\<close>

text \<open>
  A small service that runs registered executables, one at a time. \<open>begin_run\<close> is the handler up to
  the start of the child: lookup, body, arguments and the slot of the channel \<open>busy\<close>; \<open>finish_run\<close>
  is what it answers when the child has ended. Requests are concurrent, so the service is the step
  relation \<open>runner_step\<close>; the lemmas are its invariant and the bound of an answer.
\<close>

definition tool_timeout :: int where "tool_timeout = 30 * 10 ^ 9"
definition tool_port :: int where "tool_port = 8091"
definition max_output :: nat where "max_output = 64 * 1024"

text \<open>
  A directory entry: its name, whether it is a directory, and, unless it cannot be read, whether it is
  a regular file and its permission bits; 73 is the octal mask 111.
\<close>

record dir_entry =
  de_name :: string
  de_is_dir :: bool
  de_info :: "(bool \<times> nat) option"

fun discover_tools :: "string \<Rightarrow> dir_entry list \<Rightarrow> (string \<times> string) list \<Rightarrow> (string \<times> string) list option" where
  "discover_tools dir [] tools = Some tools"
| "discover_tools dir (entry # entries) tools =
     (if de_is_dir entry then discover_tools dir entries tools
      else case de_info entry of
        None \<Rightarrow> None
      | Some (regular, perm) \<Rightarrow>
          discover_tools dir entries
            (if regular \<and> and perm 73 \<noteq> 0
             then AList.update (de_name entry) (dir @ ''/'' @ de_name entry) tools else tools))"

subsection \<open>Requests and answers\<close>

record run_response =
  rr_tool :: string
  rr_args :: "string list"
  rr_ok :: bool
  rr_exit_code :: int
  rr_timed_out :: bool
  rr_truncated :: bool
  rr_duration_ms :: int
  rr_output :: string

datatype tool_reply = ToolList "string list" | ToolError int string | ToolRan run_response

definition handle_tool_list :: "(string \<times> string) list \<Rightarrow> tool_reply" where
  "handle_tool_list tools = ToolList (sort (map fst tools))"

fun check_args :: "string list \<Rightarrow> string option" where
  "check_args [] = None"
| "check_args (arg # args) =
     (if 512 < length arg then Some ''each argument must be at most 512 bytes''
      else if CHR 0x00 \<in> set arg then Some ''arguments must not contain NUL bytes''
      else check_args args)"

definition validate_args :: "string list \<Rightarrow> string option" where
  "validate_args args =
     (if 32 < length args then Some ''at most 32 arguments are allowed'' else check_args args)"

text \<open>\<open>decoded\<close> is what the JSON decoder makes of the bounded body, none an error other than its end.\<close>

definition begin_run :: "(string \<times> string) list \<Rightarrow> bool \<Rightarrow> string \<Rightarrow> string list option \<Rightarrow>
    tool_reply + (string \<times> string list)" where
  "begin_run tools busy name decoded =
     (case map_of tools name of
        None \<Rightarrow> Inl (ToolError 404 ''unknown tool'')
      | Some command \<Rightarrow>
          (case decoded of
             None \<Rightarrow> Inl (ToolError 400 ''invalid JSON body'')
           | Some args \<Rightarrow>
               (case validate_args args of
                  Some e \<Rightarrow> Inl (ToolError 400 e)
                | None \<Rightarrow> if busy then Inl (ToolError 409 ''another tool is running'') else Inr (command, args))))"

text \<open>How the child ended: its error, whether the deadline passed, its output and its time.\<close>

datatype child_error = ExitError int | OtherError

record child =
  ch_err :: "child_error option"
  ch_deadline :: bool
  ch_output :: string
  ch_ms :: int

definition truncation_note :: string where
  "truncation_note = CHR 0x0A # ''... output truncated ...'' @ [CHR 0x0A]"

definition finish_run :: "string \<Rightarrow> string list \<Rightarrow> child \<Rightarrow> tool_reply" where
  "finish_run name args c =
     (let exit_code = (case ch_err c of None \<Rightarrow> 0 | Some (ExitError n) \<Rightarrow> n | Some OtherError \<Rightarrow> - 1);
          truncated = (max_output < length (ch_output c));
          raw = (if truncated then take max_output (ch_output c) else ch_output c);
          text = to_valid_utf8 raw @ (if truncated then truncation_note else [])
      in ToolRan \<lparr>rr_tool = name, rr_args = args, rr_ok = (ch_err c = None), rr_exit_code = exit_code,
           rr_timed_out = ch_deadline c, rr_truncated = truncated, rr_duration_ms = ch_ms c, rr_output = text\<rparr>)"

subsection \<open>Environment\<close>

text \<open>None is \<open>log.Fatalf\<close>.\<close>

definition env_duration :: "(string \<Rightarrow> string) \<Rightarrow> string \<Rightarrow> int \<Rightarrow> int option" where
  "env_duration getenv name fallback =
     (let raw = getenv name in if raw = [] then Some fallback
      else case parse_duration raw of None \<Rightarrow> None | Some v \<Rightarrow> if v \<le> 0 then None else Some v)"

definition env_int :: "(string \<Rightarrow> string) \<Rightarrow> string \<Rightarrow> int \<Rightarrow> int option" where
  "env_int getenv name fallback =
     (let raw = getenv name in if raw = [] then Some fallback
      else case parse_int64 raw of None \<Rightarrow> None | Some v \<Rightarrow> if v \<le> 0 \<or> 65535 < v then None else Some v)"

lemma env_ranges:
  "env_duration getenv name d = Some v \<Longrightarrow> 0 < d \<Longrightarrow> 0 < v"
  "env_int getenv name p = Some v \<Longrightarrow> 1 \<le> p \<and> p \<le> 65535 \<Longrightarrow> 1 \<le> v \<and> v \<le> 65535"
  by (auto simp: env_duration_def env_int_def Let_def split: if_splits option.splits)

text \<open>
  \<open>main\<close> up to the listener: the entries of the tools directory, none when it cannot be read, and the
  environment give the table of tools and the server's port and timeouts.
\<close>

record tool_server =
  tv_tools :: "(string \<times> string) list"
  tv_timeout :: int
  tv_port :: int
  tv_write_timeout :: int

definition tool_main :: "(string \<Rightarrow> string) \<Rightarrow> dir_entry list option \<Rightarrow> tool_server option" where
  "tool_main getenv listing =
     Option.bind listing (\<lambda>entries.
     Option.bind (discover_tools ''/tools'' entries []) (\<lambda>tools.
     Option.bind (env_duration getenv ''TOOL_TIMEOUT'' tool_timeout) (\<lambda>timeout.
     Option.bind (env_int getenv ''PORT'' tool_port) (\<lambda>port.
       Some \<lparr>tv_tools = tools, tv_timeout = timeout, tv_port = port, tv_write_timeout = wrap64 (timeout + 5 * 10 ^ 9)\<rparr>))))"

text \<open>What may be run: a regular file of the directory with an execute permission.\<close>

definition runnable :: "dir_entry \<Rightarrow> bool" where
  "runnable e \<longleftrightarrow> \<not> de_is_dir e \<and> (\<exists>perm. de_info e = Some (True, perm) \<and> and perm 73 \<noteq> 0)"

lemma discovered:
  assumes "discover_tools dir es ts = Some ts'" "map_of ts' n = Some c"
  shows "map_of ts n = Some c \<or> (\<exists>e \<in> set es. de_name e = n \<and> runnable e \<and> c = dir @ ''/'' @ n)"
  using assms
proof (induction es arbitrary: ts)
  case (Cons e es)
  let ?ts = "AList.update (de_name e) (dir @ ''/'' @ de_name e) ts"
  from Cons.prems(1) consider "discover_tools dir es ts = Some ts'"
    | "runnable e" "discover_tools dir es ?ts = Some ts'"
    by (auto simp: runnable_def split: if_splits option.splits)
  then show ?case
  proof cases
    case 1
    from Cons.IH [OF this Cons.prems(2)] show ?thesis by auto
  next
    case 2
    from Cons.IH [OF this(2) Cons.prems(2)] this(1) show ?thesis by (auto simp: update_conv' split: if_splits)
  qed
qed simp

lemma tool_main_serves:
  assumes "tool_main getenv (Some entries) = Some ts"
  shows "1 \<le> tv_port ts" "tv_port ts \<le> 65535" "0 < tv_timeout ts"
    "map_of (tv_tools ts) n = Some c \<Longrightarrow> \<exists>e \<in> set entries. de_name e = n \<and> runnable e \<and> c = ''/tools/'' @ n"
  using assms env_ranges [of getenv] discovered [of "''/tools''" entries "[]"]
  by (fastforce simp: tool_main_def tool_timeout_def tool_port_def bind_eq_Some_conv)+

subsection \<open>The running service\<close>

text \<open>\<open>rn_busy\<close> is the channel's one slot; a running request has its number, tool, command and arguments.\<close>

record running =
  ru_id :: nat
  ru_tool :: string
  ru_command :: string
  ru_args :: "string list"

record runner_state =
  rn_busy :: bool
  rn_running :: "running list"
  rn_replies :: "(nat \<times> tool_reply) list"

definition idle_runner :: runner_state where
  "idle_runner = \<lparr>rn_busy = False, rn_running = [], rn_replies = []\<rparr>"

inductive runner_step :: "(string \<times> string) list \<Rightarrow> runner_state \<Rightarrow> runner_state \<Rightarrow> bool" for tools where
  step_refused: "begin_run tools (rn_busy s) name decoded = Inl r \<Longrightarrow>
    runner_step tools s (s\<lparr>rn_replies := rn_replies s @ [(i, r)]\<rparr>)"
| step_started: "begin_run tools (rn_busy s) name decoded = Inr (command, args) \<Longrightarrow>
    runner_step tools s (s\<lparr>rn_busy := True,
      rn_running := \<lparr>ru_id = i, ru_tool = name, ru_command = command, ru_args = args\<rparr> # rn_running s\<rparr>)"
| step_finished: "x \<in> set (rn_running s) \<Longrightarrow>
    runner_step tools s (s\<lparr>rn_busy := False, rn_running := remove1 x (rn_running s),
      rn_replies := rn_replies s @ [(ru_id x, finish_run (ru_tool x) (ru_args x) c)]\<rparr>)"

inductive_cases runner_stepE: "runner_step tools s t"

lemma check_args_ok: "check_args args = None \<longleftrightarrow> (\<forall>a \<in> set args. length a \<le> 512 \<and> CHR 0x00 \<notin> set a)"
  by (induction args) auto

lemma validate_args_ok:
  "validate_args args = None \<longleftrightarrow> length args \<le> 32 \<and> (\<forall>a \<in> set args. length a \<le> 512 \<and> CHR 0x00 \<notin> set a)"
  by (simp add: validate_args_def check_args_ok)

lemma begin_run_Inr:
  "begin_run tools busy name decoded = Inr (command, args) \<longleftrightarrow>
    map_of tools name = Some command \<and> decoded = Some args \<and> validate_args args = None \<and> \<not> busy"
  by (auto simp: begin_run_def split: option.splits)

text \<open>A run is of a registered tool with checked arguments.\<close>

definition run_ok :: "(string \<times> string) list \<Rightarrow> running \<Rightarrow> bool" where
  "run_ok tools x \<longleftrightarrow> map_of tools (ru_tool x) = Some (ru_command x) \<and> validate_args (ru_args x) = None"

text \<open>An answer that reports a run holds at most the kept output and the note.\<close>

definition reply_ok :: "tool_reply \<Rightarrow> bool" where
  "reply_ok r \<longleftrightarrow> (\<forall>x. r = ToolRan x \<longrightarrow> length (rr_output x) \<le> max_output + length truncation_note \<and>
     (rr_ok x \<longrightarrow> rr_exit_code x = 0))"

lemma finish_run_ok: "reply_ok (finish_run name args c)"
  using to_valid_length [of "take max_output (ch_output c)"] to_valid_length [of "ch_output c"]
  by (auto simp: reply_ok_def finish_run_def Let_def)

lemma begin_run_reply: "begin_run tools busy name decoded = Inl r \<Longrightarrow> reply_ok r"
  by (auto simp: begin_run_def reply_ok_def split: option.splits if_splits)

definition runner_inv :: "(string \<times> string) list \<Rightarrow> runner_state \<Rightarrow> bool" where
  "runner_inv tools s \<longleftrightarrow> length (rn_running s) \<le> 1 \<and> (rn_busy s \<longleftrightarrow> rn_running s \<noteq> []) \<and>
     (\<forall>x \<in> set (rn_running s). run_ok tools x) \<and> (\<forall>r \<in> set (rn_replies s). reply_ok (snd r))"

lemma runner_step_inv:
  assumes "runner_step tools s t" "runner_inv tools s" shows "runner_inv tools t"
  using assms(1)
proof cases
  case (step_refused name decoded r i)
  then show ?thesis using assms(2) begin_run_reply by (auto simp: runner_inv_def)
next
  case (step_started name decoded command args i)
  then show ?thesis using assms(2) by (auto simp: runner_inv_def begin_run_Inr run_ok_def)
next
  case (step_finished x c)
  then obtain y where "rn_running s = [y]" using assms(2)
    by (cases "rn_running s") (auto simp: runner_inv_def)
  with step_finished show ?thesis using assms(2) finish_run_ok by (auto simp: runner_inv_def)
qed

lemma runner_reachable: "(runner_step tools)\<^sup>*\<^sup>* idle_runner s \<Longrightarrow> runner_inv tools s"
proof (induction rule: rtranclp_induct)
  case base
  show ?case by (simp add: runner_inv_def idle_runner_def)
next
  case (step t u)
  then show ?case using runner_step_inv by blast
qed

end
