(* ===== verification/Reports.thy ===== *)
theory Reports
  imports Fanout LoadChecks
begin

section \<open>What the scripts print\<close>

text \<open>
  The reports of the load and fan-out scripts, as lists of lines. How an error reads is the parameter
  \<open>render\<close>. The lemmas state that nothing is left out unsaid: what is not printed is counted.
\<close>

text \<open>\<open>PrintErrors\<close>; \<open>all\<close> is the number of errors, \<open>i\<close> the index of the next.\<close>

fun print_errors_from :: "('x \<Rightarrow> string) \<Rightarrow> nat \<Rightarrow> nat \<Rightarrow> nat \<Rightarrow> 'x list \<Rightarrow> string list" where
  "print_errors_from render all limit i [] = []"
| "print_errors_from render all limit i (e # errs) =
     (if limit \<le> i then [''... '' @ show_nat (all - limit) @ '' additional errors omitted'']
      else (''error: '' @ render e) # print_errors_from render all limit (i + 1) errs)"

definition print_errors :: "('x \<Rightarrow> string) \<Rightarrow> 'x list \<Rightarrow> nat \<Rightarrow> string list" where
  "print_errors render errs limit = print_errors_from render (length errs) limit 0 errs"

definition errors_shown :: nat where "errors_shown = 20"
definition rankings_shown :: nat where "rankings_shown = 10"

lemma print_errors_from_all:
  "print_errors_from render n limit i errs =
    map (\<lambda>e. ''error: '' @ render e) (take (limit - i) errs) @
    (if limit - i < length errs then [''... '' @ show_nat (n - limit) @ '' additional errors omitted''] else [])"
  by (induction render n limit i errs rule: print_errors_from.induct) (auto simp: take_Cons' Suc_diff_Suc)

lemma print_errors_all:
  "print_errors render errs limit =
    map (\<lambda>e. ''error: '' @ render e) (take limit errs) @
    (if limit < length errs then [''... '' @ show_nat (length (drop limit errs)) @ '' additional errors omitted''] else [])"
  by (simp add: print_errors_def print_errors_from_all)

text \<open>The load script's summary; a failure in \<open>errs\<close> has the number of its request.\<close>

definition load_summary :: "string \<Rightarrow> ('x \<Rightarrow> string) \<Rightarrow> nat \<times> 'x list \<Rightarrow> int \<Rightarrow> string list" where
  "load_summary duration render res request_count =
     (''completed in '' @ duration @ '': succeeded='' @ format_int (int (fst res)) @
        '' failed='' @ format_int (request_count - int (fst res))) # print_errors render (snd res) errors_shown"

lemma load_summary_counts_failures:
  assumes "run_increment_load rc path amount order w = ((succeeded, errs), w')"
  shows "int (length order) - int succeeded = int (length errs)"
  using run_requests_total [of rc path amount order "(0, [])" w] assms by (simp add: run_increment_load_def)

text \<open>The leaderboard's head, padded as by \<open>%-3d\<close> and \<open>%-6d\<close>.\<close>

definition pad_right :: "nat \<Rightarrow> string \<Rightarrow> string" where
  "pad_right n s = s @ replicate (n - length s) CHR '' ''"

definition print_rankings :: "score_entry list \<Rightarrow> nat \<Rightarrow> string list" where
  "print_rankings rows limit =
     (let shown = min limit (length rows)
      in [''rankings (top '' @ show_nat shown @ '' of '' @ show_nat (length rows) @ ''):''] @
         map (\<lambda>r. ''  #'' @ pad_right 3 (format_int (sc_rank r)) @ '' score='' @ pad_right 6 (format_int (sc_score r)) @
           '' '' @ sc_player r) (take shown rows) @
         (if shown < length rows then [''  ... '' @ show_nat (length rows - shown) @ '' more''] else []))"

lemma print_rankings_length:
  "length (print_rankings rows limit) = 1 + min limit (length rows) + (if limit < length rows then 1 else 0)"
  by (simp add: print_rankings_def Let_def min_def)

text \<open>The state of the fixture in the message of a poll that times out.\<close>

definition format_fixture_counts :: "(string \<times> int) list \<Rightarrow> activity_player list \<Rightarrow> string" where
  "format_fixture_counts entries players =
     join_with '', '' (map (\<lambda>pl. ap_id pl @ ''='' @
       format_int (case entry_counts entries (ap_id pl) of None \<Rightarrow> 0 | Some n \<Rightarrow> n) @ ''/'' @ format_int (ap_expected pl)) players)"

end
