(* ===== verification/ClientExamples.thy ===== *)
theory ClientExamples
  imports Examples ApiWalk ToolRunner Reports
begin

section \<open>A client and a server that read each other's requests\<close>

text \<open>
  A concrete \<open>send\<close> (the path up to the question mark, the query as key-value pairs, the body as one
  pair) with parsers that read it, on the small store: the instance of \<open>board_service\<close> for concrete
  runs.
\<close>

definition demo_pair :: "string \<Rightarrow> string \<times> string list" where
  "demo_pair kv = (case cut_at (CHR ''='') kv of None \<Rightarrow> (kv, [[]]) | Some (k, v) \<Rightarrow> (k, [v]))"

definition demo_send :: "string \<Rightarrow> string \<Rightarrow> client_body \<Rightarrow> request" where
  "demo_send method path b =
     (let (p, q) = (case cut_at (CHR ''?'') path of
            None \<Rightarrow> (path, Map.empty)
          | Some (p, qs) \<Rightarrow> (p, map_of (map demo_pair (split_on (CHR ''&'') qs))));
          body = (case b of NoReqBody \<Rightarrow> [] | IntField k v \<Rightarrow> k @ ''='' @ format_int v | TextField k v \<Rightarrow> k @ ''='' @ v)
      in \<lparr>rq_method = method, rq_path = p, rq_values = (\<lambda>_. []), rq_query = q, rq_headers = Map.empty,
          rq_body = body, rq_context_id = [], rq_remote = ''10.0.0.1:4711''\<rparr>)"

definition demo_parsers :: http_ext where
  "demo_parsers = \<lparr>
     parse_int_query = (\<lambda>rq name d lo hi.
       case rq_query rq name of
         None \<Rightarrow> Inr d
       | Some vs \<Rightarrow>
           (case parse_int64 (first_value (rq_query rq) name) of
              None \<Rightarrow> Inl (LibErr ''invalid query param'')
            | Some n \<Rightarrow> if n < lo \<or> (hi \<noteq> 0 \<and> hi < n) then Inl (LibErr ''out of range'') else Inr n)),
     read_json_int = (\<lambda>rq name limit.
       case cut_at (CHR ''='') (rq_body rq) of
         None \<Rightarrow> Inr None
       | Some (k, v) \<Rightarrow> if k = name then Inr (parse_int64 v) else Inr None),
     read_json_text = (\<lambda>rq names limit. Inr (\<lambda>_. ''Main''))\<rparr>"

lemma plain_chars: "digit_val (CHR ''&'') = None" "digit_val (CHR ''='') = None" "digit_val (CHR ''?'') = None"
  by (simp_all add: digit_val_def)

lemma demo_plain:
  assumes "CHR ''?'' \<notin> set path"
  shows "rq_method (demo_send m path b) = m" "rq_path (demo_send m path b) = path"
  using assms by (simp_all add: demo_send_def del: cut_at_None add: cut_at_None [THEN iffD2])

lemma demo_score_path: "plain_segment p \<Longrightarrow> CHR ''?'' \<notin> set (score_path ''main'' p)"
  by (simp add: score_path_def plain_segment_def)

lemma demo_scores_query:
  "demo_send ''GET'' (scores_path ''main'' limit offset) NoReqBody =
    \<lparr>rq_method = ''GET'', rq_path = ''/api/v1/boards/main/scores'', rq_values = (\<lambda>_. []),
     rq_query = [''limit'' \<mapsto> [format_int limit], ''offset'' \<mapsto> [format_int offset]], rq_headers = Map.empty,
     rq_body = [], rq_context_id = [], rq_remote = ''10.0.0.1:4711''\<rparr>"
proof -
  have amp: "CHR ''&'' \<notin> set (format_int n)" for n by (rule format_int_chars) (simp_all add: plain_chars)
  have q: "cut_at (CHR ''?'') (scores_path ''main'' limit offset) =
      Some (''/api/v1/boards/main/scores'', ''limit='' @ format_int limit @ ''&offset='' @ format_int offset)"
    by (simp add: scores_path_def)
  have "split_on (CHR ''&'') (''limit='' @ format_int limit @ CHR ''&'' # ''offset='' @ format_int offset) =
      [''limit='' @ format_int limit, ''offset='' @ format_int offset]"
    using amp split_on_append [of "CHR ''&''" "''limit='' @ format_int limit"]
      split_on_none [of "CHR ''&''" "''offset='' @ format_int offset"] by simp
  then show ?thesis using q by (simp add: demo_send_def demo_pair_def fun_upd_twist)
qed

lemma demo_reads_scores [simp]: "reads_scores demo_parsers demo_send ''main''"
proof -
  have "parse_int64 (format_int n) = Some n" if "0 \<le> n" "n < 2 ^ 63" for n
    using that by (intro parse_format_int) (simp add: is_int64_def)
  then show ?thesis
    by (auto simp: reads_scores_def Let_def demo_plain demo_score_path demo_scores_query demo_parsers_def
        with_path_values_def first_value_def limit_query_def offset_query_def as_of_query_def max_list_limit_def)
qed

lemma demo_reads_increments [simp]:
  assumes "is_int64 a" shows "reads_increments demo_parsers demo_send ''main'' ''p1'' a"
proof -
  have "CHR ''?'' \<notin> set (score_path ''main'' ''p1'' @ ''/increment'')" by (simp add: score_path_def)
  note plain = demo_plain [OF this]
  have body: "rq_body (demo_send m path (IntField ''amount'' a)) = ''amount='' @ format_int a"
    "rq_headers (demo_send m path b) = Map.empty" for m path b
    by (simp_all add: demo_send_def split: option.split)
  have "cut_at (CHR ''='') (''amount='' @ format_int a) = Some (''amount'', format_int a)" by simp
  then show ?thesis
    using parse_format_int [OF assms]
    by (simp add: reads_increments_def Let_def plain body demo_parsers_def with_path_values_def)
qed

lemma demo_reads_sets [simp]: "reads_sets demo_parsers demo_send ''main''"
proof -
  have body: "rq_body (demo_send m path (IntField k n)) = k @ ''='' @ format_int n"
    "rq_headers (demo_send m path b) = Map.empty" for m path b k n
    by (simp_all add: demo_send_def split: option.split)
  have "cut_at (CHR ''='') (''player_score='' @ format_int n) = Some (''player_score'', format_int n)" for n by simp
  then show ?thesis
    by (simp add: reads_sets_def Let_def demo_plain demo_score_path body demo_parsers_def with_path_values_def parse_format_int)
qed

lemma demo_reads_verify [simp]: "reads_verify demo_send ''main''"
  by (simp add: reads_verify_def Let_def demo_plain)

lemma demo_segments [simp]: "plain_segment ''main''" "plain_segment ''p1''"
  "board_id_validate demo_ext ''main''" "player_id_validate demo_ext ''p1''"
  by (simp_all add: plain_segment_def demo_ext_def board_id_validate_def player_id_validate_def)

interpretation mem_board: board_service mem_redis m_keys demo_rate demo_parsers demo_ext demo_ambient demo_send "''main''" "[demo_row]"
  by unfold_locales (auto simp: demo_row_def)

lemma demo_board_open:
  "board_open demo_ext ''main'' {''p1''} Map.empty demo_keys"
  "board_open demo_ext ''main'' {''p1''} [''p1'' \<mapsto> 5] (m_keys demo_scored)"
proof -
  show empty: "board_open demo_ext ''main'' {''p1''} Map.empty demo_keys"
    using demo_present demo_states(1) by (simp add: board_open_def board_active_def board_closed_def)
  show "board_open demo_ext ''main'' {''p1''} [''p1'' \<mapsto> 5] (m_keys demo_scored)"
    using wrote_board_open [OF demo_wrote _ empty] by (simp add: new_score_def)
qed

lemma demo_open: "open_for demo_ext ''main'' ''p1'' 5 (m_keys demo_scored)"
  using demo_board_open(2) by (auto simp: open_for_def)

text \<open>The walk's calls, with their keys in the header.\<close>

definition demo_walk_send :: "string \<Rightarrow> string \<Rightarrow> client_body \<Rightarrow> string \<Rightarrow> request" where
  "demo_walk_send method path b key =
     (demo_send method path b)\<lparr>rq_headers := (if key = [] then Map.empty else [idempotency_key_header \<mapsto> [key]])\<rparr>"

lemma demo_reads_walk:
  assumes "walk_op_ok K x" shows "reads_call demo_parsers demo_walk_send (walk_call_of ''main'' ''p1'' x)"
proof -
  have path: "CHR ''?'' \<notin> set (wk_path (walk_call_of ''main'' ''p1'' x))"
    by (cases x) (simp_all add: score_path_def walk_post_def)
  have body: "rq_body (demo_send m path (IntField k n)) = k @ ''='' @ format_int n" for m path k n
    by (simp add: demo_send_def split: option.split)
  have "cut_at (CHR ''='') (write_field op @ ''='' @ format_int n) = Some (write_field op, format_int n)" for op n
    by (simp add: write_field_def)
  moreover have "is_int64 n" if "x = WScore op n key" for op n key using assms that score_int64 by simp
  ultimately show ?thesis
    using demo_plain [OF path]
    by (cases x) (auto simp: reads_call_def Let_def demo_walk_send_def body demo_parsers_def with_path_values_def
        parse_format_int walk_post_def)
qed

end
