(* ===== verification/Spec2Isabelle.thy ===== *)
theory Spec2Isabelle
  imports ClientExamples
begin

text \<open>
  A leaderboard service in Go over Redis, and its proof of correctness.

  \<^bold>\<open>The program.\<close> Clients send scores over HTTP (packages \<open>server\<close>, \<open>handlers\<close>). A score write is one
  Lua script on the server (\<open>storage/scripts/apply_score_event.lua\<close>): it checks the idempotency record,
  the player and the board, bounds the resulting score, moves the board's sorted set (the live
  leaderboard, or projection) and appends an entry to one stream, the ledger, which is the truth.
  Everything else is derived from the ledger: time travel and the administration endpoints replay it
  (\<open>storage/score_repo.go\<close>, \<open>storage/projection_admin.go\<close>), and two consumers (\<open>consumer\<close>) tail it in
  batches with a saved cursor, one into an index of each player's events, one into daily counters.
  \<open>main.go\<close> reads the environment, starts the consumers and the server, and stops them in order.

  \<^bold>\<open>The world.\<close> Redis and the client library are not in the repository. Every definition that talks to
  the server takes a record \<open>R\<close> of commands (Redis). What the program relies on is the locale
  \<open>redis_server\<close> (RedisServer): each command acts on the observed keyspace as documented, any ids
  XADD gives are above the last one, and nothing else is promised. Its instance \<open>mem\<close> is a complete
  in-memory server, on which every example runs. A Go storage operation works on a \<open>world\<close> (Network):
  the server with a schedule of what happens around each exchange (steps of other clients before each
  command, a lost request, a lost reply); \<open>quiet s\<close> is the schedule with no disturbance. Other
  clients are \<open>client_step X R view U\<close> (Clients): every write of the program with any arguments it can
  send, the expiry of records and day counters, and the DEL, ZADD and ZINCRBY of rebuilds of the boards
  in \<open>U\<close>, in any number and order. The invariant of the store is \<open>world_inv X B\<close>, where \<open>B\<close> are the
  boards whose leaderboard is the replay of the ledger and whose scores stay in range. A rebuild writes
  a live leaderboard from outside the write script, so under the steps of \<open>client_step X R view U\<close> it
  is \<open>world_inv X (- U)\<close> that holds: everything for all boards when no rebuild is about (\<open>U\<close> empty),
  and everything but leaderboard and score bounds for the boards under rebuild.

  \<^bold>\<open>Theories and code.\<close>
  \<^item> Prelude, GoText, Float64: sequencing with errors, \<open>strings\<close> and \<open>strconv\<close>, \<open>float64\<close> as rationals
    with rounding written out (scores up to \<open>10^13\<close> and their sums are exact).
  \<^item> Redis, RedisServer, Network: commands, the documented server, exchanges.
  \<^item> Keys (\<open>storage/keys.go\<close>), Domain (\<open>score\<close>, \<open>ledger\<close>, \<open>board\<close>, \<open>player\<close>), ApexTime (\<open>apextime\<close>),
    LedgerEntry (\<open>storage/storage.go\<close>), Scripts (\<open>storage/scripts/*.lua\<close>), ScoreRepo
    (\<open>storage/score_repo.go\<close>, \<open>event_repo.go\<close>), BoardPlayer (\<open>board_repo.go\<close>, \<open>profile_repo.go\<close>),
    ProjectionAdmin (\<open>projection_admin.go\<close>), Consumer (\<open>consumer/consumer.go\<close>), LedgerConsumers
    (\<open>ledger_consumer.go\<close>, \<open>player_history_store.go\<close>, \<open>activity_store.go\<close>, \<open>activity_repo.go\<close>, and
    \<open>consumer/player_history.go\<close>, \<open>daily_activity.go\<close>): one definition per function, the Go names in
    snake case.
  \<^item> Http, Handlers (\<open>handlers/*.go\<close>), Routes, RateLimit, Middleware, ServerConfig, Service (\<open>server/*.go\<close>),
    RedisClient (\<open>apexredis\<close>), LifeCycle (\<open>main.go\<close>). Service puts limiter, routes, handlers and
    recovery together as \<open>server.Start\<close> does.
  \<^item> LedgerSpec, LedgerRun, ScoreWrites, Clients, WriteRuns: the specification of a score write
    (\<open>decide\<close>, \<open>wrote\<close>, the scores as a replay of the ledger), the script's refinement of it on any
    server, the invariant over all interleavings, retries.
  \<^item> Standings, HistoryRead, DailyRead, ApiFacts: what the reads return, as rankings, pages and counts
    of the ledger; what the handlers answer. ConsumerNetwork: the two consumers and other clients on
    one server with a disturbed network (locale \<open>tail_network\<close>, for the index and for each day of the
    counters); VerifyNetwork: a verification among other clients; RebuildRace: two rebuilds of one board
    at once. Examples: the concrete stores of the witnesses, and a disturbed network on them.
  \<^item> JsonBody: the response structs of \<open>handlers\<close> as JSON values, by their tags, and how they are
    decoded; ApexHttp has the decoders of the client's structs and reads every reply back.
  \<^item> ApexHttp (\<open>apiscripts/apexhttp\<close>), Fanout (\<open>apiscripts/fanout\<close>), LoadChecks
    (\<open>apiscripts/loadscore\<close>, \<open>randomhistory\<close>, \<open>dailyactivity\<close>), ToolRunner (\<open>apiscripts/toolrunner\<close>):
    the client of the API, the scripts that load the service and check what it answers, and the small
    service that runs them; Reports: the lines the scripts print. FanoutService and LoadService run the client against the service in
    process (all requests of a run share one ambient: clock reading, request id and generated id), ApiWalk (\<open>apiscripts/apiwalk\<close>) the demonstration walk against an abstract board that the
    service refines; ClientExamples has a concrete client and parsers.

  \<^bold>\<open>What is shown.\<close> C1 to C6: score writes refine the specification, keep the invariant under every
  interleaving and every network, are applied once under a key however often they are sent, and reject
  without effect. C7 to C10: rebuilding and verifying a projection, alone and among other clients; C36:
  what two rebuilds of one board do to each other. C11 to C14: live and historical
  leaderboards, standings, events. C15 to C19: the consumers catch up; under any network and with other
  clients at work they take every entry at least once and in order, and what their readers then return.
  C20 to C22: boards and players. C23, C24: round trips of instants and entries. C25 to C31: the HTTP
  interface, up to whole sequences of requests. C32 to C35: limiter, access log, configuration. C37 to
  C39: the scripts against the service, the tool runner. C40: a damaged hash. Beside
  the properties: what \<open>main\<close> does in which order (\<open>main_run_actions\<close>), a repeated batch leaves the history view as it is (\<open>history_batch_idempotent\<close>), a
  second verification can raise a false alarm (\<open>verify_false_alarm\<close>), the client decodes what the
  handlers encode (\<open>decode_replies\<close>).

  \<^bold>\<open>Bounds.\<close> Writes and reads are stated while the ledger's last id is below the
  maximal stream id. The history index orders events by the double \<open>ms * 4096 + seq\<close>, exact
  for ids below \<open>2^41\<close> milliseconds and 4096 entries a millisecond, which C17 assumes of the
  ledger it ends with. Pages need \<open>offset + limit < 2^63\<close> where the code adds them in an
  \<open>int64\<close>; the wrap-around is in the definitions. A consumer's rounds are a list: one round
  per ten entries is enough to reach the end (C15). A day's counter is a double, which counts one by one
  up to \<open>2^53\<close>; C18 and C19 assume a ledger that short. In C16, C17 and C19 the other clients leave
  the consumer's own cursor and view alone (\<open>beside\<close>): two processes running one consumer are not
  covered. A day's counters expire about 30 days after the last write to them, and are then lost for
  good; C16 and C19 are about one day at a time and hold as long as the key of that day has not expired,
  while any other day's may. C7 and C10 need that nobody else rebuilds the board meanwhile, C10 that
  nobody else verifies it. The
  fan-out script's paging loop has no bound in the code; one round per hundred rows is enough (C37).
  Polling loops take the list of the clock's answers and end with the deadline
  (\<open>polling_ends\<close>). The other loops run over finite tables, so they are structural
  recursions.

  \<^bold>\<open>Not modelled.\<close> Parameters, with what is used of them as hypotheses:
  \<open>strvalid\<close>, \<open>uuid\<close>, \<open>httputils\<close> (query and JSON body parsers),
  \<open>golang.org/x/time/rate\<close>, the clock, go-redis' URL parser and its retries inside one call.
  Left out: logging other than the access and command lines, the times at which idempotency fields and day
  counters expire (\<open>step_expired_field\<close> and \<open>step_expired_key\<close> may come at any moment; C3 assumes that
  the record of its key does not expire between the attempts, C16 and C19 that their day does not), the order in which Go ranges over a map (mismatches are compared as
  sets), floating point numbers in hexadecimal or with underscores, the redirects of
  \<open>http.ServeMux\<close> for unclean paths and its escaping, the timeouts of
  \<open>http.Server\<close>, the embedded API document, what an operator does by hand on the Redis server. Of \<open>apiscripts\<close>: the resty client is
  a parameter, the goroutines of a load are an order in which its requests take effect, and the flag
  parser, the printing other than Reports and the files written are left out. Between a response value and
  the client's struct the JSON is a value, not a text; \<open>encoding/json\<close> reads back what it
  writes. \<open>storage/interface.go\<close> declares Go interfaces with one implementation each, which
  is modelled.
\<close>

section \<open>Score writes\<close>

text \<open>
  C1. A score write on a store that satisfies its invariant answers and acts as decided by the
  specification: from the idempotency record, the player and board hashes, the board's state and
  the score the event would leave, over the replay of the board's events in the ledger. When the
  decision is to apply, one entry is appended, the leaderboard moves with it and the invariant
  still holds; otherwise nothing changes.
\<close>

theorem write_refines_decision:
  assumes "redis_server R view" and "world_inv X UNIV (view s)" and "writable X op p b n rq"
    and "last_sid (ledger_of (view s)) < sid_max"
  shows "\<exists>s'. apply_event R op p b n rq idem (quiet s) =
      (reply_of (decide (board_scores X b (ledger_of (view s))) (view s) op p b n idem), quiet s') \<and>
    (if decide (board_scores X b (ledger_of (view s))) (view s) op p b n idem = None
     then wrote X op p b n rq idem (view s) (view s') \<and> world_inv X UNIV (view s')
     else view s' = view s)"
proof -
  have st: "store_inv X UNIV (view s)" "score_validate n" using assms(2,3) by (simp_all add: world_inv_def writable_def)
  from redis_server.apply_event_quiet [OF assms(1) st assms(4), of b op p rq idem]
  show ?thesis using wrote_world_inv [OF _ assms(2,3)] by (auto split: if_splits)
qed

lemma write_refines_decision_witness:
  "\<exists>s'. apply_event mem_redis event_set ''p1'' ''main'' 5 ''r1'' ''k1'' (quiet demo) = (Inr (), quiet s') \<and>
    world_inv demo_ext UNIV (m_keys s')"
  using write_refines_decision [OF mem_server, of demo_ext demo event_set "''p1''" "''main''" 5 "''r1''" "''k1''"]
  by (auto simp: reply_of_def)

text \<open>
  C2. Every state that any interleaving of the program's writes reaches from an empty database, with
  rebuilds of the boards in \<open>U\<close> started, broken off and racing as they like, satisfies the invariant.
  Every entry decodes, registry and board hashes agree, idempotency records have their form, and for
  every board outside \<open>U\<close> the leaderboard is the replay of the board's events and no prefix of the
  ledger takes a score of it out of range; with \<open>U\<close> empty that is every board. And the ledger only
  grows.
\<close>

theorem reachable_states_sound:
  assumes "redis_server R view" and "view s0 = Map.empty"
    and "(client_step X R view U)\<^sup>*\<^sup>* s0 s1" and "(client_step X R view U)\<^sup>*\<^sup>* s1 s2"
  shows "world_inv X (- U) (view s1) \<and> world_inv X (- U) (view s2) \<and>
    (\<exists>es. ledger_of (view s2) = ledger_of (view s1) @ es)"
proof -
  have U: "U \<inter> - U = {}" by simp
  have "world_inv X (- U) (view s0)" using assms(2) world_inv_empty by simp
  from redis_server.client_steps_world [OF assms(1,3) this U] have 1: "world_inv X (- U) (view s1)" by blast
  from redis_server.client_steps_world [OF assms(1,4) this U] show ?thesis by (simp add: 1 ledger_grows_def)
qed

lemma reachable_states_sound_witness:
  "\<exists>s s' :: mem. m_keys s = Map.empty \<and> (client_step demo_ext mem_redis m_keys {''old''})\<^sup>*\<^sup>* s s' \<and>
    world_inv demo_ext (- {''old''}) (m_keys s')"
proof -
  let ?step = "client_step demo_ext mem_redis m_keys {''old''}"
  let ?s = "\<lparr>m_keys = Map.empty, m_clock = 1\<rparr>"
  let ?s1 = "snd (create_board_script mem_redis (board_profile_key (bd_id demo_board)) board_index_key
      (bd_id demo_board) (bd_name demo_board) (format_time (bd_created demo_board))
      (format_int (unix_sec (bd_created demo_board))) (bd_state demo_board) ?s)"
  let ?s2 = "snd (zadd_c mem_redis (leaderboard_key ''old'') (Fin 7) ''p1'' ?s1)"
  have "?step ?s ?s1" by (rule step_board) simp_all
  then have "?step\<^sup>*\<^sup>* ?s ?s1" by (rule r_into_rtranclp)
  moreover have "?step ?s1 ?s2" by (rule step_rebuild_set) simp
  ultimately have "?step\<^sup>*\<^sup>* ?s ?s2" by (rule rtranclp.rtrancl_into_rtrancl)
  moreover from reachable_states_sound [OF mem_server, of ?s demo_ext "{''old''}" ?s ?s2] this
  have "world_inv demo_ext (- {''old''}) (m_keys ?s2)" by simp
  ultimately show ?thesis by (intro exI [of _ ?s] exI [of _ ?s2]) simp
qed

text \<open>
  C3. A retry applies a write once. The reply to a write with an idempotency key is lost, whether or
  not the script ran; other clients then take any steps that keep the record of the key, rebuilds of
  other boards included; then the caller retries. Either the first attempt wrote the event, and the
  retry succeeds and changes nothing, or it wrote nothing, and the retry is a write of its own: it
  appends the event once, or gets the rejection that the store of that moment calls for (a closed
  board, a score out of range) and changes nothing.
\<close>

theorem retry_exactly_once:
  assumes "redis_server R view" and "world_inv X (- U) (view s)" and "b \<notin> U"
    and "writable X op p b n rq" and "writable X op p b n rq'"
    and "last_sid (ledger_of (view s)) < sid_max" and "idem \<noteq> []"
    and "apply_event R op p b n rq idem \<lparr>srv = s, net = [Xch [] (Some k)]\<rparr> = (r1, w1)"
    and "(client_step X R view U)\<^sup>*\<^sup>* (srv w1) s2"
    and "\<And>v. idem_record (view (srv w1)) b p idem = Some v \<Longrightarrow> idem_record (view s2) b p idem = Some v"
    and "last_sid (ledger_of (view s2)) < sid_max"
    and "apply_event R op p b n rq' idem (quiet s2) = (r2, w2)"
  shows "r1 = Inl NoReply \<and>
    (wrote X op p b n rq idem (view s) (view (srv w1)) \<and> r2 = Inr () \<and> view (srv w2) = view s2 \<or>
     view (srv w1) = view s \<and>
       r2 = reply_of (decide (board_scores X b (ledger_of (view s2))) (view s2) op p b n idem) \<and>
       (if decide (board_scores X b (ledger_of (view s2))) (view s2) op p b n idem = None
        then wrote X op p b n rq' idem (view s2) (view (srv w2)) else view (srv w2) = view s2))"
  by (rule redis_server.retry_outcome [OF assms])

lemma retry_exactly_once_witness:
  "\<exists>r2 w2. apply_event mem_redis event_set ''p1'' ''main'' 5 ''r1'' ''k1''
      (quiet (srv (snd (apply_event mem_redis event_set ''p1'' ''main'' 5 ''r1'' ''k1'' \<lparr>srv = demo, net = [Xch [] (Some 0)]\<rparr>)))) =
      (r2, w2) \<and> r2 = Inr ()"
proof -
  obtain r1 w1 where 1: "apply_event mem_redis event_set ''p1'' ''main'' 5 ''r1'' ''k1''
      \<lparr>srv = demo, net = [Xch [] (Some 0)]\<rparr> = (r1, w1)" by fastforce
  obtain r2 w2 where 2: "apply_event mem_redis event_set ''p1'' ''main'' 5 ''r1'' ''k1'' (quiet (srv w1)) = (r2, w2)"
    by fastforce
  have "srv w1 = demo" using mem.apply_event_lost [OF 1] by simp
  with retry_exactly_once [OF mem_server, where X = demo_ext and U = "{}" and k = 0, OF _ _ _ _ _ _ 1 _ _ _ 2] 1 2
  show ?thesis by (auto simp: reply_of_def)
qed

text \<open>
  C4. Whatever the network does to the exchange (lost request, lost reply) and whatever steps other
  clients take around it, rebuilds of the boards in \<open>U\<close> included, a score write on any board keeps the
  invariant, which for the boards in \<open>U\<close> says nothing of leaderboard and score bounds. It is assumed
  that stream ids do not run out.
\<close>

theorem write_under_network:
  assumes "redis_server R view" and "writable X op p b n rq"
    and "others_do (clients X R view U) w" and "world_inv X (- U) (view (srv w))" and "room (view (srv w))"
    and "apply_event R op p b n rq idem w = (r, w')"
  shows "world_inv X (- U) (view (srv w'))"
proof -
  have "world_inv X (- U) (view (srv w)) \<and> room (view (srv w))" using assms(4,5) by simp
  note t = tripleD [OF redis_server.triple_apply_event [OF assms(1,2)] assms(3) this assms(6)]
  show ?thesis using t(2,3) by (cases r) auto
qed

lemma write_under_network_witness:
  "world_inv demo_ext (- {}) (m_keys (srv (snd (apply_event mem_redis event_set ''p1'' ''main'' 5 ''r1'' ''k1''
     \<lparr>srv = demo, net = [Xch [id, \<lambda>s. s] (Some 1)]\<rparr>))))"
  by (rule write_under_network [OF mem_server, of demo_ext event_set "''p1''" "''main''" 5 "''r1''" "{}"
        "\<lparr>srv = demo, net = [Xch [id, \<lambda>s. s] (Some 1)]\<rparr>" "''k1''", OF _ _ _ _ prod.collapse [symmetric]])
    (simp_all add: others_do_def clients_def room_def)

text \<open>
  C5. What an applied write does to the scores: the player's score on its board becomes the set
  value, or grows by the increment, and no other score of any board changes.
\<close>

theorem write_changes_one_score:
  assumes "wrote X op p b n rq idem ks ks'" and "writable X op p b n rq"
  shows "board_scores X c (ledger_of ks') q =
    (if c = b \<and> q = p
     then Some (if op = event_set then n
                else (case board_scores X b (ledger_of ks) p of None \<Rightarrow> 0 | Some m \<Rightarrow> m) + n)
     else board_scores X c (ledger_of ks) q)"
  using wrote_scores [OF assms, of c] by (simp add: new_score_def)

lemma write_changes_one_score_witness:
  "board_scores demo_ext ''main'' (ledger_of (m_keys demo_scored)) ''p1'' = Some 5"
  using write_changes_one_score [OF demo_wrote, of "''main''" "''p1''"] by simp

text \<open>
  C6. Each rejection has its own error and leaves the store as it was: unknown player, unknown
  board, closed board, a score out of range, and an idempotency key already used for another
  payload.
\<close>

theorem rejected_writes:
  assumes "redis_server R view" and "world_inv X UNIV (view s)" and "writable X op p b n rq"
    and "last_sid (ledger_of (view s)) < sid_max"
    and "case idem_record (view s) b p idem of
           Some v \<Rightarrow> e = ErrIdempotencyConflict \<and> (\<exists>i. check_record v op (format_int n) = Inr (- 4, i))
         | None \<Rightarrow>
             if view s (player_profile_key p) = None then e = ErrNotFound
             else if view s (board_profile_key b) = None then e = ErrBoardNotFound
             else if board_state_of (view s) b = Some board_closed then e = ErrBoardClosed
             else e = ErrScoreOutOfRange \<and>
               \<not> score_validate (new_score (board_scores X b (ledger_of (view s))) op p n)"
  shows "\<exists>s'. apply_event R op p b n rq idem (quiet s) = (Inl e, quiet s') \<and> view s' = view s"
proof -
  let ?d = "decide (board_scores X b (ledger_of (view s))) (view s) op p b n idem"
  have "?d \<noteq> None \<and> reply_of ?d = Inl e"
    using assms(5) by (auto simp: decide_def reply_of_def decode_apply_def lua_result_def apply_code_defs
        split: option.splits if_splits)
  moreover have "store_inv X UNIV (view s)" "score_validate n"
    using assms(2,3) by (simp_all add: world_inv_def writable_def)
  ultimately show ?thesis
    using redis_server.apply_event_quiet [OF assms(1) _ _ assms(4), of X UNIV n b op p rq idem] by auto
qed

lemma rejected_writes_witness:
  "\<exists>s'. apply_event mem_redis event_set ''p1'' ''old'' 5 ''r1'' [] (quiet demo) = (Inl ErrBoardClosed, quiet s') \<and>
    m_keys s' = demo_keys"
  using rejected_writes [OF mem_server, of demo_ext demo event_set "''p1''" "''old''" 5 "''r1''" ErrBoardClosed "[]"]
  by simp

section \<open>Projection administration\<close>

text \<open>
  C7. A closed board can be rebuilt without racing with score writes. Other clients may take any steps
  meanwhile, rebuilds of the boards in \<open>U\<close> included, as long as this board stays closed and nobody else
  rebuilds it; any message may be lost. If \<open>RebuildProjection\<close> returns without an error, every
  leaderboard outside \<open>U\<close>, the rebuilt one included, is the replay of its events, whatever the
  rebuilt leaderboard held before; and if it fails on the way, the rest of the store is intact.
\<close>

theorem rebuild_closed_board:
  assumes "redis_server R view" and "b \<notin> U" and "others_do (steps_closed X R view U b) w"
    and "rebuilding X U b (view (srv w))" and "rebuild_projection X R b w = (r, w')"
  shows "(r = Inr () \<longrightarrow> world_inv X (- U) (view (srv w'))) \<and>
    (\<forall>e. r = Inl e \<longrightarrow> world_inv X (- insert b U) (view (srv w')))"
  using tripleD [OF redis_server.triple_rebuild [OF assms(1,2)] assms(3) _ assms(5)] assms(4)
  by (auto simp: rebuilding_def)

lemma rebuild_closed_board_witness:
  "\<exists>r w'. rebuild_projection demo_ext mem_redis ''old''
      \<lparr>srv = demo\<lparr>m_keys := demo_keys(leaderboard_key ''old'' \<mapsto> ZSet [(Fin 9, ''p1'')])\<rparr>, net = [Xch [id] None]\<rparr> = (r, w') \<and>
    (r = Inr () \<longrightarrow> world_inv demo_ext (- {''main''}) (m_keys (srv w')))"
proof -
  let ?w = "\<lparr>srv = demo\<lparr>m_keys := demo_keys(leaderboard_key ''old'' \<mapsto> ZSet [(Fin 9, ''p1'')])\<rparr>, net = [Xch [id] None]\<rparr>"
  obtain r w' where run: "rebuild_projection demo_ext mem_redis ''old'' ?w = (r, w')" by fastforce
  have "rebuilding demo_ext {''main''} ''old'' demo_keys" by (rule demo_rebuilding)
  then have "rebuilding demo_ext {''main''} ''old'' (m_keys (srv ?w))"
    using rebuilding_leaderboard [of demo_ext "{''main''}" "''old''" demo_keys] by (simp add: zset_ok_def z_ok_def)
  moreover have "others_do (steps_closed demo_ext mem_redis m_keys {''main''} ''old'') ?w"
    by (simp add: others_do_def steps_closed_def)
  ultimately show ?thesis using rebuild_closed_board [OF mem_server _ _ _ run] run by auto
qed

text \<open>
  C8. On a quiet server \<open>RebuildProjection\<close> succeeds for an existing board and leaves its
  leaderboard equal to the replay of its events in the ledger, whatever was stored there (even a
  value of another type), and changes no other key; for an unknown board it reports so.
\<close>

theorem rebuild_restores_projection:
  assumes "redis_server R view" and "as_stream (view s ledger_key) = Some es" and "ledger_wf X es"
  shows "\<exists>r s'. rebuild_projection X R b (quiet s) = (r, quiet s') \<and>
    (if view s (board_profile_key b) = None then r = Inl ErrBoardNotFound \<and> view s' = view s
     else r = Inr () \<and> projection_ok (view s') (leaderboard_key b) (board_scores X b es) \<and>
       (\<forall>k. k \<noteq> leaderboard_key b \<longrightarrow> view s' k = view s k))"
proof (cases "view s (board_profile_key b)")
  case None
  then have "rebuild_projection X (doc_redis (0, 1)) b (quiet (view s)) = (Inl ErrBoardNotFound, quiet (view s))"
    by (simp add: rebuild_projection_def io_bind_def doc_require_board)
  from qsim_result [OF redis_server.qsim_rebuild [OF assms(1)] this] None show ?thesis by auto
next
  case (Some v)
  then obtain ks where ks: "rebuild_projection X (doc_redis (0, 1)) b (quiet (view s)) = (Inr (), quiet ks)"
    "\<forall>k. k \<noteq> leaderboard_key b \<longrightarrow> ks k = view s k" "projection_ok ks (leaderboard_key b) (board_scores X b es)"
    using doc_rebuild [of "view s" b es X "(0, 1)"] assms(2,3) by auto
  from qsim_result [OF redis_server.qsim_rebuild [OF assms(1)] ks(1)] ks Some show ?thesis by auto
qed

lemma rebuild_restores_projection_witness:
  "\<exists>s'. rebuild_projection demo_ext mem_redis ''main'' (quiet demo_scored) = (Inr (), quiet s') \<and>
    projection_ok (m_keys s') (leaderboard_key ''main'') [''p1'' \<mapsto> 5]"
  using rebuild_restores_projection [OF mem_server, of demo_scored "ledger_of (m_keys demo_scored)" demo_ext "''main''"]
    demo_scored_world demo_scores [of "''main''"]
  by (auto simp: world_inv_def store_inv_def ledger_inv_def ledger_wf_def
      simp del: demo_scored_world demo_scored_ledger split: if_splits)

text \<open>
  C9. \<open>VerifyProjection\<close> on a quiet server reports no mismatch exactly when the live leaderboard is
  the replay of the board's events, and leaves every key but its scratch key as it was.
\<close>

theorem verify_reports_drift:
  assumes "redis_server R view" and "as_stream (view s ledger_key) = Some es" and "ledger_wf X es"
    and "view s (board_profile_key b) \<noteq> None"
    and "as_zset (view s (leaderboard_key b)) = Some live" and "z_ok live" and "NaN \<notin> fst ` set live"
  shows "\<exists>mismatches s'. verify_projection X R b (quiet s) = (Inr mismatches, quiet s') \<and>
    (mismatches = [] \<longleftrightarrow> z_map live = as_scores (board_scores X b es)) \<and>
    (\<forall>k. k \<noteq> board_verify_key b \<longrightarrow> view s' k = view s k)"
  by (rule redis_server.verify_drift [OF assms])

lemma verify_reports_drift_witness:
  "\<exists>mismatches s'. verify_projection demo_ext mem_redis ''main'' (quiet demo) = (Inr mismatches, quiet s') \<and>
    mismatches = []"
proof -
  have "as_stream (m_keys demo ledger_key) = Some []" "ledger_wf demo_ext []"
    "as_zset (m_keys demo (leaderboard_key ''main'')) = Some []"
    using demo_world [of demo_ext UNIV]
    by (simp_all add: demo_keys_def board_created_other player_created_other)
  from verify_reports_drift [OF mem_server this(1,2) _ this(3)] show ?thesis
    by (auto simp: z_ok_def)
qed

text \<open>
  C10. Verifying a closed board while other clients work: they may take any steps, rebuilds of the
  boards in \<open>U\<close> included, as long as this board stays closed, nobody rebuilds it and nobody else
  writes its scratch key (a second verification would); any message may be lost. If
  \<open>VerifyProjection\<close> returns a list at all, it is empty exactly when the leaderboard is the replay of
  the board's events; the store's invariant and the leaderboard are as before.
\<close>

theorem verify_closed_board:
  assumes "redis_server R view" and "b \<notin> U" and "others_do (verify_steps X R view U b) w"
    and "rebuilding X U b (view (srv w))"
    and "as_zset (view (srv w) (leaderboard_key b)) = Some live" and "z_ok live" and "NaN \<notin> fst ` set live"
    and "verify_projection X R b w = (Inr mismatches, w')"
  shows "(mismatches = [] \<longleftrightarrow> z_map live = as_scores (board_scores X b (ledger_of (view (srv w))))) \<and>
    rebuilding X U b (view (srv w')) \<and> view (srv w') (leaderboard_key b) = view (srv w) (leaderboard_key b)"
proof -
  let ?W = "watching X U b (view (srv w) (leaderboard_key b)) (board_events X b (ledger_of (view (srv w))))"
  have "?W (view (srv w))" using assms(4) by (simp add: watching_def)
  from tripleD(2) [OF redis_server.triple_verify [OF assms(1,2)] assms(3) this assms(8) refl]
  show ?thesis using assms(5-7) by (simp add: right_answer_def watching_def board_scores_def)
qed

lemma verify_closed_board_witness:
  "\<exists>w'. verify_projection demo_ext mem_redis ''old'' \<lparr>srv = demo, net = [Xch [id] None]\<rparr> = (Inr [], w') \<and>
    rebuilding demo_ext {''main''} ''old'' (m_keys (srv w'))"
proof -
  let ?w = "\<lparr>srv = demo, net = [Xch [id] None]\<rparr>"
  have "verify_projection demo_ext mem_redis ''old'' ?w = verify_projection demo_ext mem_redis ''old'' (quiet demo)"
    by (simp add: verify_projection_def require_board_def io_bind_def seen_exchange)
  moreover obtain w' where "verify_projection demo_ext mem_redis ''old'' (quiet demo) = (Inr [], w')"
    using mem.verify_clean [of demo_ext demo "''old''"] by auto
  ultimately have run: "verify_projection demo_ext mem_redis ''old'' ?w = (Inr [], w')" by simp
  have reb: "rebuilding demo_ext {''main''} ''old'' demo_keys" by (rule demo_rebuilding)
  have "ledger_inv demo_ext UNIV demo_keys" using demo_world by (simp add: world_inv_def store_inv_def)
  then obtain live where live: "as_zset (demo_keys (leaderboard_key ''old'')) = Some live" "z_ok live"
    "z_map live = as_scores (board_scores demo_ext ''old'' (ledger_of demo_keys))"
    unfolding ledger_inv_def projection_ok_def by blast
  have "NaN \<notin> fst ` set live"
    using z_map_mem [of live NaN] live(2,3) by (force simp: z_ok_def as_scores_def)
  from verify_closed_board [OF mem_server _ _ _ _ live(2) this run] reb live(1)
  show ?thesis using run by (simp add: others_do_def verify_steps_def steps_closed_def)
qed

section \<open>Reads\<close>

text \<open>
  C11. \<open>ListStandings\<close> returns the page of the board's ranking (highest score first, ties by
  descending player id, ranks from 1 by position) and the number of scored players.
\<close>

theorem standings_live:
  assumes "redis_server R view" and "world_inv X UNIV (view s)"
    and "0 < limit" and "0 \<le> offset" and "offset + limit < 2 ^ 63"
  shows "\<exists>rows s'. is_ranking (board_scores X b (ledger_of (view s))) rows \<and>
    list_standings R b limit offset (quiet s) =
      (Inr (slice (nat offset) (nat (offset + limit)) rows, int (length rows)), quiet s') \<and> view s' = view s"
proof -
  obtain rows where rows: "is_ranking (board_scores X b (ledger_of (view s))) rows"
    "list_standings (doc_redis (0, 1)) b limit offset (quiet (view s)) =
      (Inr (slice (nat offset) (nat (offset + limit)) rows, int (length rows)), quiet (view s))"
    using doc_list_standings [OF assms(2-5)] by blast
  from qsim_result [OF redis_server.qsim_list_standings [OF assms(1)] rows(2)] rows(1) show ?thesis by blast
qed

lemma standings_live_witness:
  "\<exists>s'. list_standings mem_redis ''main'' 10 0 (quiet demo_scored) = (Inr ([demo_row], 1), quiet s')"
  using standings_live [OF mem_server demo_scored_world, of 10 0 "''main''"]
  by (auto simp: demo_scores demo_ranking slice_def simp del: demo_scored_ledger)

text \<open>
  C12. \<open>ListStandingsAsOf\<close> returns the page of the ranking that the entries strictly before the
  cutoff produce, for any cutoff after the epoch and before the end of the 64-bit range. It depends on
  the ledger alone: nothing is assumed of the leaderboard, which may hold anything. On a store whose
  projection is in order, a cutoff after every entry gives what the live leaderboard gives, page and
  total. With a cutoff before 1970, or in the first millisecond after the epoch, the server refuses
  the range and the call ends in a storage error instead of an empty board.
\<close>

theorem standings_as_of:
  assumes "redis_server R view"
    and "as_stream (view s ledger_key) = Some (ledger_of (view s))" and "ledger_sound X {b} (ledger_of (view s))"
    and "0 < limit" and "0 \<le> offset" and "offset + limit < 2 ^ 63" and "unix_milli before < 2 ^ 63"
  shows "if unix_milli before \<le> 0
    then \<exists>s'. list_standings_as_of X R b before limit offset (quiet s) =
      (Inl (ServerReply BadStreamId), quiet s') \<and> view s' = view s
    else (\<exists>rows s'. is_ranking (board_scores X b (entries_before before (ledger_of (view s)))) rows \<and>
        list_standings_as_of X R b before limit offset (quiet s) =
          (Inr (slice (nat offset) (nat (offset + limit)) rows, int (length rows)), quiet s') \<and> view s' = view s) \<and>
      (world_inv X UNIV (view s) \<longrightarrow>
        (\<forall>e \<in> set (ledger_of (view s)). int (fst (fst e)) < unix_milli before) \<longrightarrow>
        fst (list_standings_as_of X R b before limit offset (quiet s)) = fst (list_standings R b limit offset (quiet s)))"
proof (cases "unix_milli before \<le> 0")
  case True
  with redis_server.as_of_refused [OF assms(1) True, of X b limit offset s] show ?thesis by simp
next
  case False
  then have pos: "0 < unix_milli before" by simp
  obtain rows where rows: "is_ranking (board_scores X b (entries_before before (ledger_of (view s)))) rows"
    "list_standings_as_of X (doc_redis (0, 1)) b before limit offset (quiet (view s)) =
      (Inr (slice (nat offset) (nat (offset + limit)) rows, int (length rows)), quiet (view s))"
    using doc_standings_as_of [OF assms(2-6) pos assms(7)] by blast
  from False qsim_result [OF redis_server.qsim_as_of [OF assms(1) pos assms(7)] rows(2)] rows(1)
    as_of_now_is_live [OF assms(1) _ assms(4-6) pos assms(7)] show ?thesis by auto
qed

lemma standings_as_of_witness:
  "(\<exists>s'. list_standings_as_of demo_ext mem_redis ''main'' (from_unix_milli 1000) 10 0 (quiet demo_scored) =
    (Inr ([], 0), quiet s')) \<and>
  (\<exists>s'. list_standings_as_of demo_ext mem_redis ''main'' (- 1) 10 0 (quiet demo_scored) =
    (Inl (ServerReply BadStreamId), quiet s'))"
proof
  note led = world_ledger(1) [OF demo_scored_world] world_ledger(2) [OF demo_scored_world UNIV_I, of "''main''"]
  have "entries_before (from_unix_milli 1000) (ledger_of (m_keys demo_scored)) = []"
    by (simp add: entries_before_def)
  moreover have "is_ranking Map.empty rows \<longleftrightarrow> rows = []" for rows
    using is_ranking_unique [of Map.empty rows "[]"] by (auto simp: is_ranking_def)
  ultimately show "\<exists>s'. list_standings_as_of demo_ext mem_redis ''main'' (from_unix_milli 1000) 10 0 (quiet demo_scored) =
      (Inr ([], 0), quiet s')"
    using standings_as_of [OF mem_server led, of 10 0 "from_unix_milli 1000"]
    by (auto simp: slice_def)
  have "unix_milli (- 1) \<le> 0" by (simp add: unix_milli_def)
  with standings_as_of [OF mem_server led, of 10 0 "- 1"]
  show "\<exists>s'. list_standings_as_of demo_ext mem_redis ''main'' (- 1) 10 0 (quiet demo_scored) =
      (Inl (ServerReply BadStreamId), quiet s')" by auto
qed

text \<open>
  C13. \<open>GetStanding\<close> returns the player's row of the ranking with the number of scored players, and
  reports a player without a score on the board as not found.
\<close>

theorem standing_of_player:
  assumes "redis_server R view" and "world_inv X UNIV (view s)"
  shows "\<exists>rows s'. is_ranking (board_scores X b (ledger_of (view s))) rows \<and>
    get_standing R p b (quiet s) =
      (case find (\<lambda>row. st_player row = p) rows of
         None \<Rightarrow> Inl ErrNotFound | Some row \<Rightarrow> Inr (row, int (length rows)), quiet s') \<and> view s' = view s"
proof -
  obtain rows where rows: "is_ranking (board_scores X b (ledger_of (view s))) rows"
    "get_standing (doc_redis (0, 1)) p b (quiet (view s)) =
      (case find (\<lambda>row. st_player row = p) rows of
         None \<Rightarrow> Inl ErrNotFound | Some row \<Rightarrow> Inr (row, int (length rows)), quiet (view s))"
    using doc_get_standing [OF assms(2)] by blast
  from qsim_result [OF redis_server.qsim_get_standing [OF assms(1)] rows(2)] rows(1) show ?thesis by blast
qed

lemma standing_of_player_witness:
  "\<exists>s'. get_standing mem_redis ''p1'' ''main'' (quiet demo_scored) = (Inr (demo_row, 1), quiet s')"
proof -
  have "st_player demo_row = ''p1''" by (simp add: demo_row_def)
  then show ?thesis
    using standing_of_player [OF mem_server demo_scored_world, of "''main''" "''p1''"]
    by (auto simp: demo_scores demo_ranking simp del: demo_scored_ledger)
qed

text \<open>
  C14. \<open>ListEventsAfter\<close> pages through the ledger by an exclusive cursor: the first \<open>limit\<close> events
  with a greater id, oldest first.
\<close>

theorem events_after_cursor:
  assumes "redis_server R view" and "world_inv X B (view s)"
    and "sid_ok after" and "after \<noteq> sid_max" and "0 < limit"
  shows "\<exists>s'. list_events_after X R (show_sid after) limit (quiet s) =
    (Inr (events_of X (take (nat limit) (filter (\<lambda>e. after < fst e) (ledger_of (view s))))), quiet s') \<and>
    view s' = view s"
  using qsim_result [OF redis_server.qsim_list_events_after [OF assms(1,3,4)]
      doc_list_events_after [OF assms(2-5)]] .

lemma events_after_cursor_witness:
  "\<exists>s'. list_events_after demo_ext mem_redis (show_sid (0, 0)) 5 (quiet demo_scored) =
    (Inr [event_of (1000, 0) event_set ''p1'' ''main'' 5 ''r1''], quiet s')"
proof -
  have "entry_to_event demo_ext (to_msg ((1000, 0), ledger_fields event_set ''p1'' ''main'' (format_int 5) ''r1'')) =
      Inr (event_of (1000, 0) event_set ''p1'' ''main'' 5 ''r1'')"
    by (rule entry_to_event_ledger) simp
  then show ?thesis
    using events_after_cursor [OF mem_server demo_scored_world, of "(0, 0)" 5]
    by (auto simp: sid_ok_def sid_max_def events_of_def)
qed

section \<open>Consumers\<close>

text \<open>
  C15. Both consumers catch up: after one pass per ten entries the history consumer has indexed, and
  the daily activity consumer has counted, every event after its cursor, once and in order, and the
  cursor stands at the end of the unchanged ledger.
\<close>

theorem consumers_catch_up:
  assumes "redis_server R view" and "cid = player_history_id \<or> cid = daily_activity_id" and "tail_ok X cid (view s)"
    and "length (ledger_of (view s)) \<le> tail_pos cid (view s) + 10 * k"
  shows "\<exists>s'. run_consumer (if cid = player_history_id then new_player_history_consumer X R else new_daily_activity_consumer X R)
      (replicate k awake) (quiet s) = (False, quiet s') \<and>
    tail_ok X cid (view s') \<and> ledger_of (view s') = ledger_of (view s) \<and>
    tail_pos cid (view s') = length (ledger_of (view s)) \<and>
    (let new = log_events (drop (tail_pos cid (view s)) (tail_log X (view s)))
     in if cid = player_history_id then history_content (view s') = fold history_fold new (history_content (view s))
        else daily_content (view s') = fold daily_fold new (daily_content (view s)))"
proof (cases "cid = player_history_id")
  case True
  then show ?thesis
    using ledger_server.history_catch_up [OF ledger_server.intro [OF assms(1)] _ refl] assms(3,4) by (simp add: Let_def)
next
  case False
  then have "cid = daily_activity_id" using assms(2) by simp
  with False show ?thesis
    using ledger_server.daily_catch_up [OF ledger_server.intro [OF assms(1)] _ refl] assms(3,4) by (simp add: Let_def)
qed

lemma consumers_catch_up_witness:
  "(\<exists>s'. run_consumer (new_player_history_consumer demo_ext mem_redis) [awake] (quiet demo_scored) = (False, quiet s') \<and>
      tail_pos player_history_id (m_keys s') = 1) \<and>
    (\<exists>s'. run_consumer (new_daily_activity_consumer demo_ext mem_redis) [awake] (quiet demo_scored) = (False, quiet s') \<and>
      tail_pos daily_activity_id (m_keys s') = 1)"
proof -
  have "daily_activity_id \<noteq> player_history_id" by (simp add: daily_activity_id_def player_history_id_def)
  then show ?thesis
    using consumers_catch_up [OF mem_server _ demo_scored_tail(1), of player_history_id 1]
      consumers_catch_up [OF mem_server _ demo_scored_tail(1), of daily_activity_id 1]
    by (auto simp: demo_scored_tail(2) Let_def)
qed

text \<open>
  C16. At least once, for the history view and for each day of the daily view: whatever the network
  does to its exchanges (requests and replies lost, pipelines cut part way), in every state that the
  loop of a consumer reaches from an empty cursor its view is the fold of a list of events of the
  ledger that holds every event up to the saved cursor as often as the ledger does: a batch may be
  applied again, but no event is lost and none is made up. In between, other clients take any steps,
  writes, rebuilds of any board and expiry included, as long as no second instance of the consumer
  runs, the day's own counters do not expire, and stream ids stay small enough to index.
\<close>

theorem consumers_at_least_once:
  assumes "redis_server R view"
    and "cid = player_history_id \<and> content = history_content \<and> fold_event = history_fold \<or>
      cid = daily_activity_id \<and> content = day_content d \<and> fold_event = day_fold d"
    and "others_do (beside X R view cid content) w" and "tail_ok X cid (view (srv w))"
    and "view (srv w) (consumer_cursor_key cid) = None"
    and "run_consumer (if cid = player_history_id then new_player_history_consumer X R else new_daily_activity_consumer X R)
      rds w = (stopped, w1)" and "ks = view (srv w1)"
  shows "world_inv X {} ks \<and>
    (\<exists>evs. mset (log_events (take (tail_pos cid ks) (tail_log X ks))) \<subseteq># mset evs \<and>
      set evs \<subseteq> set (events_of X (ledger_of ks)) \<and> content ks = fold fold_event evs (content (view (srv w))))"
proof -
  note L = ledger_server.intro [OF assms(1)]
  have start: "tail_inv X cid (view (srv w))" using assms(4,5) by (rule tail_inv_start)
  have "tail_pos cid (view (srv w)) = 0" using assms(4,5) by (rule tail_pos_start)
  with start have kept: "tail_inv X cid (view (srv w)) \<and> delivered X cid content fold_event (content (view (srv w))) (view (srv w))"
    by (simp add: delivered_start)
  have ne: "daily_activity_id \<noteq> player_history_id" by (simp add: daily_activity_id_def player_history_id_def)
  from assms(2) have "tail_inv X cid ks \<and> delivered X cid content fold_event (content (view (srv w))) ks"
  proof
    assume c: "cid = player_history_id \<and> content = history_content \<and> fold_event = history_fold"
    show ?thesis
      using ledger_server.history_rounds [OF L, of X w "content (view (srv w))" rds stopped w1] assms(3,6) kept
      by (simp add: c assms(7))
  next
    assume c: "cid = daily_activity_id \<and> content = day_content d \<and> fold_event = day_fold d"
    show ?thesis
      using ledger_server.daily_rounds [OF L, of X d w "content (view (srv w))" rds stopped w1] assms(3,6) kept ne
      by (simp add: c assms(7))
  qed
  then show ?thesis by (auto simp: tail_inv_def tail_ok_def delivered_def behind_def log_events_ledger)
qed

lemma consumers_at_least_once_witness:
  "\<exists>ks evs. ks = m_keys (srv (snd (run_consumer (new_daily_activity_consumer demo_ext mem_redis) [awake, awake] lossy))) \<and>
    set evs \<subseteq> set (events_of demo_ext (ledger_of ks)) \<and>
    day_content ''1970-01-01'' ks = fold (day_fold ''1970-01-01'') evs (\<lambda>_. Map.empty)"
proof -
  have ne: "daily_activity_id \<noteq> player_history_id" by (simp add: daily_activity_id_def player_history_id_def)
  obtain stopped w1 where run: "run_consumer (new_daily_activity_consumer demo_ext mem_redis) [awake, awake] lossy = (stopped, w1)"
    by fastforce
  from consumers_at_least_once [OF mem_server _ _ _ _ _ refl, of daily_activity_id "day_content ''1970-01-01''" "day_fold ''1970-01-01''"
      "''1970-01-01''" demo_ext lossy "[awake, awake]" stopped w1]
  show ?thesis using run lossy_start demo_scored_tail(1) demo_scored_day ne by auto
qed

text \<open>
  C17. End to end, from a disturbed start: a fresh history consumer runs any number of rounds on a
  network that loses messages, beside other clients (which may do anything but run the consumer a
  second time); once the network is quiet, one pass per ten
  entries is enough, and \<open>PlayerHistory\<close> returns exactly the newest \<open>limit\<close> events of the player on
  the board, newest first, for ids below \<open>2^41\<close> milliseconds and 4096 entries a millisecond and player
  ids without a colon.
\<close>

theorem history_after_catch_up:
  assumes "redis_server R view" and "others_do (beside X R view player_history_id history_content) w"
    and "tail_ok X player_history_id (view (srv w))"
    and "view (srv w) (consumer_cursor_key player_history_id) = None"
    and "history_content (view (srv w)) = (\<lambda>_. Map.empty)"
    and "run_consumer (new_player_history_consumer X R) rds w = (stopped, w1)" and "srv w1 = s"
    and "length (ledger_of (view s)) \<le> 10 * k" and "0 < limit"
    and "\<forall>e \<in> set (ledger_of (view s)). sid_small (fst e)"
    and "CHR '':'' \<notin> set p" and "\<forall>e \<in> set (ledger_of (view s)). CHR '':'' \<notin> set (ev_player (decoded X e))"
  shows "\<exists>s1 s2. run_consumer (new_player_history_consumer X R) (replicate k awake) (quiet s) = (False, quiet s1) \<and>
    player_history X R p b limit (quiet s1) =
      (Inr (take (nat limit) (rev (filter (\<lambda>e. ev_player e = p \<and> ev_board e = b)
        (events_of X (ledger_of (view s)))))), quiet s2) \<and> view s2 = view s1"
proof -
  note L = ledger_server.intro [OF assms(1)]
  have "delivered X player_history_id history_content history_fold (\<lambda>_. Map.empty) (view (srv w))"
    using assms(5) tail_pos_start [OF assms(3,4)] by (rule delivered_start [rotated])
  with tail_inv_start [OF assms(3,4)] ledger_server.history_rounds [OF L assms(2) _ assms(6)]
  have "tail_inv X player_history_id (view s)"
    "delivered X player_history_id history_content history_fold (\<lambda>_. Map.empty) (view s)"
    by (simp_all add: assms(7))
  from ledger_server.history_settles [OF L this refl assms(8)] obtain s1 where
    s1: "run_consumer (new_player_history_consumer X R) (replicate k awake) (quiet s) = (False, quiet s1)"
      "world_inv X {} (view s1)" "ledger_of (view s1) = ledger_of (view s)" "indexed X (view s1)" by blast
  have "\<forall>e \<in> set (ledger_of (view s)). \<exists>ev. entry_to_event X (to_msg e) = Inr ev"
    using s1(2,3) by (auto simp: world_inv_def store_inv_def ledger_inv_def ledger_sound_def)
  note rows = entries_for_events [OF this, of p b]
  from redis_server.player_history_pointed [OF assms(1) s1(2,4) assms(9), of p b] assms(10-12) s1(1,3) rows
  show ?thesis by auto
qed

lemma history_after_catch_up_witness:
  "\<exists>s1 s2. run_consumer (new_player_history_consumer demo_ext mem_redis) [awake] (quiet demo_scored) = (False, quiet s1) \<and>
    player_history demo_ext mem_redis ''p1'' ''main'' 10 (quiet s1) =
      (Inr [event_of (1000, 0) event_set ''p1'' ''main'' 5 ''r1''], quiet s2)"
proof -
  let ?w = "\<lparr>srv = demo_scored, net = [Xch [id] (Some 0)]\<rparr>"
  have run: "run_consumer (new_player_history_consumer demo_ext mem_redis) [awake] ?w = (False, quiet demo_scored)"
    by (rule lost_request) (simp add: new_player_history_consumer_def)
  have "others_do (beside demo_ext mem_redis m_keys player_history_id history_content) ?w"
    by (simp add: others_do_def beside_def)
  from history_after_catch_up [OF mem_server this, of "[awake]" False "quiet demo_scored" demo_scored 1 10 "''p1''" "''main''"]
  show ?thesis
    using run demo_scored_tail(1) lossy_start(3) demo_scored_contents(1) demo_scored_decoded
    by (auto simp: sid_small_def demo_scored_events [simplified])
qed

text \<open>
  C18. End to end: once a fresh daily activity consumer has run through the ledger,
  \<open>ListDailyActivity\<close> returns the first rows of the day's players by descending number of events.
\<close>

theorem activity_after_catch_up:
  assumes "redis_server R view" and "tail_ok X daily_activity_id (view s)"
    and "tail_pos daily_activity_id (view s) = 0" and "daily_content (view s) = (\<lambda>_. Map.empty)"
    and "length (ledger_of (view s)) \<le> 10 * k" and "length (ledger_of (view s)) \<le> 2 ^ 53" and "0 < limit"
  shows "\<exists>s1 s2 rows. run_consumer (new_daily_activity_consumer X R) (replicate k awake) (quiet s) = (False, quiet s1) \<and>
    is_activity (day_count (events_of X (ledger_of (view s))) d) rows \<and>
    list_daily_activity R d limit (quiet s1) = (Inr (take (nat limit) rows), quiet s2) \<and> view s2 = view s1"
proof -
  obtain s1 where s1: "run_consumer (new_daily_activity_consumer X R) (replicate k awake) (quiet s) = (False, quiet s1)"
    "tail_ok X daily_activity_id (view s1)" "ledger_of (view s1) = ledger_of (view s)"
    "daily_content (view s1) = fold daily_fold (log_events (drop (tail_pos daily_activity_id (view s)) (tail_log X (view s))))
        (daily_content (view s))"
    using ledger_server.daily_catch_up [OF ledger_server.intro [OF assms(1)] assms(2) refl, of k] assms(3,5) by auto
  have cnt: "counted X (view s1)" by (rule counted_after [OF s1(4) assms(3,4) s1(3)])
  have inv: "world_inv X {} (view s1)" using s1(2) by (simp add: tail_ok_def)
  obtain rows where rows: "is_activity (day_count (events_of X (ledger_of (view s))) d) rows"
    "list_daily_activity (doc_redis (0, 1)) d limit (quiet (view s1)) = (Inr (take (nat limit) rows), quiet (view s1))"
    using doc_list_daily_activity [OF inv cnt _ assms(7), of d "(0, 1)"] assms(6) s1(3) by auto
  from qsim_result [OF redis_server.qsim_list_daily [OF assms(1)] rows(2)] rows(1) s1(1) show ?thesis by blast
qed

lemma activity_after_catch_up_witness:
  "\<exists>s1 s2 rows. is_activity (day_count [event_of (1000, 0) event_set ''p1'' ''main'' 5 ''r1''] ''1970-01-01'') rows \<and>
    list_daily_activity mem_redis ''1970-01-01'' 10 (quiet s1) = (Inr (take 10 rows), quiet s2)"
  using activity_after_catch_up [OF mem_server demo_scored_tail(1) demo_scored_tail(2) demo_scored_contents(2), of 1 10 "''1970-01-01''"]
  by (auto simp: demo_scored_events simp del: demo_scored_ledger) (simp, blast)

text \<open>
  C19. After the same disturbance of the daily activity consumer, \<open>ListDailyActivity\<close> never counts a
  day too low as long as the day's counters do not expire meanwhile (other days' may): each player's
  count is at least the number of the player's events on the day (repeated batches may inflate it), and
  the players listed are exactly those with events.
\<close>

theorem activity_under_network:
  assumes "redis_server R view" and "others_do (beside X R view daily_activity_id (day_content d)) w"
    and "tail_ok X daily_activity_id (view (srv w))"
    and "view (srv w) (consumer_cursor_key daily_activity_id) = None"
    and "day_content d (view (srv w)) = (\<lambda>_. Map.empty)"
    and "run_consumer (new_daily_activity_consumer X R) rds w = (stopped, w1)" and "srv w1 = s"
    and "length (ledger_of (view s)) \<le> 10 * k" and "length (ledger_of (view s)) \<le> 2 ^ 53" and "0 < limit"
  shows "\<exists>s1 s2 rows counts. run_consumer (new_daily_activity_consumer X R) (replicate k awake) (quiet s) = (False, quiet s1) \<and>
    list_daily_activity R d limit (quiet s1) = (Inr (take (nat limit) rows), quiet s2) \<and> view s2 = view s1 \<and>
    is_activity counts rows \<and>
    (\<forall>p. day_count (events_of X (ledger_of (view s))) d p \<le> counts p \<and>
      (counts p = 0 \<longleftrightarrow> day_count (events_of X (ledger_of (view s))) d p = 0))"
proof -
  note L = ledger_server.intro [OF assms(1)]
  let ?true = "day_count (events_of X (ledger_of (view s))) d"
  have "delivered X daily_activity_id (day_content d) (day_fold d) (\<lambda>_. Map.empty) (view (srv w))"
    using assms(5) tail_pos_start [OF assms(3,4)] by (rule delivered_start [rotated])
  with tail_inv_start [OF assms(3,4)] ledger_server.daily_rounds [OF L assms(2) _ assms(6)]
  have "tail_inv X daily_activity_id (view s)"
    "delivered X daily_activity_id (day_content d) (day_fold d) (\<lambda>_. Map.empty) (view s)"
    by (simp_all add: assms(7))
  from ledger_server.daily_settles [OF L this refl assms(8)] obtain s1 evs where
    s1: "run_consumer (new_daily_activity_consumer X R) (replicate k awake) (quiet s) = (False, quiet s1)"
      "world_inv X {} (view s1)" "mset (events_of X (ledger_of (view s))) \<subseteq># mset evs"
      "set evs = set (events_of X (ledger_of (view s)))"
      "day_content d (view s1) = fold (day_fold d) evs (\<lambda>_. Map.empty)" by blast
  let ?counts = "\<lambda>p. min (day_count evs d p) (2 ^ 53)"
  from doc_daily_rows [OF s1(2,5) assms(10), of "(0, 1)"] obtain rows where rows: "is_activity ?counts rows"
    "list_daily_activity (doc_redis (0, 1)) d limit (quiet (view s1)) = (Inr (take (nat limit) rows), quiet (view s1))" by blast
  from qsim_result [OF redis_server.qsim_list_daily [OF assms(1)] rows(2)] obtain s2 where
    s2: "list_daily_activity R d limit (quiet s1) = (Inr (take (nat limit) rows), quiet s2)" "view s2 = view s1" by blast
  have len: "length (events_of X (ledger_of (view s))) \<le> length (ledger_of (view s))"
    using length_batch [of "tail_log X (view s)"] unfolding log_events_ledger by (simp add: tail_log_def)
  have "?true p \<le> ?counts p \<and> (?counts p = 0 \<longleftrightarrow> ?true p = 0)" for p
  proof -
    have "?true p \<le> 2 ^ 53"
      using day_count_le [of "events_of X (ledger_of (view s))" d p] len assms(9) by simp
    moreover have "day_count evs d p = 0 \<longleftrightarrow> ?true p = 0"
      using day_count_pos [of evs d p] day_count_pos [of "events_of X (ledger_of (view s))" d p] s1(4) by (metis not_gr_zero)
    ultimately show ?thesis using day_count_mset [OF s1(3), of d p] by (auto simp: min_def)
  qed
  with s1(1) s2 rows(1) show ?thesis by blast
qed

lemma activity_under_network_witness:
  "\<exists>s1 s2 rows counts. run_consumer (new_daily_activity_consumer demo_ext mem_redis) [awake] (quiet demo_scored) = (False, quiet s1) \<and>
    list_daily_activity mem_redis (format_date (ev_created (event_of (1000, 0) event_set ''p1'' ''main'' 5 ''r1''))) 10 (quiet s1) =
      (Inr (take 10 rows), quiet s2) \<and> is_activity counts rows \<and> 0 < counts ''p1''"
proof -
  let ?d = "format_date (ev_created (event_of (1000, 0) event_set ''p1'' ''main'' 5 ''r1''))"
  let ?w = "\<lparr>srv = demo_scored, net = [Xch [id] (Some 0)]\<rparr>"
  have run: "run_consumer (new_daily_activity_consumer demo_ext mem_redis) [awake] ?w = (False, quiet demo_scored)"
    by (rule lost_request) (simp add: new_daily_activity_consumer_def)
  have "others_do (beside demo_ext mem_redis m_keys daily_activity_id (day_content ?d)) ?w"
    by (simp add: others_do_def beside_def)
  from activity_under_network [OF mem_server this, of "[awake]" False "quiet demo_scored" demo_scored 1 10]
  obtain s1 s2 rows counts where
    "run_consumer (new_daily_activity_consumer demo_ext mem_redis) (replicate 1 awake) (quiet demo_scored) = (False, quiet s1)"
    "list_daily_activity mem_redis ?d 10 (quiet s1) = (Inr (take (nat 10) rows), quiet s2)" "is_activity counts rows"
    "\<forall>p. day_count (events_of demo_ext (ledger_of (m_keys demo_scored))) ?d p \<le> counts p \<and>
      (counts p = 0 \<longleftrightarrow> day_count (events_of demo_ext (ledger_of (m_keys demo_scored))) ?d p = 0)"
    using run demo_scored_tail(1) lossy_start(3) demo_scored_day by auto
  note r = this
  have "(counts ''p1'' = 0) = (day_count (events_of demo_ext (ledger_of (m_keys demo_scored))) ?d ''p1'' = 0)" using r(4) by blast
  then have "0 < counts ''p1''"
    by (simp add: demo_scored_events del: demo_scored_ledger split: if_splits)
  with r(1-3) show ?thesis by (intro exI [of _ s1] exI [of _ s2] exI [of _ rows] exI [of _ counts]) simp
qed

section \<open>Boards and players\<close>

text \<open>
  C20. \<open>CreateBoard\<close> stores a new board, which then reads back with its creation time cut to
  milliseconds, and enters it in the registry, which gains this id, scored by the creation second, and
  nothing else; all other boards read as before and every invariant is kept. The id of a stored board is
  refused and nothing changes.
\<close>

theorem board_round_trip:
  assumes "redis_server R view" and "world_inv X UNIV (view s)"
    and "board_state_validate (bd_state bd)" and "in_years (bd_created bd)"
  shows "\<exists>s'. if view s (board_profile_key (bd_id bd)) \<noteq> None
    then create_board R bd (quiet s) = (Inl ErrBoardExists, quiet s') \<and> view s' = view s
    else create_board R bd (quiet s) = (Inr (), quiet s') \<and> world_inv X UNIV (view s') \<and>
      mset (board_index (view s')) =
        add_mset (f64_of_int (unix_sec (bd_created bd)), bd_id bd) (mset (board_index (view s))) \<and>
      (\<forall>b. \<exists>s2. get_board R b (quiet s') =
        (if b = bd_id bd then Inr (bd\<lparr>bd_created := trunc_ms (bd_created bd)\<rparr>)
         else fst (get_board R b (quiet s)), quiet s2) \<and> view s2 = view s')"
proof -
  have reg: "registry_inv (view s)" using assms(2) by (simp add: world_inv_def)
  note doc = doc_create_board [OF reg assms(3), of "(0, 1)"]
  note run = qsim_result [OF redis_server.qsim_create_board [OF assms(1), of bd "(0, 1)"]]
  show ?thesis
  proof (cases "view s (board_profile_key (bd_id bd)) = None")
    case False
    with doc run show ?thesis by auto
  next
    case True
    then have "create_board (doc_redis (0, 1)) bd (quiet (view s)) = (Inr (), quiet (board_created bd (view s)))"
      using doc by simp
    from run [OF this] obtain s' where
      s': "create_board R bd (quiet s) = (Inr (), quiet s')" "view s' = board_created bd (view s)" by blast
    have reg': "registry_inv (view s')" using board_created_registry [OF reg assms(3,4)] s' True by simp
    have "\<exists>s2. get_board R b (quiet s') =
        (if b = bd_id bd then Inr (bd\<lparr>bd_created := trunc_ms (bd_created bd)\<rparr>)
         else fst (get_board R b (quiet s)), quiet s2) \<and> view s2 = view s'" for b
      using qsim_result [OF redis_server.qsim_get_board [OF assms(1)] doc_get_board [OF reg', of "(0, 1)" b]]
        qsim_result [OF redis_server.qsim_get_board [OF assms(1)] doc_get_board [OF reg, of "(0, 1)" b]]
        stored_board_created [OF assms(3,4), of "view s" b] s'(2)
      by auto
    moreover have "world_inv X UNIV (view s')" using board_created_world [OF assms(2-4)] s' True by simp
    moreover have "mset (board_index (view s')) =
        add_mset (f64_of_int (unix_sec (bd_created bd)), bd_id bd) (mset (board_index (view s)))"
      using board_index_gains [OF reg True] by (simp add: s'(2) del: board_index_created)
    ultimately show ?thesis using s'(1) True by auto
  qed
qed

lemma board_round_trip_witness:
  "(\<exists>s s' s2 :: mem. create_board mem_redis demo_board (quiet s) = (Inr (), quiet s') \<and>
      get_board mem_redis ''main'' (quiet s') = (Inr (demo_board\<lparr>bd_created := trunc_ms demo_time\<rparr>), quiet s2)) \<and>
    (\<exists>s'. create_board mem_redis demo_closed (quiet demo) = (Inl ErrBoardExists, quiet s') \<and> m_keys s' = demo_keys)"
proof -
  let ?s = "\<lparr>m_keys = Map.empty, m_clock = 1\<rparr>"
  have "world_inv demo_ext UNIV (m_keys ?s)" by (simp add: world_inv_empty)
  from board_round_trip [OF mem_server this, of demo_board]
  obtain s' where s': "create_board mem_redis demo_board (quiet ?s) = (Inr (), quiet s')"
    "\<forall>b. \<exists>s2. get_board mem_redis b (quiet s') =
      (if b = bd_id demo_board then Inr (demo_board\<lparr>bd_created := trunc_ms (bd_created demo_board)\<rparr>)
       else fst (get_board mem_redis b (quiet ?s)), quiet s2) \<and> m_keys s2 = m_keys s'" by auto
  from spec [OF s'(2), of "''main''"]
  have "\<exists>s2. get_board mem_redis ''main'' (quiet s') = (Inr (demo_board\<lparr>bd_created := trunc_ms demo_time\<rparr>), quiet s2)"
    by auto
  with s'(1) board_round_trip [OF mem_server, of demo_ext demo demo_closed] show ?thesis by auto
qed

text \<open>
  C21. \<open>ListBoards\<close> lists every stored board once, in the order of the registry.
\<close>

theorem boards_listed_once:
  assumes "redis_server R view" and "world_inv X UNIV (view s)"
  shows "\<exists>bs s'. list_boards R (quiet s) = (Inr bs, quiet s') \<and> view s' = view s \<and>
    distinct (map bd_id bs) \<and> map bd_id bs = map snd (board_index (view s)) \<and>
    (\<forall>bd. bd \<in> set bs \<longleftrightarrow> stored_board (view s) (bd_id bd) = Some bd)"
proof -
  have reg: "registry_inv (view s)" using assms(2) by (simp add: world_inv_def)
  let ?bs = "map (\<lambda>b. the (stored_board (view s) b)) (map snd (board_index (view s)))"
  from qsim_result [OF redis_server.qsim_list_boards [OF assms(1)] doc_list_boards [OF reg]]
  obtain s' where "list_boards R (quiet s) = (Inr ?bs, quiet s')" "view s' = view s" by blast
  with stored_boards_listed [OF reg] show ?thesis by (intro exI [of _ ?bs] exI [of _ s']) simp
qed

lemma boards_listed_once_witness:
  "\<exists>bs s'. list_boards mem_redis (quiet demo) = (Inr bs, quiet s') \<and> distinct (map bd_id bs)"
  using boards_listed_once [OF mem_server, of demo_ext demo] by auto

text \<open>
  C22. Creating a player is idempotent under its key: the first call stores the profile and returns
  its id, a retry with the same key and name returns that id and stores nothing, whatever new id it
  carries, and a retry with another name is refused.
\<close>

theorem player_creation_idempotent:
  assumes "redis_server R view" and "world_inv X UNIV (view s)" and "idem \<noteq> []"
    and "in_years (pf_created pf)" and "CHR ''|'' \<notin> set (pf_id pf)"
    and "view s (player_profile_key (pf_id pf)) = None" and "map_of (player_records (view s)) idem = None"
  shows "\<exists>s1 s2. create_player_profile R pf idem (quiet s) = (Inr (pf_id pf), quiet s1) \<and>
    stored_player (view s1) (pf_id pf) = Some (pf\<lparr>pf_created := trunc_ms (pf_created pf)\<rparr>) \<and>
    create_player_profile R pf' idem (quiet s1) =
      (if pf_name pf' = pf_name pf then Inr (pf_id pf) else Inl ErrIdempotencyConflict, quiet s2) \<and>
    view s2 = view s1"
proof -
  have inv: "players_inv (view s)" using assms(2) by (simp add: world_inv_def)
  let ?ks = "player_created pf idem (view s)"
  have "create_player_profile (doc_redis (0, 1)) pf idem (quiet (view s)) = (Inr (pf_id pf), quiet ?ks)"
    using doc_create_player [OF inv] assms(3,6,7) by (simp add: player_decide_def)
  from qsim_result [OF redis_server.qsim_create_player [OF assms(1)] this]
  obtain s1 where s1: "create_player_profile R pf idem (quiet s) = (Inr (pf_id pf), quiet s1)" "view s1 = ?ks" by blast
  have inv1: "players_inv (view s1)" unfolding s1 by (rule player_created_inv [OF inv assms(6,4,5)])
  have "create_player_profile (doc_redis (0, 1)) pf' idem (quiet (view s1)) =
      (if pf_name pf' = pf_name pf then Inr (pf_id pf) else Inl ErrIdempotencyConflict, quiet (view s1))"
    using doc_create_player [OF inv1, of "(0, 1)" pf' idem] player_decide_created [OF assms(3,5), of "view s" pf']
    by (simp add: s1(2))
  from qsim_result [OF redis_server.qsim_create_player [OF assms(1)] this] s1 stored_player_created [OF assms(4)]
  show ?thesis by auto
qed

lemma player_creation_idempotent_witness:
  "\<exists>s1 s2. create_player_profile mem_redis (demo_player\<lparr>pf_id := ''p2''\<rparr>) ''k2'' (quiet demo) = (Inr ''p2'', quiet s1) \<and>
    create_player_profile mem_redis (demo_player\<lparr>pf_id := ''p3''\<rparr>) ''k2'' (quiet s1) = (Inr ''p2'', quiet s2)"
  using player_creation_idempotent [OF mem_server, of demo_ext demo "''k2''" "demo_player\<lparr>pf_id := ''p2''\<rparr>" "demo_player\<lparr>pf_id := ''p3''\<rparr>"]
  by (auto simp: demo_keys_player demo_records)

section \<open>Encodings\<close>

text \<open>
  C23. Instants of the years 0 to 9999 survive the stored text to the millisecond: parsing the
  formatted instant returns it cut to milliseconds, and so does the JSON wrapper.
\<close>

theorem time_round_trip:
  assumes "in_years t"
  shows "parse_time (format_time t) = Some (trunc_ms t) \<and> unmarshal_json (marshal_json t) = Some (trunc_ms t)"
  using parse_format_time_lemma [OF assms] json_round_trip [OF assms] by (simp add: trunc_ms_def)

lemma time_round_trip_witness: "parse_time (format_time demo_time) = Some demo_time"
  using time_round_trip [OF demo_in_years] by (simp add: trunc_ms_def demo_time_def day_ns_def)

text \<open>
  C24. A ledger entry written by the score script decodes to the event it was written for, with the
  id the server gave it and the time that id carries.
\<close>

theorem ledger_entry_round_trip:
  assumes "writable X op p b n rq" and "fst i < 2 ^ 63"
  shows "entry_to_event X (to_msg (i, ledger_fields op p b (format_int n) rq)) = Inr (event_of i op p b n rq) \<and>
    ev_created (event_of i op p b n rq) = from_unix_milli (int (fst i))"
  using entry_to_event_ledger [OF assms(1)] event_time_sid [OF assms(2)] by (simp add: event_of_def)

lemma ledger_entry_round_trip_witness:
  "entry_to_event demo_ext (to_msg ((1000, 0), ledger_fields event_set ''p1'' ''main'' (format_int 5) ''r1'')) =
    Inr (event_of (1000, 0) event_set ''p1'' ''main'' 5 ''r1'')"
  using ledger_entry_round_trip [of demo_ext event_set "''p1''" "''main''" 5 "''r1''" "(1000, 0)"] by simp

section \<open>The HTTP interface\<close>

text \<open>
  C25. A request that a handler refuses with 400 or 413 has had no effect: no handler of the service
  sends anything to the server before all its request checks have passed.
\<close>

theorem refused_requests_have_no_effect:
  "pure_on_request_error (handle_set_score H X R fresh rq) \<and>
   pure_on_request_error (handle_increment_score H X R fresh rq) \<and>
   pure_on_request_error (handle_get_rank X R rq) \<and>
   pure_on_request_error (handle_list_scores H X R now rq) \<and>
   pure_on_request_error (handle_get_history H X R rq) \<and>
   pure_on_request_error (handle_list_events H X R rq) \<and>
   pure_on_request_error (handle_create_board H X R now rq) \<and>
   pure_on_request_error (handle_get_board X R rq) \<and>
   pure_on_request_error (handle_list_boards R rq) \<and>
   pure_on_request_error (handle_close_board X R rq) \<and>
   pure_on_request_error (handle_open_board X R rq) \<and>
   pure_on_request_error (handle_create_player H X R fresh now rq) \<and>
   pure_on_request_error (handle_get_player X R rq) \<and>
   pure_on_request_error (handle_rebuild_projection X R rq) \<and>
   pure_on_request_error (handle_verify_projection X R rq) \<and>
   pure_on_request_error (handle_list_daily_activity H R rq)"
  by (simp add: handlers_pure)

text \<open>
  C26. The status of a score write that passes its request checks is that of the decision: 204 when
  the write was applied or is a repetition under its idempotency key, 404 for an unknown player or
  board, 409 for a closed board, a reused key or a score out of range; and only an applied write
  changes the store.
\<close>

theorem score_write_status:
  assumes "redis_server R view" and "world_inv X UNIV (view s)" and "ids_nonempty X" and "fresh \<noteq> []"
    and "op = event_set \<or> op = event_increment"
    and "accepts_write H X (write_field op) rq b p idem n"
    and "last_sid (ledger_of (view s)) < sid_max"
  shows "\<exists>r s'. handle_write op H X R fresh rq (quiet s) = (Some r, quiet s') \<and>
    rs_status r = status_of (decide (board_scores X b (ledger_of (view s))) (view s) op p b n idem) \<and>
    (if decide (board_scores X b (ledger_of (view s))) (view s) op p b n idem = None
     then wrote X op p b n (request_id fresh rq) idem (view s) (view s') else view s' = view s)"
  by (rule redis_server.write_status [OF assms])

lemma score_write_status_witness:
  "\<exists>r s'. handle_write event_set demo_http demo_ext mem_redis ''u'' (demo_request Map.empty) (quiet demo) = (Some r, quiet s') \<and>
    rs_status r = 204"
  using score_write_status [OF mem_server, of demo_ext demo "''u''" event_set demo_http "demo_request Map.empty" "''main''" "''p1''" "[]" 5]
  by (auto simp: status_of_def)

text \<open>
  C27. The score endpoints keep the invariant whatever the request, the network does to the exchange,
  and whatever steps other clients take around it, rebuilds of the boards in \<open>U\<close> included (of these the
  invariant says nothing but that their entries decode and a sorted set is stored), as long as stream
  ids do not run out.
\<close>

theorem score_handlers_keep_invariant:
  assumes "redis_server R view" and "ids_nonempty X" and "fresh \<noteq> []"
    and "op = event_set \<or> op = event_increment"
    and "others_do (clients X R view U) w" and "world_inv X (- U) (view (srv w))" and "room (view (srv w))"
  shows "world_inv X (- U) (view (srv (snd (handle_write op H X R fresh rq w))))"
proof (rule handle_write_cases [OF assms(4), of H X R fresh rq])
  fix e assume "handle_write op H X R fresh rq = answer (write_request_error e)"
  then show ?thesis using assms(6) by simp
next
  fix b p idem n assume acc: "accepts_write H X (write_field op) rq b p idem n"
  let ?m = "apply_event R op p b n (request_id fresh rq) idem"
  obtain r w' where run: "?m w = (r, w')" by fastforce
  have "world_inv X (- U) (view (srv w)) \<and> room (view (srv w))" using assms(6,7) by simp
  note t = tripleD [OF redis_server.triple_apply_event [OF assms(1) accepts_writable [OF acc assms(2-4)]] assms(5) this run]
  have "world_inv X (- U) (view (srv w'))" using t(2,3) by (cases r) auto
  then show ?thesis by (simp add: handle_write_accepted [OF acc assms(4)] snd_stored run)
qed

lemma score_handlers_keep_invariant_witness:
  "world_inv demo_ext (- {''old''}) (m_keys (srv (snd (handle_write event_increment demo_http demo_ext mem_redis ''u''
    (demo_request Map.empty) \<lparr>srv = demo, net = [Xch [id] (Some 0)]\<rparr>))))"
  by (rule score_handlers_keep_invariant [OF mem_server])
    (simp_all add: others_do_def clients_def room_def)

text \<open>
  C28. The event feed is complete: a client that starts at \<open>0-0\<close> and follows \<open>next_after\<close> over enough
  pages receives every event of the ledger exactly once, in order.
\<close>

theorem event_feed_complete:
  assumes "redis_server R view" and "world_inv X B (view s)" and "asks H limit rq"
    and "last_sid (ledger_of (view s)) < sid_max"
    and "length (ledger_of (view s)) \<le> k * nat limit"
  shows "follow (\<lambda>c. handle_list_events H X R (rq c)) k (show_sid (0, 0)) (quiet s) =
    map score_event_from_ledger (events_of X (ledger_of (view s)))"
proof -
  have "stream_ok (ledger_of (view s))"
    using assms(2) by (simp add: world_inv_def store_inv_def ledger_inv_def ledger_sound_def)
  then have "filter (\<lambda>e. (0, 0) < fst e) (ledger_of (view s)) = ledger_of (view s)"
    by (intro filter_eq_self) (auto simp: stream_ok_def)
  moreover have "sid_ok (0, 0)" "(0, 0) < sid_max" by (simp_all add: sid_ok_def sid_max_def)
  ultimately show ?thesis
    using redis_server.follow_feed [OF assms(1-3) _ _ assms(4), of "(0, 0)" k] assms(5) by simp
qed

lemma event_feed_complete_witness:
  "follow (\<lambda>c. handle_list_events demo_http demo_ext mem_redis (demo_request [after_query \<mapsto> [c]])) 3
     (show_sid (0, 0)) (quiet demo_scored) =
    [score_event_from_ledger (event_of (1000, 0) event_set ''p1'' ''main'' 5 ''r1'')]"
  using event_feed_complete [OF mem_server demo_scored_world demo_asks, of 3]
  by (simp add: demo_scored_events del: demo_scored_ledger) simp

text \<open>
  C29. The leaderboard of a past day: a date after today is refused, any other date of the years
  from 1970 on gives the page of the board as it stood at the end of that UTC day.
\<close>

theorem leaderboard_of_a_day:
  assumes "redis_server R view" and "world_inv X UNIV (view s)"
    and "board_id_from_path X rq = Inr b"
    and "parse_int_query H rq limit_query default_list_limit 1 max_list_limit = Inr limit"
    and "parse_int_query H rq offset_query 0 0 0 = Inr offset"
    and "rq_query rq as_of_query \<noteq> None" and "parse_date_query rq as_of_query = Inr date"
    and "0 < limit" and "0 \<le> offset" and "offset + limit < 2 ^ 63"
    and "0 \<le> date" and "unix_milli (date + day_ns) < 2 ^ 63"
  shows "\<exists>s'. view s' = view s \<and>
    (if start_of_day now < date
     then \<exists>r. handle_list_scores H X R now rq (quiet s) = (Some r, quiet s') \<and> rs_status r = 400
     else \<exists>rows. is_ranking (board_scores X b (entries_before (date + day_ns) (ledger_of (view s)))) rows \<and>
       handle_list_scores H X R now rq (quiet s) =
         (Some (list_scores_resp limit offset (slice (nat offset) (nat (offset + limit)) rows, int (length rows))), quiet s'))"
proof -
  have pos: "0 < unix_milli (date + day_ns)"
    using assms(11) by (simp add: unix_milli_def day_ns_def pos_imp_zdiv_pos_iff)
  obtain rows where rows: "is_ranking (board_scores X b (entries_before (date + day_ns) (ledger_of (view s)))) rows"
    "list_standings_as_of X (doc_redis (0, 1)) b (date + day_ns) limit offset (quiet (view s)) =
      (Inr (slice (nat offset) (nat (offset + limit)) rows, int (length rows)), quiet (view s))"
    using doc_standings_as_of [OF world_ledger(1) [OF assms(2)] world_ledger(2) [OF assms(2) UNIV_I] assms(8-10) pos assms(12),
        of b "(0, 1)"] by auto
  from qsim_result [OF redis_server.qsim_as_of [OF assms(1) pos assms(12)] rows(2)] obtain s' where
    s': "list_standings_as_of X R b (date + day_ns) limit offset (quiet s) =
      (Inr (slice (nat offset) (nat (offset + limit)) rows, int (length rows)), quiet s')" "view s' = view s" by blast
  show ?thesis
  proof (cases "start_of_day now < date")
    case True
    then show ?thesis
      using assms(3-7) by (intro exI [of _ s]) (auto simp: handle_list_scores_def write_request_error_def)
  next
    case False
    then have "handle_list_scores H X R now rq (quiet s) =
        (Some (list_scores_resp limit offset (slice (nat offset) (nat (offset + limit)) rows, int (length rows))), quiet s')"
      using assms(3-7) s'(1) by (auto simp: handle_list_scores_def stored_run(2))
    with False rows(1) s'(2) show ?thesis by (intro exI [of _ s']) auto
  qed
qed

lemma leaderboard_of_a_day_witness:
  "\<exists>s' rows. is_ranking (board_scores demo_ext ''main'' (entries_before (demo_time + day_ns) (ledger_of (m_keys demo_scored)))) rows \<and>
    handle_list_scores demo_http demo_ext mem_redis demo_time
      (demo_request [as_of_query \<mapsto> [format_date demo_time]]) (quiet demo_scored) =
    (Some (list_scores_resp 10 0 (slice 0 10 rows, int (length rows))), quiet s')"
proof -
  have "\<not> start_of_day demo_time < demo_time" "0 \<le> demo_time" "unix_milli (demo_time + day_ns) < 2 ^ 63"
    by (simp_all add: start_of_day_def demo_time_def day_ns_def unix_milli_def)
  then show ?thesis
    using leaderboard_of_a_day [OF mem_server demo_scored_world, of "demo_request [as_of_query \<mapsto> [format_date demo_time]]"
        "''main''" demo_http 10 0 demo_time demo_time]
    by (auto simp: default_list_limit_def simp del: demo_scored_ledger)
qed

text \<open>
  C30. Through the whole service (routing, path values, request id, handlers, storage): a \<open>PUT\<close> of a
  score that the store accepts answers 204, and a following \<open>GET\<close> of the same path answers 200 with
  that score for that player. Both requests see the same clock reading and generated id.
\<close>

theorem put_score_then_get_rank:
  assumes "redis_server R view" and "world_inv X UNIV (view s)" and "ids_nonempty X" and "am_uuid A \<noteq> []"
    and "CHR ''/'' \<notin> set b" and "CHR ''/'' \<notin> set p" and "board_id_validate X b" and "player_id_validate X p"
    and "rq_method put = ''PUT''" and "rq_path put = score_path b p" and "read_idempotency_key put = Inr idem"
    and "read_json_int H (score_request A b p put) ''player_score'' max_request_body_bytes = Inr (Some n)"
    and "score_validate n" and "last_sid (ledger_of (view s)) < sid_max"
    and "decide (board_scores X b (ledger_of (view s))) (view s) event_set p b n idem = None"
    and "rq_method get = ''GET''" and "rq_path get = score_path b p"
  shows "\<exists>r1 s1 r2 s2 e total. serve_http E H X R A put None (quiet s) = (r1, quiet s1, None) \<and> rs_status r1 = 204 \<and>
    serve_http E H X R A get None (quiet s1) = (r2, quiet s2, None) \<and> rs_status r2 = 200 \<and>
    rs_body r2 = RankResp e total \<and> sc_player e = p \<and> sc_score e = n"
proof -
  have ne: "b \<noteq> []" "p \<noteq> []"
    using assms(3,7,8) by (auto simp: ids_nonempty_def board_id_validate_def player_id_validate_def)
  let ?put = "score_request A b p put"
  have acc: "accepts_write H X (write_field event_set) ?put b p idem n"
    using assms(7,8,11-13) by (simp add: accepts_write_def write_field_def)
  from redis_server.accepted_write_runs [OF assms(1) acc _ assms(2-4,14,15)] obtain s1 where
    s1: "handle_write event_set H X R (am_uuid A) ?put (quiet s) = (Some (write_header 204), quiet s1)"
      "wrote X event_set p b n (request_id (am_uuid A) ?put) idem (view s) (view s1)"
      "writable X event_set p b n (request_id (am_uuid A) ?put)" "world_inv X UNIV (view s1)"
    by auto
  have put: "serve_mux H X R A (put\<lparr>rq_context_id := am_request_id A\<rparr>) (quiet s) = (Some (write_header 204), quiet s1)"
    using s1(1) by (simp add: serve_score_routes(1) [OF assms(5,6) ne assms(10,9)] handle_write_def)
  have "board_scores X b (ledger_of (view s1)) p = Some n"
    using wrote_scores [OF s1(2,3), of b] by (simp add: new_score_def)
  with s1(4) obtain e total s2 where get: "handle_get_rank X R (score_request A b p get) (quiet s1) =
      (Some (write_json 200 (RankResp e total)), quiet s2)" "sc_player e = p" "sc_score e = n"
    using redis_server.rank_read [OF assms(1) _ assms(7,8)] by blast
  have "serve_mux H X R A (get\<lparr>rq_context_id := am_request_id A\<rparr>) (quiet s1) =
      (Some (write_json 200 (RankResp e total)), quiet s2)"
    by (simp only: serve_score_routes(2) [OF assms(5,6) ne assms(17,16)] get(1))
  note served = serve_http_unlimited [OF put, of E] serve_http_unlimited [OF this, of E]
  show ?thesis by (intro exI conjI, rule served(1), simp, rule served(2), simp, simp, rule get(2), rule get(3))
qed

lemma put_score_then_get_rank_witness:
  "\<exists>r1 s1 r2 s2 e total. serve_http demo_rate demo_http demo_ext mem_redis demo_ambient demo_put None (quiet demo) = (r1, quiet s1, None) \<and>
    serve_http demo_rate demo_http demo_ext mem_redis demo_ambient demo_get None (quiet s1) = (r2, quiet s2, None) \<and>
    rs_body r2 = RankResp e total \<and> sc_score e = 5"
  using put_score_then_get_rank [where E = demo_rate and H = demo_http and X = demo_ext and A = demo_ambient and s = demo
      and b = "''main''" and p = "''p1''" and put = demo_put and get = demo_get and idem = "[]" and n = 5, OF mem_server]
  by (fastforce simp: score_validate_abs score_max_def)

text \<open>
  C31. The demonstration walk goes as its titles tell: its writes, sent through the whole service for a
  player on an open board that has not seen its keys, answer 204 for the set of 100 and the increment
  by 5, 204 for the retry under the same key, 409 for the same key with another amount, 204 for
  closing, 409 for a score on the closed board, then 204 for opening, the increment by 1 and the
  rebuild; the score ends at 106, whatever it was. Unless the ledger runs out of stream ids, and then
  the answers up to there are these.
\<close>

theorem walk_goes_as_told:
  assumes "redis_server R view" and "world_inv X UNIV (view s)" and "ids_nonempty X" and "am_uuid A \<noteq> []"
    and "view s (board_profile_key b) \<noteq> None" and "view s (player_profile_key p) \<noteq> None"
    and "board_state_of (view s) b = Some board_active"
    and "\<forall>name \<in> {''set'', ''increment'', ''reopen-increment''}.
      idem_record (view s) b p (walk_key clock name) = None \<and> length (walk_key clock name) \<le> 128"
    and "board_id_validate X b" and "player_id_validate X p" and "plain_segment b" and "plain_segment p"
    and "\<forall>c \<in> set (walk_scores b p clock). wk_method c \<noteq> ''GET'' \<longrightarrow> reads_call H send c"
  shows "let rc = service_walk E H X R A send; writes = filter (\<lambda>c. wk_method c \<noteq> ''GET'') (walk_scores b p clock);
      told = map Some [204, 204, 204, 409, 204, 409, 204, 204, 204]
    in (\<exists>rs s'. run_walk rc writes (quiet s) = (rs, quiet s') \<and> map (map_option fst) rs = told \<and>
        board_scores X b (ledger_of (view s')) p = Some 106 \<and> board_state_of (view s') b = Some board_active \<and>
        world_inv X UNIV (view s')) \<or>
      (\<exists>k rs s'. k < length writes \<and> run_walk rc (take k writes) (quiet s) = (rs, quiet s') \<and>
        map (map_option fst) rs = take k told \<and> \<not> last_sid (ledger_of (view s')) < sid_max)"
proof -
  let ?K = "{walk_key clock ''set'', walk_key clock ''increment'', walk_key clock ''reopen-increment'', []}"
  let ?a = "\<lparr>wb_state = board_active, wb_score = board_scores X b (ledger_of (view s)) p, wb_keys = Map.empty\<rparr>"
  have rep: "walk_rep X b p ?K ?a (view s)"
    using assms(2,5-8) by (auto simp: walk_rep_def seen_as_def)
  have "score_validate 100" "score_validate 5" "score_validate 7" "score_validate 999" "score_validate 1"
    by (simp_all add: score_validate_abs score_max_def)
  then have "walk_op_ok ?K x" if "x \<in> set (walk_ops clock)" for x
    using that assms(8) by (auto simp: walk_ops_def)
  moreover have "reads_call H send (walk_call_of b p x)" if "x \<in> set (walk_ops clock)" for x
  proof -
    have "walk_call_of b p x \<in> set (map (walk_call_of b p) (walk_ops clock))" using that by simp
    then show ?thesis using assms(13) unfolding walk_writes [symmetric] by simp
  qed
  ultimately have "\<forall>x \<in> set (walk_ops clock). walk_op_ok ?K x \<and> reads_call H send (walk_call_of b p x)" by blast
  note run = redis_server.walk_run_served [OF assms(1) rep assms(3,4,9-12) this, of E]
  have told: "fst (walk_spec (walk_ops clock) ?a) = [204, 204, 204, 409, 204, 409, 204, 204, 204]"
    "wb_score (snd (walk_spec (walk_ops clock) ?a)) = Some 106" "wb_state (snd (walk_spec (walk_ops clock) ?a)) = board_active"
    by (rule walk_as_told; simp)+
  have end_state: "walk_rep X b p ?K (snd (walk_spec (walk_ops clock) ?a)) ks \<Longrightarrow>
      board_scores X b (ledger_of ks) p = Some 106 \<and> board_state_of ks b = Some board_active \<and> world_inv X UNIV ks" for ks
    by (simp add: walk_rep_def told)
  from run show ?thesis
    unfolding Let_def walk_writes take_map length_map told(1) using end_state by blast
qed

lemma walk_goes_as_told_witness:
  "let rc = service_walk demo_rate demo_parsers demo_ext mem_redis demo_ambient demo_walk_send;
      writes = filter (\<lambda>c. wk_method c \<noteq> ''GET'') (walk_scores ''main'' ''p1'' (\<lambda>_. 0));
      told = map Some [204, 204, 204, 409, 204, 409, 204, 204, 204]
    in (\<exists>rs s'. run_walk rc writes (quiet demo) = (rs, quiet s') \<and> map (map_option fst) rs = told \<and>
        board_scores demo_ext ''main'' (ledger_of (m_keys s')) ''p1'' = Some 106 \<and>
        board_state_of (m_keys s') ''main'' = Some board_active \<and> world_inv demo_ext UNIV (m_keys s')) \<or>
      (\<exists>k rs s'. k < length writes \<and> run_walk rc (take k writes) (quiet demo) = (rs, quiet s') \<and>
        map (map_option fst) rs = take k told \<and> \<not> last_sid (ledger_of (m_keys s')) < sid_max)"
proof -
  have valid: "score_validate 100" "score_validate 5" "score_validate 7" "score_validate 999" "score_validate 1"
    by (simp_all add: score_validate_abs score_max_def)
  have len: "length (walk_key (\<lambda>_. 0) name) = 7 + length name" for name
    by (simp add: walk_key_def unix_milli_def format_int_def show_nat.simps [of 0])
  have "reads_call demo_parsers demo_walk_send c"
    if "c \<in> set (walk_scores ''main'' ''p1'' (\<lambda>_. 0))" "wk_method c \<noteq> ''GET''" for c
  proof -
    have "c \<in> set (map (walk_call_of ''main'' ''p1'') (walk_ops (\<lambda>_. 0)))" using that by (simp flip: walk_writes)
    then obtain x where x: "x \<in> set (walk_ops (\<lambda>_. 0))" "c = walk_call_of ''main'' ''p1'' x" by auto
    have "walk_op_ok UNIV x" using x(1) valid by (auto simp: walk_ops_def len)
    then show ?thesis using demo_reads_walk x(2) by simp
  qed
  then show ?thesis by (intro walk_goes_as_told [OF mem_server]) (auto simp: len)
qed

section \<open>The server\<close>

text \<open>
  C32. The limiter's table holds each client once and never more than \<open>maxClients\<close> entries, after any
  sequence of requests and cleanup ticks.
\<close>

theorem limiter_table_bounded: "table_ok (snd (rl_run E evs (new_rate_limiter cfg)))"
  by (rule rl_run_table) (simp add: table_ok_def new_rate_limiter_def)



text \<open>
  C34. The access log tells what the client got: for a handler that sends final status codes, the
  logged status and level are those of the response on the wire, and so is the logged size, but in
  answer to HEAD, where no body goes out and the logged size is that of the answer to GET. Statuses
  without a body (204, 304) are counted as net/http sends them, with nothing. A handler that panicked
  before writing is answered with 500.
\<close>

theorem access_log_matches_wire:
  assumes "final_codes cs" and "ending \<noteq> Aborts"
  shows "\<exists>lg w. logging_middleware cs ending (wire_new head) = (Some lg, w) \<and>
    lg_status lg = wire_status w \<and> lg_level lg = log_level_of (wire_status w) \<and>
    wr_bytes w = (if head then 0 else lg_bytes lg) \<and>
    lg_bytes lg = wr_bytes (snd (logging_middleware cs ending (wire_new False))) \<and>
    (ending = Panics \<and> cs = [] \<longrightarrow> wire_status w = 500)"
proof -
  obtain out r where R: "recovery_middleware cs ending (rec_new (wire_new head)) = (out, r)" by fastforce
  obtain out' g where G: "recovery_middleware cs ending (rec_new (wire_new False)) = (out', g)" by fastforce
  have ends: "fst (recovery_middleware cs ending x) \<noteq> Aborts" for x
    using assms(2) by (cases ending) (simp_all add: recovery_middleware_def Let_def)
  have step: "in_step g r"
    using recovery_in_step [OF start_in_step assms(1), of ending head] by (simp add: R G)
  have head: "wr_head (rec_wire r) = head"
    using head_stays [of cs ending "rec_new (wire_new head)"] unfolding R by (simp add: rec_new_def wire_new_def)
  have "logging_middleware cs ending (wire_new head) =
      (Some \<lparr>lg_level = log_level_of (rec_status r), lg_status = rec_status r, lg_bytes = rec_bytes r\<rparr>, rec_wire r)"
    using ends [of "rec_new (wire_new head)"] R by (simp add: logging_middleware_def rec_new_def)
  moreover have "snd (logging_middleware cs ending (wire_new False)) = rec_wire g"
    using G by (simp add: logging_middleware_def rec_new_def)
  moreover have "wire_status (rec_wire r) = 500" if "ending = Panics \<and> cs = []"
    using R that
    by (auto simp: recovery_middleware_def Let_def rec_write_header_def wire_header_def wire_new_def wire_status_def rec_new_def)
  ultimately show ?thesis using step head by (simp add: in_step_def)
qed

lemma access_log_matches_wire_witness:
  "\<exists>lg w. logging_middleware [CallWriteHeader 404, CallWrite 9] Panics (wire_new True) = (Some lg, w) \<and>
    lg_status lg = wire_status w \<and> lg_bytes lg = 9 \<and> wr_bytes w = 0"
  using access_log_matches_wire [of "[CallWriteHeader 404, CallWrite 9]" Panics True]
  by (auto simp: final_codes_def informational_def)
    (simp add: logging_middleware_def recovery_middleware_def rec_write_header_def rec_write_def wire_write_def
      wire_header_def wire_new_def wire_status_def body_allowed_def informational_def Let_def)

text \<open>
  C35. Whatever the environment says, the server either refuses to start or serves with a port in
  1..65535, a positive shutdown timeout and, when it limits rates, a burst of at least one.
\<close>

theorem served_configuration_valid:
  assumes "served_config getenv = Inr cfg"
  shows "config_ok cfg"
  by (rule served_config_ok [OF assms])

lemma served_configuration_valid_witness: "\<exists>cfg. served_config (\<lambda>_. []) = Inr cfg \<and> config_ok cfg"
proof -
  have "\<exists>cfg. served_config (\<lambda>_. []) = Inr cfg"
    by (simp add: served_config_def server_options_def int_from_env_def float_from_env_def duration_from_env_def
        with_port_def with_shutdown_timeout_def default_port_def default_shutdown_timeout_def)
  with served_configuration_valid show ?thesis by blast
qed

section \<open>Two rebuilds of one board\<close>



section \<open>The scripts and tools against the service\<close>

text \<open>
  C37. The fan-out script runs to its end on the service: on an open board without scores, whatever the
  order in which its concurrent sets take effect, all of them succeed, the paging loop ends after at
  most one round per hundred rows (one for the last), every row is the one expected, in rank order, the
  sampled standings agree and the projection is clean; unless the ledger runs out of stream ids during
  the writes. (The fetch of histories after this run is not part of the claim.)
\<close>

theorem fanout_script_passes:
  assumes "redis_server R view" and "board_open X b (fst ` set players) Map.empty (view s)"
    and "ids_nonempty X" and "am_uuid A \<noteq> []" and "board_id_validate X b" and "plain_segment b"
    and "mset order = mset players" and "players \<noteq> []" and "distinct (map fst players)" and "distinct (map snd players)"
    and "length players \<le> 100 * k" and "int (length players) < 2 ^ 62"
    and "\<forall>(p, n) \<in> set players. player_id_validate X p \<and> plain_segment p \<and> score_validate n"
    and "reads_sets H send b" and "reads_scores H send b" and "reads_verify send b"
  shows "let rc = service_rc E H X R A send
    in (\<exists>rows w. fanout_run k rc b players order (quiet s) = (Inr (Some rows), w) \<and>
        rows_match 0 (expected_order players) rows) \<or>
      (\<exists>j s'. j < length order \<and> run_fanout_sets rc b (take j order) (quiet s) = ([], quiet s') \<and>
        \<not> last_sid (ledger_of (view s')) < sid_max)"
  using redis_server.fanout_run_passes [OF assms] by (simp add: Let_def)

lemma fanout_script_passes_witness:
  "let rc = service_rc demo_rate demo_parsers demo_ext mem_redis demo_ambient demo_send
   in (\<exists>rows w. fanout_run 1 rc ''main'' [(''p1'', 7)] [(''p1'', 7)] (quiet demo) = (Inr (Some rows), w) \<and>
        rows_match 0 [(''p1'', 7)] rows) \<or>
      (\<exists>j s'. j < length [(''p1'', 7)] \<and> run_fanout_sets rc ''main'' (take j [(''p1'', 7 :: int)]) (quiet demo) = ([], quiet s') \<and>
        \<not> last_sid (ledger_of (m_keys s')) < sid_max)"
proof -
  have "score_validate 7" by (simp add: score_validate_abs score_max_def)
  with fanout_script_passes [OF mem_server, of demo_ext "''main''" "[(''p1'', 7)]" demo demo_ambient "[(''p1'', 7)]" 1
      demo_parsers demo_send demo_rate] demo_board_open(1)
  show ?thesis by (simp add: expected_order_def)
qed

text \<open>
  C38. The load script's sum comes out: for an amount in score range, on an open board, increments sent
  through the whole service all succeed as long as no partial sum leaves the score range, and the
  standing read afterwards is the score before plus their sum, unless the ledger runs out of stream ids
  on the way.
\<close>

theorem load_adds_up:
  assumes "redis_server R view" and "open_for X b p c (view s)" and "ids_nonempty X" and "am_uuid A \<noteq> []"
    and "board_id_validate X b" and "player_id_validate X p" and "plain_segment b" and "plain_segment p"
    and "reads_increments H send b p a" and "reads_scores H send b" and "score_validate a"
    and "\<forall>k \<le> length order. score_validate (c + int k * a)"
  shows "let rc = service_rc E H X R A send; path = score_path b p @ ''/increment''
    in (\<exists>s' e tot w. run_increment_load rc path a order (quiet s) = ((length order, []), quiet s') \<and>
        fetch_standing rc b p (quiet s') = (Inr (e, tot), w) \<and> sc_score e = c + int (length order) * a) \<or>
    (\<exists>k < length order. \<exists>s'. run_increment_load rc path a (take k order) (quiet s) = ((k, []), quiet s') \<and>
        \<not> last_sid (ledger_of (view s')) < sid_max)"
  using redis_server.increments_add_up [OF assms(1-9,11,12), of E 0]
    redis_server.standing_read [OF assms(1) _ assms(5-8,10), of "c + int (length order) * a" _ E A]
  unfolding run_increment_load_def Let_def by (simp, blast)

lemma load_adds_up_witness:
  "let rc = service_rc demo_rate demo_parsers demo_ext mem_redis demo_ambient demo_send;
       path = score_path ''main'' ''p1'' @ ''/increment''
   in (\<exists>s' e tot w. run_increment_load rc path 7 [2, 1] (quiet demo_scored) = ((2, []), quiet s') \<and>
        fetch_standing rc ''main'' ''p1'' (quiet s') = (Inr (e, tot), w) \<and> sc_score e = 19) \<or>
      (\<exists>k < 2. \<exists>s'. run_increment_load rc path 7 (take k [2, 1]) (quiet demo_scored) = ((k, []), quiet s') \<and>
        \<not> last_sid (ledger_of (m_keys s')) < sid_max)"
proof -
  have "\<forall>k \<le> length [2, 1 :: nat]. score_validate (5 + int k * 7)" "score_validate 7"
    by (auto simp: score_validate_abs score_max_def)
  from load_adds_up [OF mem_server demo_open _ _ _ _ _ _ demo_reads_increments demo_reads_scores this(2,1),
      where A = demo_ambient and E = demo_rate]
  show ?thesis by (simp add: Let_def is_int64_def numeral_2_eq_2)
qed

text \<open>
  C39. The tool runner runs one process at a time, and only what its directory offers: however it was
  started, in every state its handlers can reach at most one tool is running, an executable file of the
  tools directory with checked arguments, the slot is taken exactly while it runs, and every answer
  keeps to the output bound. The server's port is valid and the timeout of a tool is positive (the
  write timeout added to it may wrap).
\<close>

theorem one_tool_at_a_time:
  assumes "tool_main getenv (Some entries) = Some tv" and "(runner_step (tv_tools tv))\<^sup>*\<^sup>* idle_runner s"
  shows "runner_inv (tv_tools tv) s \<and> 1 \<le> tv_port tv \<and> tv_port tv \<le> 65535 \<and> 0 < tv_timeout tv \<and>
    (\<forall>x \<in> set (rn_running s). \<exists>e \<in> set entries. de_name e = ru_tool x \<and> runnable e \<and>
      ru_command x = ''/tools/'' @ de_name e)"
proof -
  have inv: "runner_inv (tv_tools tv) s" by (rule runner_reachable [OF assms(2)])
  then have "map_of (tv_tools tv) (ru_tool x) = Some (ru_command x)" if "x \<in> set (rn_running s)" for x
    using that by (simp add: runner_inv_def run_ok_def)
  with inv tool_main_serves [OF assms(1)] show ?thesis by metis
qed

lemma one_tool_at_a_time_witness:
  "\<exists>tv s. tool_main (\<lambda>_. []) (Some [\<lparr>de_name = ''fanout'', de_is_dir = False, de_info = Some (True, 493)\<rparr>]) = Some tv \<and>
    (runner_step (tv_tools tv))\<^sup>*\<^sup>* idle_runner s \<and> rn_running s \<noteq> [] \<and> runner_inv (tv_tools tv) s"
proof -
  let ?es = "[\<lparr>de_name = ''fanout'', de_is_dir = False, de_info = Some (True, 493)\<rparr>]"
  let ?tools = "[(''fanout'', ''/tools/fanout'')]"
  let ?s = "idle_runner\<lparr>rn_busy := True, rn_running := \<lparr>ru_id = 1, ru_tool = ''fanout'',
    ru_command = ''/tools/fanout'', ru_args = []\<rparr> # rn_running idle_runner\<rparr>"
  have bits: "and 493 73 = (73::nat)" by (simp add: and_nat_unfold)
  have "tool_main (\<lambda>_. []) (Some ?es) =
      Some \<lparr>tv_tools = ?tools, tv_timeout = 30 * 10 ^ 9, tv_port = 8091, tv_write_timeout = 35 * 10 ^ 9\<rparr>"
    by (simp add: tool_main_def env_duration_def env_int_def tool_timeout_def tool_port_def wrap64_def bits)
  then obtain tv where tv: "tool_main (\<lambda>_. []) (Some ?es) = Some tv" "tv_tools tv = ?tools" by simp
  have "begin_run ?tools (rn_busy idle_runner) ''fanout'' (Some []) = Inr (''/tools/fanout'', [])"
    by (simp add: begin_run_def validate_args_def idle_runner_def)
  from r_into_rtranclp [of "runner_step ?tools", OF step_started [OF this, of 1]]
  have "(runner_step (tv_tools tv))\<^sup>*\<^sup>* idle_runner ?s" unfolding tv(2) .
  with one_tool_at_a_time [OF tv(1) this] tv(1) show ?thesis by (intro exI [of _ tv] exI [of _ ?s]) simp
qed

section \<open>Damaged hashes\<close>

text \<open>
  C40. The listing of boards on any server, whatever the board hashes hold: hashes that are no board
  are skipped and the rest are returned, except that one creation time that does not parse makes the
  whole listing fail, and its handler answers 500.
\<close>

theorem damaged_boards_listed:
  assumes "redis_server R view" and "as_zset (view s board_index_key) = Some (board_index (view s))"
    and "\<And>b. b \<in> snd ` set (board_index (view s)) \<Longrightarrow> as_hash (view s (board_profile_key b)) = Some (h b)"
  shows "\<exists>s' rs. view s' = view s \<and> handle_list_boards R rq (quiet s) = (Some rs, quiet s') \<and>
    list_boards R (quiet s) =
      (if \<exists>b \<in> snd ` set (board_index (view s)). bad_timestamp (h b) then Inl StorageOther
       else Inr (readable_boards (map (\<lambda>b. (b, h b)) (map snd (board_index (view s))))), quiet s') \<and>
    rs_status rs = (if \<exists>b \<in> snd ` set (board_index (view s)). bad_timestamp (h b) then 500 else 200)"
proof -
  from qsim_result [OF redis_server.qsim_list_boards [OF assms(1)] doc_list_hashes [OF assms(2,3)]]
  obtain s' where "list_boards R (quiet s) = (listed_boards (map (\<lambda>b. (b, h b)) (map snd (board_index (view s)))), quiet s')"
    "view s' = view s" by blast
  then show ?thesis
    by (auto simp: listed_boards_all handle_list_boards_def stored_def write_storage_error_def write_error_def write_json_def)
qed

lemma damaged_boards_listed_witness:
  "\<exists>s' rs. handle_list_boards mem_redis (demo_request (\<lambda>_. None)) (quiet damaged) = (Some rs, quiet s') \<and> rs_status rs = 500"
  using damaged_boards_listed [OF mem_server, of damaged damaged_fields "demo_request (\<lambda>_. None)"] damaged_store by auto

end
